(* ===== verification/Prelude.thy ===== *)
theory Prelude
  imports Main "HOL-Library.Word" "HOL-Library.Sublist" "HOL-Library.Multiset"
begin

text \<open>
  Shared vocabulary of the development: the machine types of the C++ code, the error codes that
  asio hands to completion handlers, the two standard algorithms the code calls on containers
  (\<open>std::find_if_not\<close> and the erase/remove idiom), runs of an executable transition function,
  states reachable by a step relation, and the locale of inductive invariants.
  The collection \<open>run_simps\<close> gathers the equations that evaluate concrete runs of the models.
\<close>

named_theorems run_simps \<open>definitions unfolded when a run of a model is evaluated\<close>

type_synonym byte = "8 word"
type_synonym bytes = "byte list"
type_synonym u16 = "16 word"
type_synonym u32 = "32 word"

lemma unat_bound: "unat (w :: 'a::len word) < 2 ^ LENGTH('a)"
  by (rule unsigned_less)

lemma take_drop_chain: "take k (drop n xs) @ drop (n + k) xs = drop n xs"
  by (metis add.commute append_take_drop_id drop_drop)

section \<open>Error codes\<close>

text \<open>
  \<open>boost::system::error_code\<close>: the code only asks whether an error is set (\<open>!error\<close>) and
  whether it is \<open>operation_aborted\<close>. \<open>None\<close> is the code without an error.
\<close>

datatype asio_error = OperationAborted | OtherError nat

type_synonym error_code = "asio_error option"

section \<open>Standard algorithms on containers\<close>

text \<open>\<open>std::find_if_not\<close>: the first element that does not satisfy the predicate, \<open>None\<close> for
  the end iterator.\<close>

fun find_if_not :: "('a \<Rightarrow> bool) \<Rightarrow> 'a list \<Rightarrow> 'a option" where
  "find_if_not p [] = None"
| "find_if_not p (x # xs) = (if p x then find_if_not p xs else Some x)"

lemma find_if_not_None [simp]: "find_if_not p xs = None \<longleftrightarrow> (\<forall>x\<in>set xs. p x)"
  by (induction xs) auto

lemma find_if_not_all: "\<forall>x\<in>set xs. p x \<Longrightarrow> find_if_not p xs = None"
  by simp

lemma find_if_not_SomeD: "find_if_not p xs = Some x \<Longrightarrow> x \<in> set xs \<and> \<not> p x"
  by (induction xs) (auto split: if_splits)

lemma find_if_not_first:
  "find_if_not p xs = Some x \<Longrightarrow> \<exists>us vs. xs = us @ x # vs \<and> (\<forall>u\<in>set us. p u)"
proof (induction xs)
  case (Cons y ys)
  show ?case
  proof (cases "p y")
    case True
    with Cons.prems have "find_if_not p ys = Some x" by simp
    then obtain us vs where "ys = us @ x # vs" "\<forall>u\<in>set us. p u" using Cons.IH by blast
    with True have "y # ys = (y # us) @ x # vs \<and> (\<forall>u\<in>set (y # us). p u)" by simp
    then show ?thesis by blast
  next
    case False
    with Cons.prems have "y = x" by simp
    then show ?thesis by (intro exI [of _ "[]"] exI [of _ ys]) simp
  qed
qed simp

text \<open>The erase/remove idiom keeps, in order, the elements that do not satisfy the predicate.\<close>

definition erase_if :: "('a \<Rightarrow> bool) \<Rightarrow> 'a list \<Rightarrow> 'a list" where
  "erase_if p xs = filter (\<lambda>x. \<not> p x) xs"

lemma set_erase_if [simp]: "set (erase_if p xs) = {x \<in> set xs. \<not> p x}"
  by (simp add: erase_if_def)

lemma length_erase_if: "length (erase_if p xs) \<le> length xs"
  by (simp add: erase_if_def)

lemma distinct_erase_if [intro]: "distinct xs \<Longrightarrow> distinct (erase_if p xs)"
  by (simp add: erase_if_def)

text \<open>Taking the element at an index out of a list, and what that does to sums over the list.\<close>

definition remove_at :: "nat \<Rightarrow> 'a list \<Rightarrow> 'a list" where
  "remove_at i xs = take i xs @ drop (Suc i) xs"

declare remove_at_def [run_simps]

lemma remove_at_append: "remove_at (length us) (us @ x # vs) = us @ vs"
  by (simp add: remove_at_def)

lemma mset_concat_remove_at:
  assumes "i < length xs"
  shows "mset (concat (map g xs)) = mset (g (xs ! i)) + mset (concat (map g (remove_at i xs)))"
  using arg_cong [OF id_take_nth_drop [OF assms], of "\<lambda>xs. mset (concat (map g xs))"]
  by (simp add: remove_at_def)

lemma sum_list_remove_at:
  fixes g :: "'a \<Rightarrow> nat"
  assumes "i < length xs"
  shows "sum_list (map g xs) = g (xs ! i) + sum_list (map g (remove_at i xs))"
  using arg_cong [OF id_take_nth_drop [OF assms], of "\<lambda>xs. sum_list (map g xs)"]
  by (simp add: remove_at_def)

section \<open>Runs of an executable transition function\<close>

text \<open>An event that is not enabled in a state has no successor; a run stops there with \<open>None\<close>.\<close>

fun run :: "('s \<Rightarrow> 'e \<Rightarrow> 's option) \<Rightarrow> 's \<Rightarrow> 'e list \<Rightarrow> 's option" where
  "run f s [] = Some s"
| "run f s (e # es) = (case f s e of None \<Rightarrow> None | Some s' \<Rightarrow> run f s' es)"

lemma run_append: "run f s (es @ fs) = (case run f s es of None \<Rightarrow> None | Some s' \<Rightarrow> run f s' fs)"
  by (induction es arbitrary: s) (auto split: option.splits)

lemma run_invariant:
  assumes "run f s es = Some t" and "P s"
    and "\<And>s e s'. e \<in> set es \<Longrightarrow> f s e = Some s' \<Longrightarrow> P s \<Longrightarrow> P s'"
  shows "P t"
  using assms
proof (induction es arbitrary: s)
  case (Cons e es)
  then obtain s' where s': "f s e = Some s'" "run f s' es = Some t"
    by (auto split: option.splits)
  with Cons.prems have "P s'" by (meson list.set_intros(1))
  then show ?case using Cons.IH [of s'] s'(2) Cons.prems(3) by (meson list.set_intros(2))
qed simp

section \<open>Reachable states and inductive invariants\<close>

inductive reach :: "('s \<Rightarrow> bool) \<Rightarrow> ('s \<Rightarrow> 's \<Rightarrow> bool) \<Rightarrow> 's \<Rightarrow> bool"
  for init :: "'s \<Rightarrow> bool" and step :: "'s \<Rightarrow> 's \<Rightarrow> bool" where
  reach_init: "init s \<Longrightarrow> reach init step s"
| reach_step: "reach init step s \<Longrightarrow> step s t \<Longrightarrow> reach init step t"

text \<open>An invariant that every step keeps holds in every reachable state.\<close>

locale inductive_invariant =
  fixes init :: "'s \<Rightarrow> bool"
    and step :: "'s \<Rightarrow> 's \<Rightarrow> bool"
    and inv :: "'s \<Rightarrow> bool"
  assumes inv_start: "init s \<Longrightarrow> inv s"
    and inv_next: "inv s \<Longrightarrow> step s t \<Longrightarrow> inv t"
begin

lemma reachable_inv: "reach init step s \<Longrightarrow> inv s"
  by (induction rule: reach.induct) (auto intro: inv_start inv_next)

end

text \<open>A system whose steps, seen through \<open>view\<close>, are steps of a simpler system or change nothing.\<close>

locale simulation = inductive_invariant init step inv
  for init :: "'c \<Rightarrow> bool" and step :: "'c \<Rightarrow> 'c \<Rightarrow> bool" and inv :: "'c \<Rightarrow> bool" +
  fixes spec_init :: "'a \<Rightarrow> bool"
    and spec_step :: "'a \<Rightarrow> 'a \<Rightarrow> bool"
    and view :: "'c \<Rightarrow> 'a"
  assumes view_init: "init c \<Longrightarrow> spec_init (view c)"
    and view_step: "inv c \<Longrightarrow> step c d \<Longrightarrow> view d = view c \<or> spec_step (view c) (view d)"
begin

lemma reachable_view: "reach init step c \<Longrightarrow> reach spec_init spec_step (view c)"
proof (induction rule: reach.induct)
  case (reach_step c d)
  with view_step [OF reachable_inv] show ?case by (metis reach.reach_step)
qed (auto intro: reach.reach_init view_init)

end

text \<open>A system that comes to rest: every winding event spends some of the potential, but for the extra
  that an event may add, and short of rest there is one that adds nothing.\<close>

locale winding_down =
  fixes exec :: "'s \<Rightarrow> 'e \<Rightarrow> 's option"
    and inv :: "'s \<Rightarrow> bool"
    and winds :: "'e \<Rightarrow> bool"
    and extra :: "'e \<Rightarrow> nat"
    and potential :: "'s \<Rightarrow> nat"
    and rest :: "'s \<Rightarrow> bool"
  assumes keeps: "inv s \<Longrightarrow> winds e \<Longrightarrow> exec s e = Some t \<Longrightarrow> inv t"
    and spends: "inv s \<Longrightarrow> winds e \<Longrightarrow> exec s e = Some t \<Longrightarrow> Suc (potential t) \<le> potential s + extra e"
    and goes_on: "inv s \<Longrightarrow> \<not> rest s \<Longrightarrow> \<exists>e t. winds e \<and> extra e = 0 \<and> exec s e = Some t"
begin

lemma run_bound:
  "inv s \<Longrightarrow> run exec s es = Some t \<Longrightarrow> list_all winds es \<Longrightarrow>
     inv t \<and> length es + potential t \<le> potential s + sum_list (map extra es)"
proof (induction es arbitrary: s)
  case (Cons e es)
  then obtain u where u: "exec s e = Some u" "run exec u es = Some t" by (auto split: option.splits)
  with Cons.prems have "inv u" "Suc (potential u) \<le> potential s + extra e" using keeps [of s e u] spends [of s e u] by simp_all
  with Cons.IH [OF _ u(2)] Cons.prems(3) show ?case by simp
qed simp

lemma comes_to_rest:
  "inv s \<Longrightarrow> \<exists>es t. run exec s es = Some t \<and> list_all winds es \<and> sum_list (map extra es) = 0 \<and> rest t"
proof (induction "potential s" arbitrary: s rule: less_induct)
  case less
  show ?case
  proof (cases "rest s")
    case True
    then show ?thesis by (intro exI [of _ "[]"] exI [of _ s]) simp
  next
    case False
    then obtain e u where e: "winds e" "extra e = 0" "exec s e = Some u" using goes_on less.prems by blast
    with spends [OF less.prems e(1,3)] have "potential u < potential s" by simp
    then obtain es t where "run exec u es = Some t" "list_all winds es" "sum_list (map extra es) = 0" "rest t"
      using less.hyps [of u] keeps [OF less.prems e(1,3)] by blast
    with e show ?thesis by (intro exI [of _ "e # es"] exI [of _ t]) simp
  qed
qed

end

end
