(* ===== verification/Buffers.thy ===== *)
theory Buffers
  imports Prelude
begin

text \<open>
  \<open>src/utils/BufferProvider/src/Buffer.cpp\<close> and \<open>include/Buffer.h\<close>: a byte vector
  \<open>data_\<close>, a logical size \<open>size_\<close> kept beside it, and the \<open>busy_\<close> flag the pool uses.
  \<open>resize\<close> changes vector and size together; \<open>reset\<close> only forgets the size, so the vector
  of a reset buffer is longer than its size. \<open>well_sized\<close> is the invariant that makes
  every read of \<open>size()\<close> bytes from \<open>data()\<close> stay inside the vector.
\<close>

record buffer =
  buf_data :: "byte list"
  buf_size :: nat
  buf_busy :: bool

section \<open>Operations\<close>

text \<open>\<open>std::vector<uint8_t>::resize\<close>: truncates, or appends zero bytes.\<close>

definition vector_resize :: "nat \<Rightarrow> byte list \<Rightarrow> byte list" where
  "vector_resize n xs = take n xs @ replicate (n - length xs) 0"

definition Buffer_create :: "nat \<Rightarrow> buffer" where
  "Buffer_create n = \<lparr>buf_data = replicate n 0, buf_size = n, buf_busy = False\<rparr>"

definition Buffer_default :: buffer where
  "Buffer_default = Buffer_create 0"

definition Buffer_data :: "buffer \<Rightarrow> byte list" where
  "Buffer_data b = buf_data b"

definition Buffer_size :: "buffer \<Rightarrow> nat" where
  "Buffer_size b = buf_size b"

definition Buffer_resize :: "nat \<Rightarrow> buffer \<Rightarrow> buffer" where
  "Buffer_resize n b = (let b' = b\<lparr>buf_size := n\<rparr>
     in b'\<lparr>buf_data := vector_resize (buf_size b') (buf_data b')\<rparr>)"

definition Buffer_reset :: "buffer \<Rightarrow> buffer" where
  "Buffer_reset b = b\<lparr>buf_size := 0\<rparr>"

definition Buffer_isBusy :: "buffer \<Rightarrow> bool" where
  "Buffer_isBusy b = buf_busy b"

definition Buffer_take :: "buffer \<Rightarrow> buffer" where
  "Buffer_take b = b\<lparr>buf_busy := True\<rparr>"

definition Buffer_free :: "buffer \<Rightarrow> buffer" where
  "Buffer_free b = b\<lparr>buf_busy := False\<rparr>"

text \<open>The bytes a caller reaches through \<open>data()\<close> and \<open>size()\<close>, and the effect of writing
  bytes from \<open>data()\<close> on (\<open>memcpy\<close>, a completed \<open>async_read\<close>).\<close>

definition Buffer_view :: "buffer \<Rightarrow> byte list" where
  "Buffer_view b = take (Buffer_size b) (Buffer_data b)"

definition overlay :: "'a list \<Rightarrow> 'a list \<Rightarrow> 'a list" where
  "overlay new old = take (length old) new @ drop (length new) old"

definition Buffer_write :: "byte list \<Rightarrow> buffer \<Rightarrow> buffer" where
  "Buffer_write bs b = b\<lparr>buf_data := overlay bs (buf_data b)\<rparr>"

definition well_sized :: "buffer \<Rightarrow> bool" where
  "well_sized b \<longleftrightarrow> buf_size b \<le> length (buf_data b)"

lemmas buffer_defs = Buffer_create_def Buffer_default_def Buffer_data_def Buffer_size_def
  Buffer_resize_def Buffer_reset_def Buffer_isBusy_def Buffer_take_def Buffer_free_def
  Buffer_view_def Buffer_write_def

section \<open>Lemmas\<close>

lemma length_vector_resize [simp]: "length (vector_resize n xs) = n"
  by (simp add: vector_resize_def min_def)

lemma take_vector_resize: "n \<le> length xs \<Longrightarrow> vector_resize n xs = take n xs"
  by (simp add: vector_resize_def)

lemma length_overlay [simp]: "length (overlay new old) = length old"
  by (simp add: overlay_def min_def)

lemma overlay_full: "length new = length old \<Longrightarrow> overlay new old = new"
  by (simp add: overlay_def)

lemma overlay_Nil [simp]: "overlay [] old = old"
  by (simp add: overlay_def)

lemma buffer_selectors [simp]:
  "Buffer_isBusy (Buffer_take b) = True" "Buffer_isBusy (Buffer_free b) = False"
  "Buffer_isBusy (Buffer_reset b) = Buffer_isBusy b"
  "Buffer_isBusy (Buffer_resize n b) = Buffer_isBusy b"
  "Buffer_isBusy (Buffer_write bs b) = Buffer_isBusy b"
  "Buffer_isBusy (Buffer_create n) = False"
  "Buffer_size (Buffer_take b) = Buffer_size b" "Buffer_size (Buffer_free b) = Buffer_size b"
  "Buffer_size (Buffer_reset b) = 0" "Buffer_size (Buffer_resize n b) = n"
  "Buffer_size (Buffer_write bs b) = Buffer_size b" "Buffer_size (Buffer_create n) = n"
  by (simp_all add: buffer_defs Let_def)

lemma Buffer_view_create [simp]: "Buffer_view (Buffer_create n) = replicate n 0"
  by (simp add: buffer_defs)

lemma Buffer_view_default [simp]: "Buffer_view Buffer_default = []"
  by (simp add: buffer_defs)

lemma Buffer_size_default [simp]: "Buffer_size Buffer_default = 0"
  by (simp add: buffer_defs)

lemma length_Buffer_view: "well_sized b \<Longrightarrow> length (Buffer_view b) = Buffer_size b"
  by (simp add: buffer_defs well_sized_def)

lemma well_sized_ops [simp, intro]:
  "well_sized (Buffer_create n)" "well_sized Buffer_default" "well_sized (Buffer_resize n b)"
  "well_sized (Buffer_reset b)"
  "well_sized b \<Longrightarrow> well_sized (Buffer_take b)" "well_sized b \<Longrightarrow> well_sized (Buffer_free b)"
  "well_sized b \<Longrightarrow> well_sized (Buffer_write bs b)"
  by (simp_all add: buffer_defs well_sized_def Let_def)

text \<open>A buffer that is grown to the size of the bytes written into it holds exactly them.\<close>

lemma Buffer_view_write_resize:
  "length bs = n \<Longrightarrow> Buffer_view (Buffer_write bs (Buffer_resize n b)) = bs"
  by (simp add: buffer_defs Let_def overlay_full)

lemma Buffer_view_write_create:
  "length bs = n \<Longrightarrow> Buffer_view (Buffer_write bs (Buffer_create n)) = bs"
  by (simp add: buffer_defs Let_def overlay_full)

text \<open>\<open>reset\<close> keeps the vector: after a later \<open>resize\<close> within its length the old bytes are
  visible again.\<close>

lemma Buffer_view_resize_reset:
  "n \<le> length (buf_data b) \<Longrightarrow> Buffer_view (Buffer_resize n (Buffer_reset b)) = take n (buf_data b)"
  by (simp add: buffer_defs Let_def vector_resize_def)

end
