(* ===== verification/BufferPool.thy ===== *)
theory BufferPool
  imports Buffers
begin

text \<open>
  \<open>src/utils/BufferProvider/src/BufferProvider.cpp\<close> and \<open>include/BufferLock.h\<close>: a pool of
  at most \<open>maxBuffersCount_\<close> buffers and the RAII object \<open>BufferLock\<close> that marks a buffer as
  taken while it lives.  A \<open>BufferPtr\<close> is shared between the pool's list and the lock, so
  buffers live in an explicit heap and a pointer is an address (\<open>None\<close> is \<open>nullptr\<close>).
  The list is guarded by the provider's mutex, so \<open>get\<close> and \<open>reset\<close> are atomic; the
  destructor of a lock takes no mutex, so its two statements are two steps of the system
  \<open>pool_exec\<close> and any other operation can run between them.
\<close>

section \<open>State\<close>

type_synonym addr = nat
type_synonym buffer_ptr = "addr option"
type_synonym buffer_lock = buffer_ptr  \<comment> \<open>the only field of a \<open>BufferLock\<close> is \<open>buffer_\<close>\<close>

record provider =
  heap :: "addr \<Rightarrow> buffer option"
  next_addr :: addr
  buffers :: "addr list"
  maxBufferSize :: nat
  maxBuffersCount :: nat

definition BufferProvider_create :: "nat \<Rightarrow> nat \<Rightarrow> provider" where
  "BufferProvider_create maxSize maxCount = \<lparr>heap = (\<lambda>_. None), next_addr = 0, buffers = [],
     maxBufferSize = maxSize, maxBuffersCount = maxCount\<rparr>"

text \<open>\<open>Buffer::create\<close> allocates; \<open>buffer->f()\<close> on a live pointer updates its object.\<close>

definition new_buffer :: "nat \<Rightarrow> provider \<Rightarrow> addr \<times> provider" where
  "new_buffer n p = (next_addr p,
     p\<lparr>heap := (heap p)(next_addr p \<mapsto> Buffer_create n), next_addr := Suc (next_addr p)\<rparr>)"

definition modify :: "addr \<Rightarrow> (buffer \<Rightarrow> buffer) \<Rightarrow> provider \<Rightarrow> provider" where
  "modify a f p = (case heap p a of None \<Rightarrow> p | Some b \<Rightarrow> p\<lparr>heap := (heap p)(a \<mapsto> f b)\<rparr>)"

definition isBusy :: "provider \<Rightarrow> addr \<Rightarrow> bool" where
  "isBusy p a = (case heap p a of None \<Rightarrow> False | Some b \<Rightarrow> Buffer_isBusy b)"

section \<open>BufferLock\<close>

definition BufferLock_construct :: "buffer_ptr \<Rightarrow> provider \<Rightarrow> buffer_lock \<times> provider" where
  "BufferLock_construct buffer p = (buffer,
     (case buffer of None \<Rightarrow> p | Some a \<Rightarrow> modify a Buffer_take p))"

text \<open>The destructor: \<open>buffer_->free()\<close>, then \<open>buffer_->reset()\<close>.\<close>

definition BufferLock_dtor_free :: "buffer_lock \<Rightarrow> provider \<Rightarrow> provider" where
  "BufferLock_dtor_free l p = (case l of None \<Rightarrow> p | Some a \<Rightarrow> modify a Buffer_free p)"

definition BufferLock_dtor_reset :: "buffer_lock \<Rightarrow> provider \<Rightarrow> provider" where
  "BufferLock_dtor_reset l p = (case l of None \<Rightarrow> p | Some a \<Rightarrow> modify a Buffer_reset p)"

definition BufferLock_destroy :: "buffer_lock \<Rightarrow> provider \<Rightarrow> provider" where
  "BufferLock_destroy l p = BufferLock_dtor_reset l (BufferLock_dtor_free l p)"

definition BufferLock_empty :: "buffer_lock \<Rightarrow> bool" where
  "BufferLock_empty l = (l = None)"

definition BufferLock_data :: "buffer_lock \<Rightarrow> provider \<Rightarrow> byte list option" where
  "BufferLock_data l p = (case l of None \<Rightarrow> None | Some a \<Rightarrow> map_option Buffer_data (heap p a))"

definition BufferLock_size :: "buffer_lock \<Rightarrow> provider \<Rightarrow> nat" where
  "BufferLock_size l p = (case l of None \<Rightarrow> 0
     | Some a \<Rightarrow> (case heap p a of None \<Rightarrow> 0 | Some b \<Rightarrow> Buffer_size b))"

definition BufferLock_resize :: "buffer_lock \<Rightarrow> nat \<Rightarrow> provider \<Rightarrow> provider" where
  "BufferLock_resize l n p = (case l of None \<Rightarrow> p | Some a \<Rightarrow> modify a (Buffer_resize n) p)"

section \<open>BufferProvider\<close>

definition BufferProvider_get :: "provider \<Rightarrow> buffer_lock option \<times> provider" where
  "BufferProvider_get p =
    (let (buffer, p1) =
       (case find_if_not (isBusy p) (buffers p) of
          None \<Rightarrow>
            (if length (buffers p) < maxBuffersCount p
             then let (a, q) = new_buffer (maxBufferSize p) p
                  in (Some a, q\<lparr>buffers := buffers q @ [a]\<rparr>)
             else (None, p))
        | Some a \<Rightarrow> (Some a, p))
     in case buffer of
          None \<Rightarrow> (None, p1)
        | Some a \<Rightarrow> (let (l, p2) = BufferLock_construct (Some a) p1 in (Some l, p2)))"

definition BufferProvider_reset :: "provider \<Rightarrow> provider" where
  "BufferProvider_reset p = p\<lparr>buffers := erase_if (\<lambda>a. \<not> isBusy p a) (buffers p)\<rparr>"

lemmas lock_defs = BufferLock_construct_def BufferLock_dtor_free_def BufferLock_dtor_reset_def
  BufferLock_destroy_def BufferLock_data_def BufferLock_size_def BufferLock_resize_def
  BufferLock_empty_def

lemmas provider_defs = BufferProvider_create_def new_buffer_def modify_def isBusy_def
  BufferProvider_get_def BufferProvider_reset_def

section \<open>Lemmas on the provider's operations\<close>

lemma modify_frame [simp]:
  "buffers (modify a f p) = buffers p" "next_addr (modify a f p) = next_addr p"
  "maxBuffersCount (modify a f p) = maxBuffersCount p"
  "maxBufferSize (modify a f p) = maxBufferSize p"
  by (simp_all add: modify_def split: option.splits)

lemma heap_modify: "heap (modify a f p) x = (if x = a then map_option f (heap p x) else heap p x)"
  by (auto simp: modify_def split: option.splits)

lemma dom_heap_modify [simp]: "dom (heap (modify a f p)) = dom (heap p)"
  by (auto simp: heap_modify dom_def split: if_splits)

lemma isBusy_modify:
  "isBusy (modify a f p) x =
     (if x = a then (case heap p a of None \<Rightarrow> False | Some b \<Rightarrow> Buffer_isBusy (f b)) else isBusy p x)"
  by (simp add: isBusy_def heap_modify split: option.splits)

text \<open>What \<open>get\<close> does, by its three outcomes.\<close>

lemma get_recycles:
  "find_if_not (isBusy p) (buffers p) = Some a \<Longrightarrow>
     BufferProvider_get p = (Some (Some a), modify a Buffer_take p)"
  by (simp add: BufferProvider_get_def BufferLock_construct_def)

lemma get_creates:
  "\<lbrakk>\<forall>a\<in>set (buffers p). isBusy p a; length (buffers p) < maxBuffersCount p\<rbrakk> \<Longrightarrow>
     BufferProvider_get p = (Some (Some (next_addr p)),
       p\<lparr>heap := (heap p)(next_addr p \<mapsto> Buffer_take (Buffer_create (maxBufferSize p))),
         next_addr := Suc (next_addr p), buffers := buffers p @ [next_addr p]\<rparr>)"
  by (simp add: find_if_not_all BufferProvider_get_def BufferLock_construct_def new_buffer_def
      modify_def)

lemma get_refuses:
  "\<lbrakk>\<forall>a\<in>set (buffers p). isBusy p a; \<not> length (buffers p) < maxBuffersCount p\<rbrakk> \<Longrightarrow>
     BufferProvider_get p = (None, p)"
  by (simp add: find_if_not_all BufferProvider_get_def)

lemma get_cases [consumes 1, case_names recycle create refuse]:
  assumes "BufferProvider_get p = (r, q)"
  obtains (recycle) a where "find_if_not (isBusy p) (buffers p) = Some a" "r = Some (Some a)"
      "q = modify a Buffer_take p" "a \<in> set (buffers p)" "\<not> isBusy p a"
  | (create) "\<forall>a\<in>set (buffers p). isBusy p a" "length (buffers p) < maxBuffersCount p"
      "r = Some (Some (next_addr p))"
      "q = p\<lparr>heap := (heap p)(next_addr p \<mapsto> Buffer_take (Buffer_create (maxBufferSize p))),
         next_addr := Suc (next_addr p), buffers := buffers p @ [next_addr p]\<rparr>"
  | (refuse) "\<forall>a\<in>set (buffers p). isBusy p a" "\<not> length (buffers p) < maxBuffersCount p"
      "r = None" "q = p"
proof (cases "find_if_not (isBusy p) (buffers p)")
  case (Some a)
  with assms get_recycles [OF Some] find_if_not_SomeD [OF Some] show ?thesis
    by (intro recycle) auto
next
  case None
  then have busy: "\<forall>a\<in>set (buffers p). isBusy p a" by simp
  show ?thesis
  proof (cases "length (buffers p) < maxBuffersCount p")
    case True
    with assms get_creates [OF busy True] busy show ?thesis by (intro create) auto
  next
    case False
    with assms get_refuses [OF busy False] busy show ?thesis by (intro refuse) auto
  qed
qed

section \<open>The provider's invariant\<close>

definition provider_ok :: "provider \<Rightarrow> bool" where
  "provider_ok p \<longleftrightarrow>
     length (buffers p) \<le> maxBuffersCount p \<and> distinct (buffers p) \<and>
     set (buffers p) \<subseteq> dom (heap p) \<and>
     (\<forall>a b. heap p a = Some b \<longrightarrow> a < next_addr p \<and> well_sized b)"

lemma provider_okD:
  assumes "provider_ok p"
  shows "length (buffers p) \<le> maxBuffersCount p" "distinct (buffers p)"
    "set (buffers p) \<subseteq> dom (heap p)" "heap p a = Some b \<Longrightarrow> a < next_addr p"
    "heap p a = Some b \<Longrightarrow> well_sized b"
  using assms by (auto simp: provider_ok_def)

lemma provider_ok_create: "provider_ok (BufferProvider_create m n)"
  by (simp add: provider_ok_def BufferProvider_create_def)

lemma provider_ok_modify:
  assumes "provider_ok p" and "\<And>b. well_sized b \<Longrightarrow> well_sized (f b)"
  shows "provider_ok (modify a f p)"
  using assms by (auto simp: provider_ok_def heap_modify split: if_splits)

lemma next_addr_free: "provider_ok p \<Longrightarrow> heap p (next_addr p) = None"
  by (cases "heap p (next_addr p)") (auto dest: provider_okD(4))

lemma next_addr_not_busy: "provider_ok p \<Longrightarrow> \<not> isBusy p (next_addr p)"
  by (simp add: isBusy_def next_addr_free)

lemma next_addr_not_pooled: "provider_ok p \<Longrightarrow> next_addr p \<notin> set (buffers p)"
  using next_addr_free provider_okD(3) by (metis domIff subsetD)

lemma provider_ok_get: "provider_ok p \<Longrightarrow> BufferProvider_get p = (r, q) \<Longrightarrow> provider_ok q"
proof (erule get_cases, goal_cases)
  case (1 a)
  then show ?case by (auto intro: provider_ok_modify)
next
  case 2
  then show ?case using next_addr_not_pooled [of p]
    by (auto simp: provider_ok_def less_SucI)
qed simp

lemma provider_ok_reset: "provider_ok p \<Longrightarrow> provider_ok (BufferProvider_reset p)"
  using length_erase_if [of "\<lambda>a. \<not> isBusy p a" "buffers p"]
  by (auto simp: provider_ok_def BufferProvider_reset_def)

lemma isBusy_get:
  assumes "provider_ok p" "BufferProvider_get p = (r, q)"
  shows "isBusy q x \<longleftrightarrow> isBusy p x \<or> r = Some (Some x)"
  using assms(2)
proof (cases rule: get_cases)
  case (recycle a)
  with assms(1) have "a \<in> dom (heap p)" by (auto dest: provider_okD(3))
  with recycle show ?thesis by (auto simp: isBusy_modify)
next
  case create
  with next_addr_not_busy [OF assms(1)] show ?thesis by (auto simp: isBusy_def)
qed simp

section \<open>The pool and its clients\<close>

text \<open>
  A client holds a lock (\<open>Held\<close>) until its destructor has run \<open>free()\<close> (\<open>Freed\<close>); the lock
  is gone when \<open>reset()\<close> has run too.  An event is one client or provider operation; the
  sequence of events is any interleaving of them.
\<close>

datatype lock_phase = Held | Freed

record pool =
  prov :: provider
  locks :: "(addr \<times> lock_phase) list"

datatype pool_event =
    Acquire                     \<comment> \<open>\<open>provider->get()\<close>\<close>
  | LockResize addr nat         \<comment> \<open>\<open>lock->resize(n)\<close> by the holder\<close>
  | LockWrite addr "byte list"  \<comment> \<open>the holder writes through \<open>lock->data()\<close>\<close>
  | BeginRelease addr           \<comment> \<open>\<open>~BufferLock\<close> up to \<open>free()\<close>\<close>
  | EndRelease addr             \<comment> \<open>\<open>~BufferLock\<close>, the \<open>reset()\<close>\<close>
  | ResetProvider               \<comment> \<open>\<open>provider->reset()\<close>\<close>

fun pool_exec :: "pool \<Rightarrow> pool_event \<Rightarrow> pool option" where
  "pool_exec s Acquire = (let (r, q) = BufferProvider_get (prov s) in
     Some (case r of
         Some (Some a) \<Rightarrow> s\<lparr>prov := q, locks := (a, Held) # locks s\<rparr>
       | _ \<Rightarrow> s\<lparr>prov := q\<rparr>))"
| "pool_exec s (LockResize a n) = (if (a, Held) \<in> set (locks s)
     then Some (s\<lparr>prov := BufferLock_resize (Some a) n (prov s)\<rparr>) else None)"
| "pool_exec s (LockWrite a bs) = (if (a, Held) \<in> set (locks s)
     then Some (s\<lparr>prov := modify a (Buffer_write bs) (prov s)\<rparr>) else None)"
| "pool_exec s (BeginRelease a) = (if (a, Held) \<in> set (locks s)
     then Some (s\<lparr>prov := BufferLock_dtor_free (Some a) (prov s),
                  locks := (a, Freed) # remove1 (a, Held) (locks s)\<rparr>) else None)"
| "pool_exec s (EndRelease a) = (if (a, Freed) \<in> set (locks s)
     then Some (s\<lparr>prov := BufferLock_dtor_reset (Some a) (prov s),
                  locks := remove1 (a, Freed) (locks s)\<rparr>) else None)"
| "pool_exec s ResetProvider = Some (s\<lparr>prov := BufferProvider_reset (prov s)\<rparr>)"

definition pool_step :: "pool \<Rightarrow> pool \<Rightarrow> bool" where
  "pool_step s t \<longleftrightarrow> (\<exists>e. pool_exec s e = Some t)"

definition pool_start :: "pool \<Rightarrow> bool" where
  "pool_start s \<longleftrightarrow> (\<exists>m n. s = \<lparr>prov = BufferProvider_create m n, locks = []\<rparr>)"

definition held :: "pool \<Rightarrow> addr list" where
  "held s = map fst (filter (\<lambda>l. snd l = Held) (locks s))"

definition busy_set :: "pool \<Rightarrow> addr set" where
  "busy_set s = {a. isBusy (prov s) a}"

lemma mset_held_remove: "(a, Held) \<in> set ls \<Longrightarrow>
  mset (map fst (filter (\<lambda>l. snd l = Held) (remove1 (a, Held) ls))) =
  mset (map fst (filter (\<lambda>l. snd l = Held) ls)) - {#a#}"
  by (simp add: mset_filter image_mset_Diff)

lemma held_remove_Freed:
  "filter (\<lambda>l. snd l = Held) (remove1 (a, Freed) ls) = filter (\<lambda>l. snd l = Held) ls"
  by (induction ls) auto

lemma in_held: "a \<in> set (held s) \<longleftrightarrow> (a, Held) \<in> set (locks s)"
  by (force simp: held_def)

section \<open>Exclusive ownership\<close>

text \<open>
  The contract of a pool whose resources are handed to one owner at a time: every step keeps
  ownership, hands out a resource that was not taken, or gives one back.
\<close>

locale exclusive_pool = inductive_invariant init step inv
  for init :: "'s \<Rightarrow> bool" and step :: "'s \<Rightarrow> 's \<Rightarrow> bool" and inv :: "'s \<Rightarrow> bool" +
  fixes owned :: "'s \<Rightarrow> 'a list"
    and taken :: "'s \<Rightarrow> 'a set"
  assumes none_owned: "init s \<Longrightarrow> owned s = [] \<and> taken s = {}"
    and transfer: "inv s \<Longrightarrow> step s t \<Longrightarrow> distinct (owned s) \<Longrightarrow> set (owned s) = taken s \<Longrightarrow>
      mset (owned t) = mset (owned s) \<and> taken t = taken s
      \<or> (\<exists>a. a \<notin> taken s \<and> mset (owned t) = add_mset a (mset (owned s)) \<and> taken t = insert a (taken s))
      \<or> (\<exists>a. a \<in> taken s \<and> mset (owned t) = mset (owned s) - {#a#} \<and> taken t = taken s - {a})"
begin

lemma owned_exactly_taken:
  "reach init step s \<Longrightarrow> distinct (owned s) \<and> set (owned s) = taken s"
proof (induction rule: reach.induct)
  case (reach_init s)
  then show ?case using none_owned by auto
next
  case (reach_step s t)
  have "mset_set (taken s) = mset (owned s)"
    using reach_step.IH by (metis mset_set_set)
  from transfer [OF reachable_inv [OF reach_step.hyps(1)] reach_step.hyps(2)] reach_step.IH
  consider "mset (owned t) = mset (owned s)" "taken t = taken s"
    | a where "a \<notin> taken s" "mset (owned t) = mset (a # owned s)" "taken t = insert a (taken s)"
    | a where "mset (owned t) = mset (remove1 a (owned s))" "taken t = taken s - {a}"
    by auto
  then show ?case
  proof cases
    case 1
    with reach_step.IH show ?thesis by (metis mset_eq_setD mset_eq_imp_distinct_iff)
  next
    case 2
    from 2(2) have "set (owned t) = set (a # owned s)" "distinct (owned t) = distinct (a # owned s)"
      by (rule mset_eq_setD, rule mset_eq_imp_distinct_iff)
    with 2 reach_step.IH show ?thesis by simp
  next
    case 3
    from 3(1) have "set (owned t) = set (remove1 a (owned s))"
        "distinct (owned t) = distinct (remove1 a (owned s))"
      by (rule mset_eq_setD, rule mset_eq_imp_distinct_iff)
    with 3 reach_step.IH show ?thesis by (simp add: set_remove1_eq)
  qed
qed

end

definition pool_ok :: "pool \<Rightarrow> bool" where
  "pool_ok s \<longleftrightarrow> provider_ok (prov s) \<and> fst ` set (locks s) \<subseteq> dom (heap (prov s)) \<and>
     busy_set s \<subseteq> set (buffers (prov s))"

lemma isBusy_create [simp]: "\<not> isBusy (BufferProvider_create m n) a"
  by (simp add: isBusy_def BufferProvider_create_def)

lemma pool_ok_start: "pool_start s \<Longrightarrow> pool_ok s"
  by (auto simp: pool_start_def pool_ok_def provider_ok_create busy_set_def isBusy_create)

lemma dom_heap_get: "BufferProvider_get p = (r, q) \<Longrightarrow> dom (heap p) \<subseteq> dom (heap q)"
  by (erule get_cases) auto

lemma get_allocated:
  "provider_ok p \<Longrightarrow> BufferProvider_get p = (Some (Some a), q) \<Longrightarrow> a \<in> dom (heap q)"
  by (erule get_cases) (auto dest: provider_okD(3))

lemma get_pooled: "BufferProvider_get p = (r, q) \<Longrightarrow>
  set (buffers p) \<subseteq> set (buffers q) \<and> (\<forall>a. r = Some (Some a) \<longrightarrow> a \<in> set (buffers q))"
  by (erule get_cases) auto

lemma heap_reset [simp]: "heap (BufferProvider_reset p) = heap p"
  by (simp add: BufferProvider_reset_def)

lemma isBusy_reset [simp]: "isBusy (BufferProvider_reset p) a = isBusy p a"
  by (simp add: isBusy_def)

lemma busy_kept_reset: "set (buffers (BufferProvider_reset p)) = {a \<in> set (buffers p). isBusy p a}"
  by (simp add: BufferProvider_reset_def)

lemma maxBuffersCount_reset [simp]:
  "maxBuffersCount (BufferProvider_reset p) = maxBuffersCount p"
  by (simp add: BufferProvider_reset_def)

lemma pool_ok_modify:
  assumes "pool_ok s" and "\<And>b. well_sized b \<Longrightarrow> well_sized (f b)"
    and "\<And>b. Buffer_isBusy (f b) \<Longrightarrow> Buffer_isBusy b"
    and "fst ` set ls \<subseteq> fst ` set (locks s)"
  shows "pool_ok (s\<lparr>prov := modify a f (prov s), locks := ls\<rparr>)"
proof -
  have "isBusy (prov s) x" if "isBusy (modify a f (prov s)) x" for x
    using that assms(3) by (auto simp: isBusy_def heap_modify split: option.splits if_splits)
  with assms subset_trans [OF assms(4)] show ?thesis
    by (auto simp: pool_ok_def provider_ok_modify busy_set_def)
qed

lemma fst_remove1: "(a, ph) \<in> set ls \<Longrightarrow> fst ` set ((a, ph') # remove1 (a, ph) ls) \<subseteq> fst ` set ls"
  using set_remove1_subset [of "(a, ph)" ls] by (force intro: rev_image_eqI)

lemma pool_ok_exec: "pool_ok s \<Longrightarrow> pool_exec s e = Some t \<Longrightarrow> pool_ok t"
proof (cases e)
  case Acquire
  assume ok: "pool_ok s" and ex: "pool_exec s e = Some t"
  obtain r q where g: "BufferProvider_get (prov s) = (r, q)" by fastforce
  from ok have okp: "provider_ok (prov s)" "fst ` set (locks s) \<subseteq> dom (heap (prov s))"
    by (simp_all add: pool_ok_def)
  have q: "provider_ok q" "fst ` set (locks s) \<subseteq> dom (heap q)"
    by (rule provider_ok_get [OF okp(1) g], rule subset_trans [OF okp(2) dom_heap_get [OF g]])
  have al: "a \<in> dom (heap q)" if "r = Some (Some a)" for a
    using ok g that get_allocated [of "prov s" a q] by (simp add: pool_ok_def)
  have "t = (case r of Some (Some a) \<Rightarrow> s\<lparr>prov := q, locks := (a, Held) # locks s\<rparr>
      | _ \<Rightarrow> s\<lparr>prov := q\<rparr>)"
    using ex g Acquire by simp
  moreover have "{x. isBusy q x} \<subseteq> set (buffers q)"
    using ok get_pooled [OF g] by (auto simp: pool_ok_def busy_set_def isBusy_get [OF _ g])
  ultimately show ?thesis using q al by (simp add: pool_ok_def busy_set_def split: option.splits)
next
  case (EndRelease a)
  assume "pool_ok s" and "pool_exec s e = Some t"
  with EndRelease pool_ok_modify [of s Buffer_reset "remove1 (a, Freed) (locks s)" a]
    image_mono [OF set_remove1_subset, of fst "(a, Freed)" "locks s"]
  show ?thesis by (simp add: lock_defs split: if_splits)
next
  case (BeginRelease a)
  assume "pool_ok s" and "pool_exec s e = Some t"
  with BeginRelease fst_remove1 [of a Held "locks s" Freed]
    pool_ok_modify [of s Buffer_free "(a, Freed) # remove1 (a, Held) (locks s)" a]
  show ?thesis by (simp add: lock_defs split: if_splits)
next
  case ResetProvider
  assume "pool_ok s" and "pool_exec s e = Some t"
  with ResetProvider have t: "t = s\<lparr>prov := BufferProvider_reset (prov s)\<rparr>" by simp
  from \<open>pool_ok s\<close> show ?thesis
    unfolding t pool_ok_def busy_set_def using busy_kept_reset [of "prov s"]
    by (simp add: provider_ok_reset subset_iff)
next
  case (LockResize a n)
  assume "pool_ok s" and "pool_exec s e = Some t"
  with LockResize pool_ok_modify [of s "Buffer_resize n" "locks s" a] show ?thesis
    by (auto simp: lock_defs split: if_splits)
next
  case (LockWrite a bs)
  assume "pool_ok s" and "pool_exec s e = Some t"
  with LockWrite pool_ok_modify [of s "Buffer_write bs" "locks s" a] show ?thesis
    by (auto split: if_splits)
qed

interpretation pool: inductive_invariant pool_start pool_step pool_ok
  by unfold_locales (auto simp: pool_step_def intro: pool_ok_start pool_ok_exec)

lemma busy_set_modify:
  "(\<And>b. Buffer_isBusy (f b) = Buffer_isBusy b) \<Longrightarrow>
     busy_set (s\<lparr>prov := modify a f (prov s), locks := ls\<rparr>) = busy_set s"
  by (auto simp: busy_set_def isBusy_def heap_modify split: option.splits if_splits)

lemma busy_set_free:
  "busy_set (s\<lparr>prov := modify a Buffer_free (prov s), locks := ls\<rparr>) = busy_set s - {a}"
  by (auto simp: busy_set_def isBusy_def heap_modify split: option.splits if_splits)

lemma pool_transfer:
  assumes "pool_ok s" "pool_exec s e = Some t" "set (held s) = busy_set s"
  shows "mset (held t) = mset (held s) \<and> busy_set t = busy_set s
    \<or> (\<exists>a. a \<notin> busy_set s \<and> mset (held t) = add_mset a (mset (held s)) \<and> busy_set t = insert a (busy_set s))
    \<or> (\<exists>a. a \<in> busy_set s \<and> mset (held t) = mset (held s) - {#a#} \<and> busy_set t = busy_set s - {a})"
proof (cases e)
  case Acquire
  obtain r q where g: "BufferProvider_get (prov s) = (r, q)" by fastforce
  from assms(1) have ok: "provider_ok (prov s)" by (simp add: pool_ok_def)
  note busy = isBusy_get [OF ok g]
  have nb: "\<not> isBusy (prov s) a" if "r = Some (Some a)" for a
    using g that next_addr_not_busy [OF ok] by (cases rule: get_cases) auto
  have "r = None \<or> (\<exists>a. r = Some (Some a))" using g by (cases rule: get_cases) auto
  with assms(2) g Acquire busy nb show ?thesis
    by (auto simp: held_def busy_set_def)
next
  case (BeginRelease a)
  with assms(2,3) mset_held_remove [of a "locks s"] have "a \<in> busy_set s"
    "mset (held t) = mset (held s) - {#a#}" "busy_set t = busy_set s - {a}"
    by (auto simp: lock_defs busy_set_free held_def in_held [symmetric] split: if_splits)
  then show ?thesis by blast
next
  case (EndRelease a)
  with assms(2) show ?thesis
    by (auto simp: lock_defs busy_set_modify held_def held_remove_Freed split: if_splits)
next
  case (LockResize a n)
  with assms(2) busy_set_modify [where f = "Buffer_resize n" and s = s and a = a and ls = "locks s"] show ?thesis
    by (auto simp: lock_defs held_def split: if_splits)
next
  case (LockWrite a bs)
  with assms(2) busy_set_modify [where f = "Buffer_write bs" and s = s and a = a and ls = "locks s"] show ?thesis
    by (auto simp: held_def split: if_splits)
next
  case ResetProvider
  with assms(2) have "held t = held s" "busy_set t = busy_set s"
    by (auto simp: held_def busy_set_def isBusy_def BufferProvider_reset_def)
  then show ?thesis by simp
qed

interpretation pool_locks: exclusive_pool pool_start pool_step pool_ok held busy_set
proof unfold_locales
  fix s assume "pool_start s"
  then show "held s = [] \<and> busy_set s = {}"
    by (auto simp: pool_start_def held_def busy_set_def isBusy_def BufferProvider_create_def)
next
  fix s t assume "pool_ok s" "pool_step s t" "set (held s) = busy_set s"
  then show "mset (held t) = mset (held s) \<and> busy_set t = busy_set s
    \<or> (\<exists>a. a \<notin> busy_set s \<and> mset (held t) = add_mset a (mset (held s)) \<and> busy_set t = insert a (busy_set s))
    \<or> (\<exists>a. a \<in> busy_set s \<and> mset (held t) = mset (held s) - {#a#} \<and> busy_set t = busy_set s - {a})"
    unfolding pool_step_def using pool_transfer by blast
qed

section \<open>Properties\<close>

abbreviation pool_reachable :: "pool \<Rightarrow> bool" where
  "pool_reachable \<equiv> reach pool_start pool_step"

lemma reach_run:
  assumes "run pool_exec s es = Some t" "pool_reachable s"
  shows "pool_reachable t"
  using assms by (rule run_invariant) (auto simp: pool_step_def intro: reach.reach_step)

lemma pool_reachable_run:
  "run pool_exec \<lparr>prov = BufferProvider_create m n, locks = []\<rparr> es = Some t \<Longrightarrow> pool_reachable t"
  by (erule reach_run, rule reach.reach_init) (auto simp: pool_start_def)

lemmas pool_eval = BufferProvider_create_def BufferProvider_get_def new_buffer_def modify_def
  isBusy_def lock_defs buffer_defs BufferProvider_reset_def erase_if_def held_def Let_def

lemma pool_ownership:
  "pool_reachable s \<Longrightarrow> distinct (held s) \<and> (\<forall>a. isBusy (prov s) a \<longleftrightarrow> a \<in> set (held s))"
  using pool_locks.owned_exactly_taken [of s] by (auto simp: busy_set_def)

text \<open>C23. In every state the pool can reach, under every interleaving of \<open>get\<close>, \<open>reset\<close> and the
  two steps of lock destructors, no two live locks hold the same buffer, and the buffers marked
  busy are exactly the held ones.\<close>

theorem pool_exclusive_ownership:
  "pool_reachable s \<Longrightarrow> distinct (held s) \<and> (\<forall>a. isBusy (prov s) a \<longleftrightarrow> a \<in> set (held s))"
  by (rule pool_ownership)

theorem pool_exclusive_ownership_witness:
  "\<exists>s. pool_reachable s \<and> held s = [1, 0] \<and> distinct (held s)"
proof -
  let ?r = "run pool_exec \<lparr>prov = BufferProvider_create 8 2, locks = []\<rparr> [Acquire, Acquire]"
  obtain s where s: "?r = Some s" "held s = [1, 0]" by (simp add: pool_eval)
  with pool_reachable_run pool_exclusive_ownership [of s] show ?thesis by blast
qed

text \<open>\<open>get\<close> returns a null pointer exactly when as many locks are held as the pool may have
  buffers; in particular it succeeds as long as fewer are held.\<close>

lemma get_null_iff_exhausted:
  assumes "pool_reachable s"
  shows "fst (BufferProvider_get (prov s)) = None \<longleftrightarrow> length (held s) = maxBuffersCount (prov s)"
proof -
  from pool.reachable_inv [OF assms] have ok: "provider_ok (prov s)"
    and pooled: "busy_set s \<subseteq> set (buffers (prov s))" by (auto simp: pool_ok_def)
  from pool_locks.owned_exactly_taken [OF assms]
  have own: "distinct (held s)" "set (held s) = busy_set s" by auto
  note lens = provider_okD(1,2) [OF ok]
  obtain r q where g: "BufferProvider_get (prov s) = (r, q)" by fastforce
  have card: "card (busy_set s) = length (held s)" using own distinct_card by metis
  from g show ?thesis
  proof (cases rule: get_cases)
    case refuse
    then have "busy_set s = set (buffers (prov s))" using pooled by (auto simp: busy_set_def)
    with refuse g card lens show ?thesis by (simp add: distinct_card)
  next
    case (recycle a)
    then have "busy_set s \<subset> set (buffers (prov s))" using pooled by (auto simp: busy_set_def)
    then have "card (busy_set s) < length (buffers (prov s))"
      using lens(2) by (metis distinct_card finite_set psubset_card_mono)
    with recycle g card lens show ?thesis by simp
  next
    case create
    have "card (busy_set s) \<le> length (buffers (prov s))"
      using pooled lens(2) by (metis card_mono distinct_card finite_set)
    with create g card show ?thesis by simp
  qed
qed

lemma get_null_iff_exhausted_witness:
  "\<exists>s. pool_reachable s \<and> length (held s) = 1 \<and> maxBuffersCount (prov s) = 1 \<and>
     fst (BufferProvider_get (prov s)) = None"
proof -
  let ?r = "run pool_exec \<lparr>prov = BufferProvider_create 8 1, locks = []\<rparr> [Acquire]"
  obtain s where s: "?r = Some s" "length (held s) = 1" "maxBuffersCount (prov s) = 1"
    by (simp add: pool_eval)
  with pool_reachable_run get_null_iff_exhausted [of s] show ?thesis by metis
qed

text \<open>What a successful \<open>get\<close> hands out: a buffer nobody held, now busy, and every other
  buffer unchanged.  A buffer created for the call has the pool's maximal size; a recycled one
  keeps the size its last destructor left.\<close>

lemma get_hands_out_free_buffer:
  assumes "provider_ok p" and "BufferProvider_get p = (Some l, q)"
  shows "\<exists>a. l = Some a \<and> \<not> isBusy p a \<and> isBusy q a \<and> a \<in> set (buffers q) \<and>
    (\<forall>x. x \<noteq> a \<longrightarrow> heap q x = heap p x) \<and>
    BufferLock_size l q = (if a \<in> set (buffers p) then BufferLock_size l p else maxBufferSize p)"
  using assms(2)
proof (cases rule: get_cases)
  case (recycle a)
  with assms(1) obtain b where "heap p a = Some b" by (auto dest: provider_okD(3))
  with recycle show ?thesis
    by (auto simp: isBusy_modify heap_modify BufferLock_size_def)
next
  case create
  with next_addr_not_busy [OF assms(1)] next_addr_not_pooled [OF assms(1)] show ?thesis
    by (auto simp: isBusy_def BufferLock_size_def)
qed simp

lemma get_hands_out_free_buffer_witness:
  "provider_ok (BufferProvider_create 8 2) \<and>
   (\<exists>q. BufferProvider_get (BufferProvider_create 8 2) = (Some (Some 0), q) \<and>
      isBusy q 0 \<and> BufferLock_size (Some 0) q = 8)"
proof -
  obtain q where q: "BufferProvider_get (BufferProvider_create 8 2) = (Some (Some 0), q)"
    by (simp add: pool_eval)
  have "maxBufferSize (BufferProvider_create 8 2) = 8" "buffers (BufferProvider_create 8 2) = []"
    by (simp_all add: BufferProvider_create_def)
  with get_hands_out_free_buffer [OF provider_ok_create q] q provider_ok_create show ?thesis
    by auto
qed

text \<open>The buffer whose holder performs the event.\<close>

fun acts_on :: "pool_event \<Rightarrow> addr option" where
  "acts_on Acquire = None"
| "acts_on (LockResize a _) = Some a"
| "acts_on (LockWrite a _) = Some a"
| "acts_on (BeginRelease a) = Some a"
| "acts_on (EndRelease _) = None"
| "acts_on ResetProvider = None"

text \<open>C24. Isolation: while no destructor is suspended between \<open>free()\<close> and \<open>reset()\<close> on a held
  buffer, no operation by anybody but its holder changes that buffer or takes it away.\<close>

theorem held_buffer_isolated:
  assumes "pool_reachable s" "(a, Held) \<in> set (locks s)" "(a, Freed) \<notin> set (locks s)"
    and "pool_exec s e = Some t" "acts_on e \<noteq> Some a"
  shows "heap (prov t) a = heap (prov s) a \<and> (a, Held) \<in> set (locks t)"
proof (cases e)
  case Acquire
  obtain r q where g: "BufferProvider_get (prov s) = (r, q)" by fastforce
  from pool_ownership [OF assms(1)] assms(2) have busy: "isBusy (prov s) a"
    by (simp add: in_held)
  have ok: "provider_ok (prov s)"
    using pool.reachable_inv [OF assms(1)] by (simp add: pool_ok_def)
  have "heap q a = heap (prov s) a"
    using g busy next_addr_not_busy [OF ok] by (cases rule: get_cases) (auto simp: heap_modify)
  with assms Acquire g show ?thesis by (auto split: option.splits)
next
  case (EndRelease x)
  with assms show ?thesis
    by (auto simp: lock_defs heap_modify in_set_remove1 split: if_splits)
qed (use assms in \<open>auto simp: lock_defs heap_modify in_set_remove1 split: if_splits\<close>)

theorem held_buffer_isolated_witness:
  "\<exists>s t. pool_reachable s \<and> pool_exec s (BeginRelease 1) = Some t \<and>
     heap (prov t) 0 = heap (prov s) 0 \<and> (0, Held) \<in> set (locks t)"
proof -
  let ?r = "run pool_exec \<lparr>prov = BufferProvider_create 8 2, locks = []\<rparr> [Acquire, Acquire]"
  obtain s t where s: "?r = Some s" "(0, Held) \<in> set (locks s)" "(0, Freed) \<notin> set (locks s)"
    "pool_exec s (BeginRelease 1) = Some t" by (simp add: pool_eval)
  have "acts_on (BeginRelease 1) \<noteq> Some 0" by simp
  from held_buffer_isolated [OF pool_reachable_run [OF s(1)] s(2,3,4) this]
    pool_reachable_run [OF s(1)] s(4) show ?thesis by blast
qed

text \<open>The destructor of a lock on the only free buffer suspended between its statements: \<open>get\<close> hands
  the buffer to another client.\<close>

lemma suspended_destructor_recycled:
  assumes "pool_reachable s" "(a, Held) \<in> set (locks s)"
    and "\<forall>x\<in>set (buffers (prov s)). x \<noteq> a \<longrightarrow> isBusy (prov s) x"
  obtains t where "run pool_exec s [BeginRelease a, Acquire, LockResize a n] = Some t"
    "(a, Held) \<in> set (locks t)" "(a, Freed) \<in> set (locks t)" "BufferLock_size (Some a) (prov t) = n"
proof -
  let ?p = "BufferLock_dtor_free (Some a) (prov s)"
  have ok: "pool_ok s" by (rule pool.reachable_inv [OF assms(1)])
  have "isBusy (prov s) a" using pool_ownership [OF assms(1)] assms(2) by (simp add: in_held)
  with ok have a: "a \<in> set (buffers (prov s))" by (auto simp: pool_ok_def busy_set_def)
  with ok obtain b where b: "heap (prov s) a = Some b" using provider_okD(3) [of "prov s"] by (auto simp: pool_ok_def)
  have busy: "isBusy ?p x \<longleftrightarrow> x \<noteq> a \<and> isBusy (prov s) x" for x
    using b by (auto simp: lock_defs isBusy_def heap_modify buffer_defs)
  have "find_if_not (isBusy ?p) (buffers ?p) \<noteq> None" using a busy by (auto simp: lock_defs)
  then obtain x where x: "find_if_not (isBusy ?p) (buffers ?p) = Some x" by blast
  with find_if_not_SomeD [OF x] busy assms(3) have "x = a" by (auto simp: lock_defs)
  with get_recycles [OF x] have "BufferProvider_get ?p = (Some (Some a), modify a Buffer_take ?p)" by simp
  with assms(2) b that show thesis
    by (auto simp: lock_defs heap_modify buffer_defs Let_def)
qed

text \<open>C40. The order \<open>free(); reset();\<close> of the destructor is a race.  Whenever the destructor of a lock
  is suspended between the two on a buffer that another client holds by then, its second statement
  takes the size of the buffer from that client, whatever the client gave it, and the client goes on
  holding it.  This can happen to every lock whose buffer is, after \<open>free()\<close>, the only free one of the
  pool: the next \<open>get\<close> hands it out, and the size \<open>n\<close> its new holder asks for is lost.\<close>

theorem destructor_resets_new_holder:
  assumes "pool_reachable s" "(a, Held) \<in> set (locks s)"
  shows "((a, Freed) \<in> set (locks s) \<longrightarrow>
      (\<exists>t. pool_exec s (EndRelease a) = Some t \<and> held t = held s \<and> isBusy (prov t) a \<and>
        BufferLock_size (Some a) (prov t) = 0)) \<and>
    ((\<forall>x\<in>set (buffers (prov s)). x \<noteq> a \<longrightarrow> isBusy (prov s) x) \<longrightarrow>
      (\<exists>t u. run pool_exec s [BeginRelease a, Acquire, LockResize a n] = Some t \<and>
        (a, Held) \<in> set (locks t) \<and> BufferLock_size (Some a) (prov t) = n \<and>
        pool_exec t (EndRelease a) = Some u \<and> held u = held t \<and> isBusy (prov u) a \<and>
        BufferLock_size (Some a) (prov u) = 0))"
proof -
  have late: "\<exists>t. pool_exec s (EndRelease a) = Some t \<and> held t = held s \<and> isBusy (prov t) a \<and>
      BufferLock_size (Some a) (prov t) = 0"
    if st: "pool_reachable s" "(a, Held) \<in> set (locks s)" "(a, Freed) \<in> set (locks s)" for s
  proof -
    obtain t where t: "pool_exec s (EndRelease a) = Some t" using st(3) by simp
    with st(3) have h: "held t = held s" by (auto simp: held_def held_remove_Freed)
    have "isBusy (prov t) a"
      using pool_ownership [of t] reach.reach_step [OF st(1), of t] t st(2) h
      by (metis in_held pool_step_def)
    moreover from this t st(3) have "BufferLock_size (Some a) (prov t) = 0"
      by (auto simp: lock_defs heap_modify isBusy_def buffer_defs split: option.splits if_splits)
    ultimately show ?thesis using t h by blast
  qed
  show ?thesis
  proof (intro conjI impI)
    assume "\<forall>x\<in>set (buffers (prov s)). x \<noteq> a \<longrightarrow> isBusy (prov s) x"
    from suspended_destructor_recycled [OF assms this, of n] obtain t
      where t: "run pool_exec s [BeginRelease a, Acquire, LockResize a n] = Some t"
        "(a, Held) \<in> set (locks t)" "(a, Freed) \<in> set (locks t)" "BufferLock_size (Some a) (prov t) = n" .
    with late [OF reach_run [OF t(1) assms(1)]] show "\<exists>t u. run pool_exec s [BeginRelease a, Acquire, LockResize a n] = Some t \<and>
        (a, Held) \<in> set (locks t) \<and> BufferLock_size (Some a) (prov t) = n \<and>
        pool_exec t (EndRelease a) = Some u \<and> held u = held t \<and> isBusy (prov u) a \<and>
        BufferLock_size (Some a) (prov u) = 0" by blast
  qed (rule late [OF assms])
qed

theorem destructor_resets_new_holder_witness:
  "\<exists>s t u. run pool_exec \<lparr>prov = BufferProvider_create 8 2, locks = []\<rparr> [Acquire, Acquire] = Some s \<and>
     run pool_exec s [BeginRelease 0, Acquire, LockResize 0 4] = Some t \<and>
     BufferLock_size (Some 0) (prov t) = 4 \<and>
     pool_exec t (EndRelease 0) = Some u \<and> isBusy (prov u) 0 \<and> BufferLock_size (Some 0) (prov u) = 0"
proof -
  let ?r = "run pool_exec \<lparr>prov = BufferProvider_create 8 2, locks = []\<rparr> [Acquire, Acquire]"
  obtain s where s: "?r = Some s" "(0, Held) \<in> set (locks s)"
    "\<forall>x\<in>set (buffers (prov s)). x \<noteq> 0 \<longrightarrow> isBusy (prov s) x" by (simp add: pool_eval)
  from destructor_resets_new_holder [OF pool_reachable_run [OF s(1)] s(2), of 4] s(3)
  show ?thesis using s(1) by blast
qed

text \<open>Recycling: when the destructed lock's buffer is the only free one, the next \<open>get\<close> hands
  out the same buffer without growing the pool; its size is 0 (not the pool's buffer size), and
  resizing it makes the bytes of the previous holder visible again.\<close>

lemma recycled_buffer_keeps_bytes:
  assumes "a \<in> set (buffers p)" "heap p a = Some b" "\<forall>x\<in>set (buffers p). x \<noteq> a \<longrightarrow> isBusy p x"
    and "n \<le> length (buf_data b)"
    and "BufferProvider_get (BufferLock_destroy (Some a) p) = (r, q)"
  shows "r = Some (Some a) \<and> buffers q = buffers p \<and> BufferLock_size (Some a) q = 0 \<and>
    map_option Buffer_view (heap (BufferLock_resize (Some a) n q) a) = Some (take n (buf_data b))"
proof -
  let ?p = "BufferLock_destroy (Some a) p"
  have h: "heap ?p a = Some (Buffer_reset (Buffer_free b))" and bs: "buffers ?p = buffers p"
    using assms(2) by (simp_all add: lock_defs heap_modify)
  have busy: "isBusy ?p x \<longleftrightarrow> x \<noteq> a \<and> isBusy p x" for x
    by (auto simp: lock_defs isBusy_def heap_modify split: option.splits)
  have "find_if_not (isBusy ?p) (buffers ?p) \<noteq> None" using assms(1) bs busy by auto
  then obtain x where x: "find_if_not (isBusy ?p) (buffers ?p) = Some x" by blast
  with find_if_not_SomeD [OF x] busy assms(3) bs have "x = a" by auto
  with get_recycles [OF x] assms(5) h bs show ?thesis
    using assms(4) Buffer_view_resize_reset [of n "Buffer_take (Buffer_free b)"]
    by (auto simp: lock_defs heap_modify buffer_defs Let_def vector_resize_def)
qed

lemma recycled_buffer_keeps_bytes_witness:
  "\<exists>p q. heap p 0 = Some \<lparr>buf_data = [7, 9], buf_size = 2, buf_busy = True\<rparr> \<and>
     BufferProvider_get (BufferLock_destroy (Some 0) p) = (Some (Some 0), q) \<and>
     map_option Buffer_view (heap (BufferLock_resize (Some 0) 2 q) 0) = Some [7, 9]"
proof -
  let ?b = "\<lparr>buf_data = [7, 9], buf_size = 2, buf_busy = True\<rparr>"
  let ?p = "\<lparr>heap = [0 \<mapsto> ?b], next_addr = 1, buffers = [0], maxBufferSize = 2, maxBuffersCount = 1\<rparr>"
  obtain r q where g: "BufferProvider_get (BufferLock_destroy (Some 0) ?p) = (r, q)" by fastforce
  from recycled_buffer_keeps_bytes [OF _ _ _ _ g, of ?b 2] g show ?thesis
    by (intro exI [of _ ?p] exI [of _ q]) simp
qed

text \<open>When every lock has been destroyed, \<open>reset\<close> gives all memory back: the pool is empty and
  \<open>get\<close> succeeds again on any pool that may have a buffer at all.\<close>

lemma reset_empties_idle_pool:
  assumes "pool_reachable s" "locks s = []"
  shows "buffers (BufferProvider_reset (prov s)) = [] \<and>
    (0 < maxBuffersCount (prov s) \<longrightarrow> fst (BufferProvider_get (BufferProvider_reset (prov s))) \<noteq> None)"
proof -
  have "\<not> isBusy (prov s) a" for a
    using pool_ownership [OF assms(1)] assms(2) by (simp add: held_def)
  then have e: "buffers (BufferProvider_reset (prov s)) = []"
    by (simp add: BufferProvider_reset_def erase_if_def)
  with get_creates [of "BufferProvider_reset (prov s)"] show ?thesis by simp
qed

lemma reset_empties_idle_pool_witness:
  "\<exists>s. pool_reachable s \<and> locks s = [] \<and> length (buffers (prov s)) = 1 \<and>
     buffers (BufferProvider_reset (prov s)) = []"
proof -
  let ?r = "run pool_exec \<lparr>prov = BufferProvider_create 8 1, locks = []\<rparr> [Acquire, BeginRelease 0, EndRelease 0]"
  obtain s where s: "?r = Some s" "locks s = []" "length (buffers (prov s)) = 1"
    by (simp add: pool_eval)
  with reset_empties_idle_pool [OF pool_reachable_run [OF s(1)] s(2)] pool_reachable_run
  show ?thesis by blast
qed

end
