(* ===== verification/Messages.thy ===== *)
theory Messages
  imports Buffers
begin

text \<open>
  \<open>src/utils/Net\<close>: \<open>include/MessageTypes.hpp\<close>, \<open>include/Message.hpp\<close>, \<open>src/Message.cpp\<close>
  and \<open>src/MetaMessage.cpp\<close>.  A message is a packed header and a payload buffer.  The
  structures are packed and sent as they lie in memory, so the wire format is the 12 bytes of the
  header in the byte order of the host (the code converts nothing): the byte order is a parameter.
  The locale \<open>fixed_codec\<close> is the contract of a fixed-width encoding; it is interpreted on the
  two integer fields and on the whole header.
\<close>

section \<open>Bytes of machine integers\<close>

datatype byte_order = LittleEndian | BigEndian

fun nat_to_le :: "nat \<Rightarrow> nat \<Rightarrow> byte list" where
  "nat_to_le 0 x = []"
| "nat_to_le (Suc k) x = word_of_nat x # nat_to_le k (x div 256)"

fun le_to_nat :: "byte list \<Rightarrow> nat" where
  "le_to_nat [] = 0"
| "le_to_nat (b # bs) = unat b + 256 * le_to_nat bs"

definition in_order :: "byte_order \<Rightarrow> byte list \<Rightarrow> byte list" where
  "in_order bo bs = (case bo of LittleEndian \<Rightarrow> bs | BigEndian \<Rightarrow> rev bs)"

definition word_bytes :: "byte_order \<Rightarrow> nat \<Rightarrow> 'a::len word \<Rightarrow> byte list" where
  "word_bytes bo k w = in_order bo (nat_to_le k (unat w))"

definition bytes_word :: "byte_order \<Rightarrow> byte list \<Rightarrow> 'a::len word" where
  "bytes_word bo bs = word_of_nat (le_to_nat (in_order bo bs))"

lemma nat_to_le_numeral [simp]:
  "nat_to_le (numeral k) x = word_of_nat x # nat_to_le (pred_numeral k) (x div 256)"
  by (simp only: numeral_eq_Suc [of k] nat_to_le.simps)

lemma length_nat_to_le [simp]: "length (nat_to_le k x) = k"
  by (induction k arbitrary: x) auto

lemma le_to_nat_bound: "le_to_nat bs < 256 ^ length bs"
proof (induction bs)
  case (Cons b bs)
  have "unat b < 256" using unat_bound [of b] by simp
  moreover from Cons have "256 * le_to_nat bs + 256 \<le> 256 * 256 ^ length bs" by simp
  ultimately show ?case by simp
qed simp

lemma le_to_nat_to_le: "x < 256 ^ k \<Longrightarrow> le_to_nat (nat_to_le k x) = x"
proof (induction k arbitrary: x)
  case (Suc k)
  have "le_to_nat (nat_to_le k (x div 256)) = x div 256"
    by (rule Suc.IH) (use Suc.prems in \<open>simp add: less_mult_imp_div_less mult.commute\<close>)
  then show ?case by (simp add: unat_of_nat)
qed simp

lemma nat_to_le_to_nat: "nat_to_le (length bs) (le_to_nat bs) = bs"
proof (induction bs)
  case (Cons b bs)
  have b: "unat b < 256" using unat_bound [of b] by simp
  have zero: "(256 :: byte) = 0" by simp
  have "(word_of_nat (unat b + 256 * le_to_nat bs) :: byte) = b + 256 * word_of_nat (le_to_nat bs)"
    by simp
  then have "(word_of_nat (unat b + 256 * le_to_nat bs) :: byte) = b"
    by (simp only: zero mult_zero_left add_0_right)
  moreover have "(unat b + 256 * le_to_nat bs) div 256 = le_to_nat bs" using b by simp
  ultimately show ?case using Cons by simp
qed simp

lemma in_order_invol [simp]: "in_order bo (in_order bo bs) = bs"
  by (cases bo) (simp_all add: in_order_def)

lemma length_in_order [simp]: "length (in_order bo bs) = length bs"
  by (cases bo) (simp_all add: in_order_def)

section \<open>Fixed-width codecs\<close>

locale fixed_codec =
  fixes enc :: "'a \<Rightarrow> 'b list"
    and dec :: "'b list \<Rightarrow> 'a"
    and width :: nat
  assumes enc_width: "length (enc x) = width"
    and dec_enc: "dec (enc x) = x"
    and enc_dec: "length bs = width \<Longrightarrow> enc (dec bs) = bs"
begin

lemma enc_inject: "enc x = enc y \<longleftrightarrow> x = y"
  by (metis dec_enc)

lemma take_enc: "take width (enc x @ rest) = enc x" and drop_enc: "drop width (enc x @ rest) = rest"
  by (simp_all add: enc_width)

lemma dec_prefix: "dec (take width (enc x @ rest)) = x"
  by (simp only: take_enc dec_enc)

lemma enc_unique_prefix: "enc x @ r = enc y @ r' \<Longrightarrow> x = y \<and> r = r'"
  by (metis append_eq_append_conv enc_inject enc_width)

end

lemma word_codec:
  assumes "LENGTH('a::len) = 8 * k"
  shows "fixed_codec (word_bytes bo k :: 'a word \<Rightarrow> byte list) (bytes_word bo) k"
proof
  have pow: "(256::nat) ^ k = 2 ^ LENGTH('a)"
    using assms by (simp add: power_mult)
  fix x :: "'a word"
  show "length (word_bytes bo k x) = k" by (simp add: word_bytes_def)
  have "unat x < 256 ^ k" using unat_bound [of x] pow by simp
  then show "bytes_word bo (word_bytes bo k x) = x"
    by (simp add: word_bytes_def bytes_word_def le_to_nat_to_le)
  fix bs :: "byte list" assume len: "length bs = k"
  have "le_to_nat (in_order bo bs) < 2 ^ LENGTH('a)"
    using le_to_nat_bound [of "in_order bo bs"] len pow by simp
  then have "unat (word_of_nat (le_to_nat (in_order bo bs)) :: 'a word) = le_to_nat (in_order bo bs)"
    by (simp add: unat_of_nat)
  then show "word_bytes bo k (bytes_word bo bs :: 'a word) = bs"
    using nat_to_le_to_nat [of "in_order bo bs"] len by (simp add: word_bytes_def bytes_word_def)
qed

interpretation u16: fixed_codec "word_bytes bo 2 :: u16 \<Rightarrow> byte list" "bytes_word bo" 2 for bo
  by (rule word_codec) simp

interpretation u32: fixed_codec "word_bytes bo 4 :: u32 \<Rightarrow> byte list" "bytes_word bo" 4 for bo
  by (rule word_codec) simp

section \<open>Message types and headers\<close>

datatype MessageType = Invalid | Data | Ping | Pong | Last

text \<open>The enumerators' values, and the value stored in the 16-bit field of the header.\<close>

fun MessageType_value :: "MessageType \<Rightarrow> nat" where
  "MessageType_value Invalid = 0"
| "MessageType_value Data = 1"
| "MessageType_value Ping = 2"
| "MessageType_value Pong = 3"
| "MessageType_value Last = 4"

definition type_code :: "MessageType \<Rightarrow> u16" where
  "type_code t = word_of_nat (MessageType_value t)"

record PayloadInfo =
  pi_crc :: u32
  pi_size :: u32
  pi_type :: u16

definition PayloadInfo_create :: "MessageType \<Rightarrow> PayloadInfo" where
  "PayloadInfo_create t = \<lparr>pi_crc = 0, pi_size = 0, pi_type = type_code t\<rparr>"

record Header =
  h_crc :: u16
  h_pInfo :: PayloadInfo

definition Header_create :: "MessageType \<Rightarrow> Header" where
  "Header_create t = \<lparr>h_crc = 0, h_pInfo = PayloadInfo_create t\<rparr>"

text \<open>\<open>sizeof(Header)\<close> under \<open>#pragma pack(1)\<close>: a \<open>uint16_t\<close>, two \<open>uint32_t\<close>, a
  \<open>uint16_t\<close>.  The bytes of a header are those of its fields in the order of declaration.\<close>

definition HeaderSize :: nat where
  "HeaderSize = 2 + (4 + 4 + 2)"

definition header_bytes :: "byte_order \<Rightarrow> Header \<Rightarrow> byte list" where
  "header_bytes bo h = word_bytes bo 2 (h_crc h) @ word_bytes bo 4 (pi_crc (h_pInfo h)) @
     word_bytes bo 4 (pi_size (h_pInfo h)) @ word_bytes bo 2 (pi_type (h_pInfo h))"

definition header_of_bytes :: "byte_order \<Rightarrow> byte list \<Rightarrow> Header" where
  "header_of_bytes bo bs = \<lparr>h_crc = bytes_word bo (take 2 bs), h_pInfo =
     \<lparr>pi_crc = bytes_word bo (take 4 (drop 2 bs)), pi_size = bytes_word bo (take 4 (drop 6 bs)),
      pi_type = bytes_word bo (take 2 (drop 10 bs))\<rparr>\<rparr>"

text \<open>\<open>async_read\<close> into the header writes the bytes received over the memory of the header.\<close>

definition receive_header :: "byte_order \<Rightarrow> byte list \<Rightarrow> Header \<Rightarrow> Header" where
  "receive_header bo bs h = header_of_bytes bo (overlay bs (header_bytes bo h))"

lemma length_header_bytes [simp]: "length (header_bytes bo h) = HeaderSize"
  by (simp add: header_bytes_def HeaderSize_def u16.enc_width u32.enc_width)

lemma header_of_header_bytes: "header_of_bytes bo (header_bytes bo h) = h"
proof -
  note t = u16.take_enc u16.drop_enc u32.take_enc u32.drop_enc u16.enc_width u32.enc_width
  have "drop 6 (header_bytes bo h) = drop 4 (drop 2 (header_bytes bo h))"
    and "drop 10 (header_bytes bo h) = drop 4 (drop 4 (drop 2 (header_bytes bo h)))" by simp_all
  then show ?thesis
    by (simp only: header_of_bytes_def header_bytes_def t u16.dec_enc u32.dec_enc)
      (simp add: u16.enc_width u16.dec_enc)
qed

lemma header_bytes_of_bytes:
  assumes "length bs = HeaderSize"
  shows "header_bytes bo (header_of_bytes bo bs) = bs"
proof -
  have "take 2 bs @ take 4 (drop 2 bs) @ take 4 (drop 6 bs) @ take 2 (drop 10 bs) = bs"
    using assms take_drop_chain [of 2 0 bs] take_drop_chain [of 4 2 bs] take_drop_chain [of 4 6 bs]
      take_drop_chain [of 2 10 bs] by (simp add: HeaderSize_def)
  with assms show ?thesis
    by (simp add: header_of_bytes_def header_bytes_def u16.enc_dec u32.enc_dec HeaderSize_def)
qed

interpretation header: fixed_codec "header_bytes bo" "header_of_bytes bo" HeaderSize for bo
  by unfold_locales (simp_all add: header_of_header_bytes header_bytes_of_bytes)

lemma receive_header_full: "length bs = HeaderSize \<Longrightarrow> receive_header bo bs h = header_of_bytes bo bs"
  by (simp add: receive_header_def overlay_full)

lemma receive_header_bytes: "receive_header bo (header_bytes bo h) h' = h"
  by (simp add: receive_header_full header.dec_enc)

section \<open>Message\<close>

text \<open>
  \<open>payload_\<close> is the buffer the message was made with; the code never changes a buffer it has
  handed to a message, so the message carries its value.  \<open>callback_\<close> is stored and never called;
  its field keeps the identity of the function (\<open>None\<close> for \<open>nullptr\<close>).
\<close>

record message =
  msg_header :: Header
  msg_payload :: buffer
  msg_callback :: "nat option"

definition countHeaderCRC :: "message \<Rightarrow> message" where
  "countHeaderCRC m = m\<lparr>msg_header := (msg_header m)\<lparr>h_crc := 0\<rparr>\<rparr>"

text \<open>\<open>header_.pInfo.size = payload_->size()\<close> assigns a \<open>size_t\<close> to a \<open>uint32_t\<close>: the value
  is taken modulo \<open>2 ^ 32\<close>.\<close>

definition countPayloadCRC :: "message \<Rightarrow> message" where
  "countPayloadCRC m = (let pi = h_pInfo (msg_header m);
     pi' = pi\<lparr>pi_size := word_of_nat (Buffer_size (msg_payload m)), pi_crc := 0\<rparr>
     in m\<lparr>msg_header := (msg_header m)\<lparr>h_pInfo := pi'\<rparr>\<rparr>)"

definition Message_create_callback :: "MessageType \<Rightarrow> buffer \<Rightarrow> nat option \<Rightarrow> message" where
  "Message_create_callback t payload callback = countPayloadCRC (countHeaderCRC
     \<lparr>msg_header = Header_create t, msg_payload = payload, msg_callback = callback\<rparr>)"

definition Message_create :: "MessageType \<Rightarrow> buffer \<Rightarrow> message" where
  "Message_create t payload = Message_create_callback t payload None"

definition Message_of_type :: "MessageType \<Rightarrow> message" where
  "Message_of_type t = Message_create_callback t Buffer_default None"

definition Message_default :: message where
  "Message_default = Message_of_type Invalid"

definition Message_type :: "message \<Rightarrow> u16" where
  "Message_type m = pi_type (h_pInfo (msg_header m))"

section \<open>MetaMessage\<close>

text \<open>A \<open>MetaMessage\<close> is a default-constructed \<open>Message\<close> whose header is read from the wire.\<close>

definition fitToSize :: "message \<Rightarrow> message" where
  "fitToSize m = m\<lparr>msg_payload :=
     Buffer_resize (unat (pi_size (h_pInfo (msg_header m)))) (msg_payload m)\<rparr>"

definition isEmpty :: "message \<Rightarrow> bool" where
  "isEmpty m = (pi_size (h_pInfo (msg_header m)) = 0)"

definition verifyHeader :: "message \<Rightarrow> bool" where
  "verifyHeader m = (let isCrcCorrect = (h_crc (msg_header m) = 0)
     in if isCrcCorrect then (let isPayloadInfoCorrect = True in isPayloadInfoCorrect) else False)"

definition verifyBody :: "message \<Rightarrow> bool" where
  "verifyBody m = (pi_crc (h_pInfo (msg_header m)) = 0)"

text \<open>The effect of the two reads on the message they read into.\<close>

definition read_into_header :: "byte_order \<Rightarrow> byte list \<Rightarrow> message \<Rightarrow> message" where
  "read_into_header bo bs m = m\<lparr>msg_header := receive_header bo bs (msg_header m)\<rparr>"

definition read_into_body :: "byte list \<Rightarrow> message \<Rightarrow> message" where
  "read_into_body bs m = m\<lparr>msg_payload := Buffer_write bs (msg_payload m)\<rparr>"

text \<open>What \<open>asyncWrite\<close> puts on the wire: the header, then \<open>size()\<close> bytes from \<open>data()\<close>.\<close>

definition frame_bytes :: "byte_order \<Rightarrow> message \<Rightarrow> byte list" where
  "frame_bytes bo m = header_bytes bo (msg_header m) @ Buffer_view (msg_payload m)"

lemmas message_defs = countHeaderCRC_def countPayloadCRC_def Message_create_callback_def
  Message_create_def Message_of_type_def Message_default_def Message_type_def
  PayloadInfo_create_def Header_create_def

section \<open>Lemmas\<close>

lemma MessageType_value_le: "MessageType_value t \<le> 4"
  by (cases t) simp_all

lemma unat_type_code [simp]: "unat (type_code t) = MessageType_value t"
  using MessageType_value_le [of t] by (simp add: type_code_def unat_of_nat)

lemma MessageType_value_inject [simp]: "MessageType_value t = MessageType_value t' \<longleftrightarrow> t = t'"
  by (cases t; cases t') simp_all

lemma type_code_inject [simp]: "type_code t = type_code t' \<longleftrightarrow> t = t'"
  by (metis MessageType_value_inject unat_type_code)

text \<open>The enumeration is ordered by its values, and the comparisons of the code, on the words of a
  header, are those of the enumerators.\<close>

instantiation MessageType :: linorder
begin

definition less_eq_MessageType :: "MessageType \<Rightarrow> MessageType \<Rightarrow> bool" where
  "less_eq_MessageType t t' \<longleftrightarrow> MessageType_value t \<le> MessageType_value t'"

definition less_MessageType :: "MessageType \<Rightarrow> MessageType \<Rightarrow> bool" where
  "less_MessageType t t' \<longleftrightarrow> MessageType_value t < MessageType_value t'"

instance
  by standard (auto simp: less_eq_MessageType_def less_MessageType_def)

end

lemma type_code_less: "type_code t < type_code t' \<longleftrightarrow> t < t'"
  by (simp add: word_less_nat_alt less_MessageType_def)

lemma valid_type:
  "type_code Invalid < w \<and> w < type_code Last \<longleftrightarrow> w = type_code Data \<or> w = type_code Ping \<or> w = type_code Pong"
proof
  assume "type_code Invalid < w \<and> w < type_code Last"
  then have "unat w = 1 \<or> unat w = 2 \<or> unat w = 3" by (simp add: word_less_nat_alt) arith
  then show "w = type_code Data \<or> w = type_code Ping \<or> w = type_code Pong" by (simp add: word_unat_eq_iff)
qed (auto simp: type_code_less less_MessageType_def)

lemma Message_create_sel [simp]:
  "Message_type (Message_create_callback t b c) = type_code t"
  "msg_payload (Message_create_callback t b c) = b"
  "msg_callback (Message_create_callback t b c) = c"
  "pi_size (h_pInfo (msg_header (Message_create_callback t b c))) = word_of_nat (Buffer_size b)"
  "pi_crc (h_pInfo (msg_header (Message_create_callback t b c))) = 0"
  "h_crc (msg_header (Message_create_callback t b c)) = 0"
  by (simp_all add: message_defs Let_def)

lemma Message_type_of_create [simp]:
  "Message_type (Message_create t b) = type_code t"
  "Message_type (Message_of_type t) = type_code t"
  "msg_payload (Message_create t b) = b"
  "msg_payload (Message_of_type t) = Buffer_default"
  by (simp_all add: Message_create_def Message_of_type_def)

text \<open>The messages the code builds: their header describes them.\<close>

definition described :: "message \<Rightarrow> bool" where
  "described m \<longleftrightarrow> h_crc (msg_header m) = 0 \<and> pi_crc (h_pInfo (msg_header m)) = 0 \<and>
     pi_size (h_pInfo (msg_header m)) = word_of_nat (Buffer_size (msg_payload m))"

lemma described_create [simp, intro]:
  "described (Message_create_callback t b c)" "described (Message_create t b)"
  "described (Message_of_type t)"
  by (simp_all add: described_def Message_create_def Message_of_type_def)

lemma verify_described: "described m \<Longrightarrow> verifyHeader m \<and> verifyBody m"
  by (simp add: described_def verifyHeader_def verifyBody_def)

end
