(* ===== verification/SessionModel.thy ===== *)
theory SessionModel
  imports Messages
begin

text \<open>
  \<open>src/utils/Net/src/Session.cpp\<close>, \<open>include/Session.hpp\<close> and \<open>include/SessionInterface.hpp\<close>:
  one connection.  Asio is not part of the repository, so it appears in the model only through
  what the session asks of it and what it is told: functions that the code posts to a strand are
  tasks in that strand's first-in-first-out queue; an asynchronous operation is an element of
  \<open>pendingOps\<close> until the environment completes it, with any error code and any bytes; every request
  made to the socket or the timer is appended to \<open>issued\<close>.  A handler given to \<open>configure\<close> is
  the list of the calls it makes, those to the rest of the program being recorded in \<open>extCalls\<close>; on
  its session it may call \<open>send\<close>, \<open>drop\<close> (or \<open>close\<close>) and \<open>cancelAllPendingOperations\<close>, none of which
  returns anything.  No handler of the repository reopens or reconfigures its session.
\<close>

section \<open>State\<close>

datatype handshake_type = ClientSide | ServerSide

datatype 'x call =
    CallSend buffer   \<comment> \<open>\<open>session->send(payload)\<close>\<close>
  | CallDrop          \<comment> \<open>\<open>session->drop()\<close>\<close>
  | CallCancel        \<comment> \<open>\<open>session->cancelAllPendingOperations()\<close>\<close>
  | CallExt 'x        \<comment> \<open>an effect outside the session\<close>

type_synonym 'x receive_handler = "buffer \<Rightarrow> 'x call list"

text \<open>Tasks of \<open>socketStrand_\<close>: the posted lambdas and functions, and the completion handlers
  bound to the strand by \<open>bind_executor\<close>.\<close>

datatype socket_task =
    RunAsyncHandshake handshake_type
  | RunCancel
  | RunClose
  | RunAsyncWrite message
  | OnHandshake error_code
  | OnReadHeader message error_code
  | OnReadBody message error_code
  | OnWrite message error_code

text \<open>Tasks of \<open>readTimerStrand_\<close>.\<close>

datatype timer_task = RunTouch | RunRestart | RunCancelTimer | RunTimeOut

datatype asio_op =
    OpHandshake handshake_type
  | OpReadHeader message
  | OpReadBody message
  | OpWrite message

datatype asio_request =
    SetNoDelay
  | AsyncHandshake handshake_type
  | AsyncReadHeader nat
  | AsyncReadBody nat
  | AsyncWrite message
  | SocketCancel
  | SocketShutdown
  | SocketClose
  | TimerExpires int
  | TimerWait
  | TimerCancel

record 'x session =
  isConnected :: bool
  openHandler :: "'x call list option"
  closeHandler :: "'x call list option"
  receiveHandler :: "'x receive_handler option"
  lastTimeRead :: int
  writeQueue :: "message list"
  socketStrand :: "socket_task list"
  readStrand :: "('x receive_handler \<times> buffer) list"
  readTimerStrand :: "timer_task list"
  pendingOps :: "asio_op list"
  timerWaits :: nat
  issued :: "asio_request list"
  extCalls :: "'x list"

definition PingTimeOut :: int where "PingTimeOut = 333"
definition MaxTimeOut :: int where "MaxTimeOut = PingTimeOut * 3"

definition Session_create :: "'x session" where
  "Session_create = \<lparr>isConnected = False, openHandler = None, closeHandler = None,
     receiveHandler = None, lastTimeRead = 0, writeQueue = [], socketStrand = [], readStrand = [],
     readTimerStrand = [], pendingOps = [], timerWaits = 0, issued = [], extCalls = []\<rparr>"

definition configure :: "'x call list option \<Rightarrow> 'x call list option \<Rightarrow> 'x receive_handler option
    \<Rightarrow> 'x session \<Rightarrow> 'x session" where
  "configure oh ch rh s = s\<lparr>openHandler := oh, closeHandler := ch, receiveHandler := rh\<rparr>"

text \<open>\<open>boost::asio::post\<close> on the three strands, and a request to the socket or the timer.\<close>

definition post_socket :: "socket_task \<Rightarrow> 'x session \<Rightarrow> 'x session" where
  "post_socket t s = s\<lparr>socketStrand := socketStrand s @ [t]\<rparr>"

definition post_read :: "'x receive_handler \<times> buffer \<Rightarrow> 'x session \<Rightarrow> 'x session" where
  "post_read t s = s\<lparr>readStrand := readStrand s @ [t]\<rparr>"

definition post_timer :: "timer_task \<Rightarrow> 'x session \<Rightarrow> 'x session" where
  "post_timer t s = s\<lparr>readTimerStrand := readTimerStrand s @ [t]\<rparr>"

definition issue :: "asio_request \<Rightarrow> 'x session \<Rightarrow> 'x session" where
  "issue r s = s\<lparr>issued := issued s @ [r]\<rparr>"

definition start_op :: "asio_op \<Rightarrow> 'x session \<Rightarrow> 'x session" where
  "start_op op s = s\<lparr>pendingOps := pendingOps s @ [op]\<rparr>"

section \<open>Opening and closing\<close>

definition cancelAllPendingOperations :: "'x session \<Rightarrow> 'x session" where
  "cancelAllPendingOperations s = post_socket RunCancel s"

definition restartReadTimer :: "'x session \<Rightarrow> 'x session" where
  "restartReadTimer s = post_timer RunRestart s"

definition cancelReadTimer :: "'x session \<Rightarrow> 'x session" where
  "cancelReadTimer s = post_timer RunCancelTimer s"

definition close :: "'x session \<Rightarrow> 'x session" where
  "close s = (let s1 = cancelReadTimer (cancelAllPendingOperations s)
     in if \<not> isConnected s1 then s1
        else post_socket RunClose (s1\<lparr>isConnected := False\<rparr>))"

definition drop_session :: "'x session \<Rightarrow> 'x session" where
  "drop_session s = close s"

text \<open>\<open>set_option\<close> is called without an error code, so a failure of it is an exception; \<open>opt\<close>
  is its outcome.\<close>

definition configureSocket :: "error_code \<Rightarrow> 'x session \<Rightarrow> asio_error + 'x session" where
  "configureSocket opt s = (case opt of Some e \<Rightarrow> Inl e | None \<Rightarrow> Inr (issue SetNoDelay s))"

definition open_session :: "handshake_type \<Rightarrow> error_code \<Rightarrow> 'x session \<Rightarrow> asio_error + 'x session" where
  "open_session handshakeType opt s =
    (if isConnected s then Inr s
     else case configureSocket opt s of
            Inl e \<Rightarrow> Inl e
          | Inr s1 \<Rightarrow> Inr (post_socket (RunAsyncHandshake handshakeType) (s1\<lparr>isConnected := True\<rparr>)))"

section \<open>Writing\<close>

definition writeNext :: "'x session \<Rightarrow> 'x session" where
  "writeNext s = (case writeQueue s of
      [] \<Rightarrow> s
    | currentMessage # _ \<Rightarrow> post_socket (RunAsyncWrite currentMessage) s)"

definition send_message :: "message \<Rightarrow> 'x session \<Rightarrow> 'x session" where
  "send_message m s =
    (let writeInProgress = (writeQueue s \<noteq> []);
         s1 = (if writeInProgress \<and> (Message_type m = type_code Ping \<or> Message_type m = type_code Pong)
               then s\<lparr>writeQueue := hd (writeQueue s) # m # tl (writeQueue s)\<rparr>
               else s\<lparr>writeQueue := writeQueue s @ [m]\<rparr>)
     in if \<not> writeInProgress then writeNext s1 else s1)"

definition send :: "buffer \<Rightarrow> 'x session \<Rightarrow> 'x session" where
  "send payload s = send_message (Message_create Data payload) s"

definition ping :: "'x session \<Rightarrow> 'x session" where
  "ping s = send_message (Message_of_type Ping) s"

definition pong :: "'x session \<Rightarrow> 'x session" where
  "pong s = send_message (Message_of_type Pong) s"

definition asyncWrite :: "message \<Rightarrow> 'x session \<Rightarrow> 'x session" where
  "asyncWrite m s = start_op (OpWrite m) (issue (AsyncWrite m) s)"

definition handleWrite :: "message \<Rightarrow> error_code \<Rightarrow> 'x session \<Rightarrow> 'x session" where
  "handleWrite m err s =
    (let s1 = (if writeQueue s \<noteq> [] then s\<lparr>writeQueue := tl (writeQueue s)\<rparr> else s)
     in if err = None then writeNext s1
        else if err \<noteq> Some OperationAborted then close s1
        else s1)"

text \<open>A handler runs the calls it makes, in order.\<close>

fun run_call :: "'x call \<Rightarrow> 'x session \<Rightarrow> 'x session" where
  "run_call (CallSend payload) s = send payload s"
| "run_call CallDrop s = drop_session s"
| "run_call CallCancel s = cancelAllPendingOperations s"
| "run_call (CallExt x) s = s\<lparr>extCalls := extCalls s @ [x]\<rparr>"

definition run_calls :: "'x call list \<Rightarrow> 'x session \<Rightarrow> 'x session" where
  "run_calls cs s = fold run_call cs s"

definition run_handler :: "'x call list option \<Rightarrow> 'x session \<Rightarrow> 'x session" where
  "run_handler h s = (case h of None \<Rightarrow> s | Some cs \<Rightarrow> run_calls cs s)"

text \<open>The lambda that \<open>close\<close> posts.\<close>

definition close_task :: "'x session \<Rightarrow> 'x session" where
  "close_task s = (let s1 = s\<lparr>writeQueue := []\<rparr>;
                       s2 = issue SocketClose (issue SocketShutdown s1)
                   in run_handler (closeHandler s2) s2)"

section \<open>Reading\<close>

definition asyncReadHeader :: "message \<Rightarrow> 'x session \<Rightarrow> 'x session" where
  "asyncReadHeader m s =
     restartReadTimer (start_op (OpReadHeader m) (issue (AsyncReadHeader HeaderSize) s))"

definition readNext :: "'x session \<Rightarrow> 'x session" where
  "readNext s = asyncReadHeader Message_default s"

definition asyncReadBody :: "message \<Rightarrow> 'x session \<Rightarrow> 'x session" where
  "asyncReadBody m s =
     restartReadTimer (start_op (OpReadBody m) (issue (AsyncReadBody (Buffer_size (msg_payload m))) s))"

definition handleMessage :: "message \<Rightarrow> 'x session \<Rightarrow> 'x session" where
  "handleMessage m s = (case receiveHandler s of
      None \<Rightarrow> s
    | Some h \<Rightarrow> if isConnected s then post_read (h, msg_payload m) s else s)"

definition onMessageReceived :: "message \<Rightarrow> 'x session \<Rightarrow> 'x session" where
  "onMessageReceived m s =
    (let t = Message_type m
     in if type_code Invalid < t \<and> t < type_code Last then
          (if t = type_code Ping then pong s
           else if t \<noteq> type_code Pong then handleMessage m s
           else s)
        else s)"

definition handleReadHeader :: "message \<Rightarrow> error_code \<Rightarrow> 'x session \<Rightarrow> 'x session" where
  "handleReadHeader m err s =
    (let s1 = cancelReadTimer s
     in if err = None then
          (if verifyHeader m then
             (if \<not> isEmpty m then asyncReadBody (fitToSize m) s1
              else readNext (onMessageReceived m s1))
           else close s1)
        else if err \<noteq> Some OperationAborted then close s1
        else s1)"

definition handleReadBody :: "message \<Rightarrow> error_code \<Rightarrow> 'x session \<Rightarrow> 'x session" where
  "handleReadBody m err s =
    (let s1 = cancelReadTimer s
     in if err = None then
          (if verifyBody m then readNext (onMessageReceived m s1) else close s1)
        else if err \<noteq> Some OperationAborted then close s1
        else s1)"

section \<open>Handshake\<close>

definition asyncHandshake :: "handshake_type \<Rightarrow> 'x session \<Rightarrow> 'x session" where
  "asyncHandshake ht s = start_op (OpHandshake ht) (issue (AsyncHandshake ht) s)"

definition handleHandshake :: "error_code \<Rightarrow> 'x session \<Rightarrow> 'x session" where
  "handleHandshake err s =
    (let s1 = s\<lparr>isConnected := True\<rparr>
     in if err = None then
          (let s2 = readNext (post_timer RunTouch s1) in run_handler (openHandler s2) s2)
        else if err \<noteq> Some OperationAborted then close s1
        else s1)"

section \<open>The read timer\<close>

text \<open>Points in time are nanoseconds of the system clock; \<open>duration_cast\<close> to milliseconds
  truncates towards zero.\<close>

definition elapsed_ms :: "int \<Rightarrow> int \<Rightarrow> int" where
  "elapsed_ms now before = sgn (now - before) * (\<bar>now - before\<bar> div 1000000)"

definition restart_timer_task :: "int \<Rightarrow> 'x session \<Rightarrow> 'x session" where
  "restart_timer_task rnd s =
     (let s1 = issue TimerWait (issue (TimerExpires rnd) s) in s1\<lparr>timerWaits := Suc (timerWaits s1)\<rparr>)"

definition cancel_timer_task :: "int \<Rightarrow> 'x session \<Rightarrow> 'x session" where
  "cancel_timer_task now s = (issue TimerCancel s)\<lparr>lastTimeRead := now\<rparr>"

definition handleReadTimeOut :: "error_code \<Rightarrow> 'x session \<Rightarrow> 'x session" where
  "handleReadTimeOut err s = (if err = Some OperationAborted then s else post_timer RunTimeOut s)"

definition timeout_task :: "int \<Rightarrow> 'x session \<Rightarrow> 'x session" where
  "timeout_task now s =
    (let timeout = elapsed_ms now (lastTimeRead s)
     in if timeout > MaxTimeOut then close s else restartReadTimer (ping s))"

section \<open>Running the strands\<close>

fun run_socket_task :: "socket_task \<Rightarrow> 'x session \<Rightarrow> 'x session" where
  "run_socket_task (RunAsyncHandshake ht) s = asyncHandshake ht s"
| "run_socket_task RunCancel s = issue SocketCancel s"
| "run_socket_task RunClose s = close_task s"
| "run_socket_task (RunAsyncWrite m) s = asyncWrite m s"
| "run_socket_task (OnHandshake err) s = handleHandshake err s"
| "run_socket_task (OnReadHeader m err) s = handleReadHeader m err s"
| "run_socket_task (OnReadBody m err) s = handleReadBody m err s"
| "run_socket_task (OnWrite m err) s = handleWrite m err s"

text \<open>\<open>now\<close> is the clock's reading, \<open>rnd\<close> the next period of the random generator.\<close>

fun run_timer_task :: "int \<Rightarrow> int \<Rightarrow> timer_task \<Rightarrow> 'x session \<Rightarrow> 'x session" where
  "run_timer_task now rnd RunTouch s = s\<lparr>lastTimeRead := now\<rparr>"
| "run_timer_task now rnd RunRestart s = restart_timer_task rnd s"
| "run_timer_task now rnd RunCancelTimer s = cancel_timer_task now s"
| "run_timer_task now rnd RunTimeOut s = timeout_task now s"

text \<open>The handler that asio queues when an operation completes, with the bytes it read.\<close>

fun completion :: "byte_order \<Rightarrow> asio_op \<Rightarrow> error_code \<Rightarrow> byte list \<Rightarrow> socket_task" where
  "completion bo (OpHandshake ht) err bs = OnHandshake err"
| "completion bo (OpReadHeader m) err bs = OnReadHeader (read_into_header bo bs m) err"
| "completion bo (OpReadBody m) err bs = OnReadBody (read_into_body bs m) err"
| "completion bo (OpWrite m) err bs = OnWrite m err"

section \<open>Events\<close>

text \<open>
  Everything that can happen to a session: calls of its public functions, one task of a strand
  (in the order of its queue; \<open>TimerStrand\<close> carries the clock and the random period), the
  completion of the \<open>i\<close>-th pending operation, and of a wait of the timer, whose handler
  \<open>handleReadTimeOut\<close> is not bound to a strand.  The order of events is arbitrary.
\<close>

datatype 'x event =
    Configure "'x call list option" "'x call list option" "'x receive_handler option"
  | Open handshake_type error_code
  | Send buffer
  | Drop
  | CancelAll
  | SocketStrand
  | ReadStrand
  | TimerStrand int int
  | Complete nat error_code "byte list"
  | TimerDone error_code

inductive session_step :: "byte_order \<Rightarrow> 'x session \<Rightarrow> 'x event \<Rightarrow> 'x session \<Rightarrow> bool"
  for bo :: byte_order where
  configure: "session_step bo s (Configure oh ch rh) (configure oh ch rh s)"
| open_ok: "open_session ht opt s = Inr t \<Longrightarrow> session_step bo s (Open ht opt) t"
| open_throws: "open_session ht opt s = Inl e \<Longrightarrow> session_step bo s (Open ht opt) s"
| send: "session_step bo s (Send payload) (send payload s)"
| drop: "session_step bo s Drop (drop_session s)"
| cancel_all: "session_step bo s CancelAll (cancelAllPendingOperations s)"
| socket_strand: "socketStrand s = t # ts \<Longrightarrow>
    session_step bo s SocketStrand (run_socket_task t (s\<lparr>socketStrand := ts\<rparr>))"
| read_strand: "readStrand s = (h, payload) # ts \<Longrightarrow>
    session_step bo s ReadStrand (run_calls (h payload) (s\<lparr>readStrand := ts\<rparr>))"
| timer_strand: "readTimerStrand s = t # ts \<Longrightarrow>
    session_step bo s (TimerStrand now rnd) (run_timer_task now rnd t (s\<lparr>readTimerStrand := ts\<rparr>))"
| complete: "i < length (pendingOps s) \<Longrightarrow>
    session_step bo s (Complete i err bs) (post_socket (completion bo (pendingOps s ! i) err bs)
      (s\<lparr>pendingOps := remove_at i (pendingOps s)\<rparr>))"
| timer_done: "0 < timerWaits s \<Longrightarrow>
    session_step bo s (TimerDone err) (handleReadTimeOut err (s\<lparr>timerWaits := timerWaits s - 1\<rparr>))"

inductive_cases session_stepE: "session_step bo s e t"
inductive_simps session_step_Socket: "session_step bo s SocketStrand t"
inductive_simps session_step_Complete: "session_step bo s (Complete i err bs) t"

text \<open>The same transitions as a function, to evaluate concrete runs.\<close>

fun session_exec :: "byte_order \<Rightarrow> 'x session \<Rightarrow> 'x event \<Rightarrow> 'x session option" where
  "session_exec bo s (Configure oh ch rh) = Some (configure oh ch rh s)"
| "session_exec bo s (Open ht opt) =
     Some (case open_session ht opt s of Inl _ \<Rightarrow> s | Inr t \<Rightarrow> t)"
| "session_exec bo s (Send payload) = Some (send payload s)"
| "session_exec bo s Drop = Some (drop_session s)"
| "session_exec bo s CancelAll = Some (cancelAllPendingOperations s)"
| "session_exec bo s SocketStrand = (case socketStrand s of
     [] \<Rightarrow> None | t # ts \<Rightarrow> Some (run_socket_task t (s\<lparr>socketStrand := ts\<rparr>)))"
| "session_exec bo s ReadStrand = (case readStrand s of
     [] \<Rightarrow> None | (h, payload) # ts \<Rightarrow> Some (run_calls (h payload) (s\<lparr>readStrand := ts\<rparr>)))"
| "session_exec bo s (TimerStrand now rnd) = (case readTimerStrand s of
     [] \<Rightarrow> None | t # ts \<Rightarrow> Some (run_timer_task now rnd t (s\<lparr>readTimerStrand := ts\<rparr>)))"
| "session_exec bo s (Complete i err bs) = (if i < length (pendingOps s)
     then Some (post_socket (completion bo (pendingOps s ! i) err bs)
       (s\<lparr>pendingOps := remove_at i (pendingOps s)\<rparr>))
     else None)"
| "session_exec bo s (TimerDone err) = (if 0 < timerWaits s
     then Some (handleReadTimeOut err (s\<lparr>timerWaits := timerWaits s - 1\<rparr>)) else None)"

lemma session_exec_step: "session_exec bo s e = Some t \<longleftrightarrow> session_step bo s e t"
proof
  assume "session_exec bo s e = Some t"
  then show "session_step bo s e t"
    by (cases e) (auto split: sum.splits list.splits if_splits intro: session_step.intros
        session_step.timer_done [unfolded One_nat_def])
next
  assume "session_step bo s e t"
  then show "session_exec bo s e = Some t" by cases auto
qed

definition session_start :: "'x session \<Rightarrow> bool" where
  "session_start s \<longleftrightarrow> s = Session_create"

definition session_next :: "byte_order \<Rightarrow> 'x session \<Rightarrow> 'x session \<Rightarrow> bool" where
  "session_next bo s t \<longleftrightarrow> (\<exists>e. session_step bo s e t)"

abbreviation session_reachable :: "byte_order \<Rightarrow> 'x session \<Rightarrow> bool" where
  "session_reachable bo \<equiv> reach session_start (session_next bo)"

lemma session_reachable_create: "session_reachable bo Session_create"
  by (rule reach.reach_init) (simp add: session_start_def)

lemma session_reachable_run:
  assumes "run (session_exec bo) Session_create es = Some t"
  shows "session_reachable bo t"
  using assms session_reachable_create
  by (rule run_invariant) (auto simp: session_exec_step session_next_def intro: reach.reach_step)

lemmas session_ops = configure_def post_socket_def post_read_def post_timer_def issue_def
  start_op_def cancelAllPendingOperations_def restartReadTimer_def cancelReadTimer_def close_def
  drop_session_def configureSocket_def open_session_def writeNext_def send_message_def send_def
  ping_def pong_def asyncWrite_def handleWrite_def run_calls_def run_handler_def close_task_def
  asyncReadHeader_def readNext_def asyncReadBody_def handleMessage_def onMessageReceived_def
  handleReadHeader_def handleReadBody_def asyncHandshake_def handleHandshake_def
  restart_timer_task_def cancel_timer_task_def handleReadTimeOut_def timeout_task_def remove_at_def

end
