(* ===== verification/WriteQueue.thy ===== *)
theory WriteQueue
  imports Prelude
begin

text \<open>
  The write discipline that \<open>Session\<close> and \<open>ClientHTTPSession\<close> share, as an abstract protocol.
  Asio forbids two overlapping \<open>async_write\<close> calls on one stream, so the code starts a write only
  when the queue was empty or when the previous write has completed, and keeps the message being
  written at the head of the queue.  A writer is its queue, the writes posted but not yet issued,
  the writes issued and not yet completed, and the log of everything issued so far.  The moves are
  what the code may do; the locale \<open>message_writer\<close> asks a session to make only such moves, and
  gives it back the single-writer invariant and the order of messages.
\<close>

record 'm writer =
  wr_queue :: "'m list"
  wr_posted :: "'m multiset"
  wr_active :: "'m multiset"
  wr_log :: "'m list"

definition writer_empty :: "'m writer" where
  "writer_empty = \<lparr>wr_queue = [], wr_posted = {#}, wr_active = {#}, wr_log = []\<rparr>"

definition head_mset :: "'m list \<Rightarrow> 'm multiset" where
  "head_mset q = (case q of [] \<Rightarrow> {#} | m # _ \<Rightarrow> {#m#})"

lemma head_mset_simps [simp]: "head_mset [] = {#}" "head_mset (m # q) = {#m#}"
  by (simp_all add: head_mset_def)

text \<open>\<open>urgent\<close> messages (pings and pongs) are queued right behind the one being written; a write
  can only fail where \<open>faulty\<close> allows it.\<close>

inductive writer_move :: "('m \<Rightarrow> bool) \<Rightarrow> bool \<Rightarrow> 'm writer \<Rightarrow> 'm writer \<Rightarrow> bool"
  for urgent :: "'m \<Rightarrow> bool" and faulty :: bool where
  start: "wr_queue w = [] \<Longrightarrow>
     writer_move urgent faulty w (w\<lparr>wr_queue := [m], wr_posted := add_mset m (wr_posted w)\<rparr>)"
| append: "wr_queue w = c # r \<Longrightarrow> \<not> urgent m \<Longrightarrow>
     writer_move urgent faulty w (w\<lparr>wr_queue := c # r @ [m]\<rparr>)"
| overtake: "wr_queue w = c # r \<Longrightarrow> urgent m \<Longrightarrow>
     writer_move urgent faulty w (w\<lparr>wr_queue := c # m # r\<rparr>)"
| issue: "m \<in># wr_posted w \<Longrightarrow>
     writer_move urgent faulty w (w\<lparr>wr_posted := wr_posted w - {#m#},
       wr_active := add_mset m (wr_active w), wr_log := wr_log w @ [m]\<rparr>)"
| finish_ok: "m \<in># wr_active w \<Longrightarrow>
     writer_move urgent faulty w (w\<lparr>wr_queue := tl (wr_queue w), wr_active := wr_active w - {#m#},
       wr_posted := wr_posted w + head_mset (tl (wr_queue w))\<rparr>)"
| finish_error: "faulty \<Longrightarrow> m \<in># wr_active w \<Longrightarrow>
     writer_move urgent faulty w (w\<lparr>wr_queue := tl (wr_queue w), wr_active := wr_active w - {#m#}\<rparr>)"

abbreviation writer_moves :: "('m \<Rightarrow> bool) \<Rightarrow> bool \<Rightarrow> 'm writer \<Rightarrow> 'm writer \<Rightarrow> bool" where
  "writer_moves urgent faulty \<equiv> (writer_move urgent faulty)\<^sup>*\<^sup>*"

text \<open>At most one write is posted or active, and it is the head of the queue.\<close>

definition in_flight :: "'m writer \<Rightarrow> 'm multiset" where
  "in_flight w = wr_posted w + wr_active w"

definition single_writer :: "'m writer \<Rightarrow> bool" where
  "single_writer w \<longleftrightarrow> in_flight w = {#} \<or> in_flight w = head_mset (wr_queue w)"

text \<open>Everything accepted so far, in the order of writing: what was issued, then what waits.\<close>

definition unissued :: "'m writer \<Rightarrow> 'm list" where
  "unissued w = (if wr_active w = {#} then wr_queue w else tl (wr_queue w))"

definition accepted :: "'m writer \<Rightarrow> 'm list" where
  "accepted w = wr_log w @ unissued w"

lemma single_writer_empty: "single_writer writer_empty"
  by (simp add: single_writer_def in_flight_def writer_empty_def)

lemma single_writer_size: "single_writer w \<Longrightarrow> size (in_flight w) \<le> 1"
  by (cases "wr_queue w") (auto simp: single_writer_def)

lemma single_in_flight:
  assumes "single_writer w" "m \<in># in_flight w"
  shows "in_flight w = {#m#} \<and> (\<exists>r. wr_queue w = m # r)"
  using assms by (cases "wr_queue w") (auto simp: single_writer_def)

lemma union_single_left: "m \<in># A \<Longrightarrow> A + B = {#m#} \<Longrightarrow> A = {#m#} \<and> B = {#}"
  by (auto dest!: multi_member_split)

lemma single_writerD:
  assumes "single_writer w"
  shows "wr_queue w = [] \<Longrightarrow> wr_posted w = {#} \<and> wr_active w = {#}"
    and "m \<in># wr_posted w \<Longrightarrow> wr_posted w = {#m#} \<and> wr_active w = {#} \<and> (\<exists>r. wr_queue w = m # r)"
    and "m \<in># wr_active w \<Longrightarrow> wr_active w = {#m#} \<and> wr_posted w = {#} \<and> (\<exists>r. wr_queue w = m # r)"
proof -
  show "wr_queue w = [] \<Longrightarrow> wr_posted w = {#} \<and> wr_active w = {#}"
    using assms by (auto simp: single_writer_def in_flight_def)
  show "wr_posted w = {#m#} \<and> wr_active w = {#} \<and> (\<exists>r. wr_queue w = m # r)" if "m \<in># wr_posted w"
    using single_in_flight [OF assms, of m] union_single_left [of m "wr_posted w" "wr_active w"] that
    by (auto simp: in_flight_def)
  show "wr_active w = {#m#} \<and> wr_posted w = {#} \<and> (\<exists>r. wr_queue w = m # r)" if "m \<in># wr_active w"
    using single_in_flight [OF assms, of m] union_single_left [of m "wr_active w" "wr_posted w"] that
    by (auto simp: in_flight_def add.commute)
qed

lemma single_writer_move:
  assumes "writer_move urgent faulty v w" "single_writer v"
  shows "single_writer w"
  using assms
proof cases
  case (start m)
  with single_writerD(1) [OF assms(2)] show ?thesis
    by (simp add: single_writer_def in_flight_def)
next
  case (issue m)
  with single_writerD(2) [OF assms(2), of m] show ?thesis
    by (auto simp: single_writer_def in_flight_def)
next
  case (finish_ok m)
  with single_writerD(3) [OF assms(2), of m] show ?thesis
    by (auto simp: single_writer_def in_flight_def)
next
  case (finish_error m)
  with single_writerD(3) [OF assms(2), of m] show ?thesis
    by (auto simp: single_writer_def in_flight_def)
qed (use assms(2) in \<open>auto simp: single_writer_def in_flight_def\<close>)

lemma single_writer_moves: "writer_moves urgent faulty v w \<Longrightarrow> single_writer v \<Longrightarrow> single_writer w"
  by (induction rule: rtranclp_induct) (auto intro: single_writer_move)

text \<open>A move appends at most one non-urgent message to what was accepted, and nothing else.\<close>

lemma accepted_move:
  assumes "writer_move urgent faulty v w" "single_writer v"
  shows "prefix (filter (\<lambda>m. \<not> urgent m) (accepted v)) (filter (\<lambda>m. \<not> urgent m) (accepted w))"
  using assms
proof cases
  case (start m)
  with single_writerD(1) [OF assms(2)] show ?thesis by (simp add: accepted_def unissued_def)
next
  case (issue m)
  with single_writerD(2) [OF assms(2), of m] show ?thesis
    by (auto simp: accepted_def unissued_def)
next
  case (finish_ok m)
  with single_writerD(3) [OF assms(2), of m] show ?thesis
    by (auto simp: accepted_def unissued_def)
next
  case (finish_error m)
  with single_writerD(3) [OF assms(2), of m] show ?thesis
    by (auto simp: accepted_def unissued_def)
qed (auto simp: accepted_def unissued_def)

lemma accepted_moves:
  assumes "writer_moves urgent faulty v w" "single_writer v"
  shows "prefix (filter (\<lambda>m. \<not> urgent m) (accepted v)) (filter (\<lambda>m. \<not> urgent m) (accepted w))"
  using assms
proof (induction rule: rtranclp_induct)
  case (step u w)
  then show ?case
    using accepted_move single_writer_moves prefix_order.order_trans by blast
qed simp

text \<open>Without failed writes the queue never stalls: what is in flight is always its head.\<close>

definition writer_busy :: "'m writer \<Rightarrow> bool" where
  "writer_busy w \<longleftrightarrow> in_flight w = head_mset (wr_queue w)"

lemma writer_busy_single: "writer_busy w \<Longrightarrow> single_writer w"
  by (simp add: writer_busy_def single_writer_def)

lemma writer_busy_move:
  assumes "writer_move urgent False v w" "writer_busy v"
  shows "writer_busy w"
proof -
  note sw = writer_busy_single [OF assms(2)]
  from assms(1) show ?thesis
  proof cases
    case (start m)
    with single_writerD(1) [OF sw] show ?thesis by (simp add: writer_busy_def in_flight_def)
  next
    case (issue m)
    with single_writerD(2) [OF sw, of m] show ?thesis by (auto simp: writer_busy_def in_flight_def)
  next
    case (finish_ok m)
    with single_writerD(3) [OF sw, of m] show ?thesis by (auto simp: writer_busy_def in_flight_def)
  qed (use assms(2) in \<open>auto simp: writer_busy_def in_flight_def\<close>)
qed

lemma writer_busy_moves: "writer_moves urgent False v w \<Longrightarrow> writer_busy v \<Longrightarrow> writer_busy w"
  by (induction rule: rtranclp_induct) (auto intro: writer_busy_move)

text \<open>A writer that holds messages and has nothing in flight does not recover by its own moves: its first
  message stays first, the others stay behind it, and nothing is issued.\<close>

definition stalled :: "'m \<Rightarrow> nat \<Rightarrow> 'm list \<Rightarrow> 'm writer \<Rightarrow> bool" where
  "stalled c n log w \<longleftrightarrow> in_flight w = {#} \<and> (\<exists>r. wr_queue w = c # r \<and> n \<le> length r) \<and> wr_log w = log"

lemma stalled_move: "writer_move urgent faulty v w \<Longrightarrow> stalled c n log v \<Longrightarrow> stalled c n log w"
  by (induction rule: writer_move.induct) (auto simp: stalled_def in_flight_def)

lemma stalled_moves: "writer_moves urgent faulty v w \<Longrightarrow> stalled c n log v \<Longrightarrow> stalled c n log w"
  by (induction rule: rtranclp_induct) (auto intro: stalled_move)

locale message_writer =
  fixes init :: "'s \<Rightarrow> bool"
    and step :: "'s \<Rightarrow> 's \<Rightarrow> bool"
    and view :: "'s \<Rightarrow> 'm writer"
    and closed :: "'s \<Rightarrow> bool"
    and urgent :: "'m \<Rightarrow> bool"
    and faulty :: bool
  assumes starts_empty: "init s \<Longrightarrow> view s = writer_empty"
    and stays_closed: "step s t \<Longrightarrow> closed s \<Longrightarrow> closed t"
    and only_moves: "step s t \<Longrightarrow> \<not> closed t \<Longrightarrow> writer_moves urgent faulty (view s) (view t)"
begin

lemma reach_star: "step\<^sup>*\<^sup>* s t \<Longrightarrow> reach init step s \<Longrightarrow> reach init step t"
  by (induction rule: rtranclp_induct) (auto intro: reach.reach_step)

lemma view_single_writer: "reach init step s \<Longrightarrow> \<not> closed s \<Longrightarrow> single_writer (view s)"
proof (induction rule: reach.induct)
  case (reach_init s)
  then show ?case by (simp add: starts_empty single_writer_empty)
next
  case (reach_step s t)
  then show ?case using stays_closed only_moves single_writer_moves by blast
qed

lemma accepted_order:
  assumes "step\<^sup>*\<^sup>* s t" "reach init step s" "\<not> closed t"
  shows "prefix (filter (\<lambda>m. \<not> urgent m) (accepted (view s))) (filter (\<lambda>m. \<not> urgent m) (accepted (view t)))"
  using assms
proof (induction rule: rtranclp_induct)
  case (step u t)
  from step.hyps(2) step.prems(2) have open_u: "\<not> closed u" using stays_closed by blast
  have "single_writer (view u)"
    by (rule view_single_writer [OF reach_star [OF step.hyps(1) step.prems(1)] open_u])
  from accepted_moves [OF only_moves [OF step.hyps(2) step.prems(2)] this]
  show ?case using step.IH [OF step.prems(1) open_u] by (rule prefix_order.order_trans [rotated])
qed simp

lemma stalled_for_good: "step\<^sup>*\<^sup>* s t \<Longrightarrow> stalled c n log (view s) \<Longrightarrow> \<not> closed t \<Longrightarrow> stalled c n log (view t)"
proof (induction rule: rtranclp_induct)
  case (step u t)
  have "\<not> closed u" using stays_closed [OF step.hyps(2)] step.prems(2) by auto
  with step.IH step.prems(1) have "stalled c n log (view u)" by simp
  with stalled_moves [OF only_moves [OF step.hyps(2) step.prems(2)]] show ?case .
qed simp

end

text \<open>A writer whose writes do not fail.\<close>

locale steady_writer = message_writer init step view closed urgent False
  for init :: "'s \<Rightarrow> bool" and step :: "'s \<Rightarrow> 's \<Rightarrow> bool" and view :: "'s \<Rightarrow> 'm writer"
    and closed :: "'s \<Rightarrow> bool" and urgent :: "'m \<Rightarrow> bool"
begin

lemma never_stalls: "reach init step s \<Longrightarrow> \<not> closed s \<Longrightarrow> writer_busy (view s)"
proof (induction rule: reach.induct)
  case (reach_init s)
  then show ?case
    by (simp add: starts_empty writer_busy_def writer_empty_def in_flight_def)
next
  case (reach_step s t)
  then show ?case using stays_closed only_moves writer_busy_moves by blast
qed

end

end
