(* ===== verification/SessionWriting.thy ===== *)
theory SessionWriting
  imports SessionModel WriteQueue
begin

text \<open>
  The write side of \<open>Session\<close>: every step of a session that has not run the task of \<open>close\<close> is a
  sequence of moves of the abstract writer of \<open>WriteQueue\<close>.  From the locale come the single
  writer, the order of messages and, for runs without failed writes, the absence of stalls.
\<close>

section \<open>The writer in a session\<close>

fun task_posted :: "socket_task \<Rightarrow> message list" where
  "task_posted (RunAsyncWrite m) = [m]"
| "task_posted _ = []"

fun task_done :: "socket_task \<Rightarrow> message list" where
  "task_done (OnWrite m _) = [m]"
| "task_done _ = []"

fun op_write :: "asio_op \<Rightarrow> message list" where
  "op_write (OpWrite m) = [m]"
| "op_write _ = []"

fun request_write :: "asio_request \<Rightarrow> message list" where
  "request_write (AsyncWrite m) = [m]"
| "request_write _ = []"

definition session_view :: "'x session \<Rightarrow> message writer" where
  "session_view s = \<lparr>wr_queue = writeQueue s,
     wr_posted = mset (concat (map task_posted (socketStrand s))),
     wr_active = mset (concat (map op_write (pendingOps s))) + mset (concat (map task_done (socketStrand s))),
     wr_log = concat (map request_write (issued s))\<rparr>"

definition is_control :: "message \<Rightarrow> bool" where
  "is_control m \<longleftrightarrow> Message_type m = type_code Ping \<or> Message_type m = type_code Pong"

definition session_closed :: "'x session \<Rightarrow> bool" where
  "session_closed s \<longleftrightarrow> SocketClose \<in> set (issued s)"

section \<open>Operations that do not write\<close>

lemma view_frame [simp]:
  "session_view (s\<lparr>isConnected := b\<rparr>) = session_view s"
  "session_view (s\<lparr>lastTimeRead := l\<rparr>) = session_view s"
  "session_view (s\<lparr>timerWaits := n\<rparr>) = session_view s"
  "session_view (s\<lparr>readStrand := rs\<rparr>) = session_view s"
  "session_view (s\<lparr>readTimerStrand := ts\<rparr>) = session_view s"
  "session_view (s\<lparr>extCalls := xs\<rparr>) = session_view s"
  "session_view (configure oh ch rh s) = session_view s"
  "session_view (post_read r s) = session_view s"
  "session_view (post_timer t s) = session_view s"
  by (simp_all add: session_view_def session_ops)

lemma view_post_socket [simp]:
  "task_posted t = [] \<Longrightarrow> task_done t = [] \<Longrightarrow> session_view (post_socket t s) = session_view s"
  by (simp add: session_view_def post_socket_def)

lemma view_start_op [simp]: "op_write op = [] \<Longrightarrow> session_view (start_op op s) = session_view s"
  by (simp add: session_view_def start_op_def)

lemma view_issue [simp]: "request_write r = [] \<Longrightarrow> session_view (issue r s) = session_view s"
  by (simp add: session_view_def issue_def)

lemma view_quiet [simp]:
  "session_view (cancelAllPendingOperations s) = session_view s"
  "session_view (cancelReadTimer s) = session_view s"
  "session_view (restartReadTimer s) = session_view s"
  "session_view (close s) = session_view s"
  "session_view (drop_session s) = session_view s"
  "session_view (asyncReadHeader m s) = session_view s"
  "session_view (readNext s) = session_view s"
  "session_view (asyncReadBody m s) = session_view s"
  "session_view (asyncHandshake ht s) = session_view s"
  "session_view (handleMessage m s) = session_view s"
  "session_view (handleReadTimeOut err s) = session_view s"
  by (simp_all add: cancelAllPendingOperations_def cancelReadTimer_def restartReadTimer_def
      close_def drop_session_def asyncReadHeader_def readNext_def asyncReadBody_def
      asyncHandshake_def handleMessage_def handleReadTimeOut_def Let_def split: option.split)

lemma view_open: "open_session ht opt s = Inr t \<Longrightarrow> session_view t = session_view s"
  by (auto simp: open_session_def configureSocket_def split: if_splits option.splits)

section \<open>Operations that write\<close>

abbreviation session_moves :: "bool \<Rightarrow> 'x session \<Rightarrow> 'x session \<Rightarrow> bool" where
  "session_moves faulty s t \<equiv> writer_moves is_control faulty (session_view s) (session_view t)"

lemma session_moves_trans:
  "session_moves f s t \<Longrightarrow> session_moves f t u \<Longrightarrow> session_moves f s u"
  by (rule rtranclp_trans)

lemma moves_send_message: "session_moves f s (send_message m s)"
proof (cases "writeQueue s")
  case Nil
  then have "session_view (send_message m s) = (session_view s)\<lparr>wr_queue := [m],
      wr_posted := add_mset m (wr_posted (session_view s))\<rparr>"
    by (simp add: send_message_def writeNext_def post_socket_def session_view_def)
  with writer_move.start [of "session_view s" is_control f m] Nil show ?thesis
    by (simp add: session_view_def r_into_rtranclp)
next
  case (Cons c r)
  note step = writer_move.append [of "session_view s" c r is_control m f]
    writer_move.overtake [of "session_view s" c r is_control m f]
  show ?thesis
  proof (cases "is_control m")
    case True
    then have "session_view (send_message m s) = (session_view s)\<lparr>wr_queue := c # m # r\<rparr>"
      using Cons by (auto simp: send_message_def session_view_def is_control_def)
    with step(2) True Cons show ?thesis by (simp add: session_view_def r_into_rtranclp)
  next
    case False
    then have "session_view (send_message m s) = (session_view s)\<lparr>wr_queue := c # r @ [m]\<rparr>"
      using Cons by (auto simp: send_message_def session_view_def is_control_def)
    with step(1) False Cons show ?thesis by (simp add: session_view_def r_into_rtranclp)
  qed
qed

lemma moves_send:
  "session_moves f s (send payload s)" "session_moves f s (ping s)" "session_moves f s (pong s)"
  by (simp_all add: send_def ping_def pong_def moves_send_message)

lemma moves_run_call: "session_moves f s (run_call c s)"
  by (cases c) (simp_all add: moves_send)

lemma run_calls_simps [simp]:
  "run_calls [] s = s" "run_calls (c # cs) s = run_calls cs (run_call c s)"
  by (simp_all add: run_calls_def)

lemma moves_run_calls: "session_moves f s (run_calls cs s)"
proof (induction cs arbitrary: s)
  case (Cons c cs)
  from session_moves_trans [OF moves_run_call Cons] show ?case by simp
qed simp

lemma moves_run_handler: "session_moves f s (run_handler h s)"
  by (cases h) (simp_all add: run_handler_def moves_run_calls)

lemma moves_onMessageReceived: "session_moves f s (onMessageReceived m s)"
  by (simp add: onMessageReceived_def Let_def moves_send)

lemma moves_handleReadHeader: "session_moves f s (handleReadHeader m err s)"
  using moves_onMessageReceived [of f "cancelReadTimer s" m]
  by (simp add: handleReadHeader_def Let_def)

lemma moves_handleReadBody: "session_moves f s (handleReadBody m err s)"
  using moves_onMessageReceived [of f "cancelReadTimer s" m]
  by (simp add: handleReadBody_def Let_def)

lemma moves_handleHandshake: "session_moves f s (handleHandshake err s)"
  using moves_run_handler [of f "readNext (post_timer RunTouch (s\<lparr>isConnected := True\<rparr>))"
      "openHandler (readNext (post_timer RunTouch (s\<lparr>isConnected := True\<rparr>)))"]
  by (simp add: handleHandshake_def Let_def)

lemma moves_run_timer_task: "session_moves f s (run_timer_task now rnd t s)"
  using moves_send(2) [of f s]
  by (cases t) (simp_all add: restart_timer_task_def cancel_timer_task_def timeout_task_def Let_def)

section \<open>Requests are only appended\<close>

lemma issued_frame [simp]:
  "issued (configure oh ch rh s) = issued s" "issued (post_socket t s) = issued s"
  "issued (post_read r s) = issued s" "issued (post_timer tt s) = issued s"
  "issued (start_op op s) = issued s" "issued (issue q s) = issued s @ [q]"
  by (simp_all add: session_ops)

lemma issued_quiet [simp]:
  "issued (cancelAllPendingOperations s) = issued s" "issued (cancelReadTimer s) = issued s"
  "issued (restartReadTimer s) = issued s" "issued (close s) = issued s"
  "issued (drop_session s) = issued s" "issued (send_message m s) = issued s"
  "issued (send payload s) = issued s" "issued (ping s) = issued s" "issued (pong s) = issued s"
  "issued (writeNext s) = issued s" "issued (handleMessage m s) = issued s"
  "issued (onMessageReceived m s) = issued s" "issued (handleWrite m err s) = issued s"
  "issued (handleReadTimeOut err s) = issued s"
  by (simp_all add: cancelAllPendingOperations_def cancelReadTimer_def restartReadTimer_def
      close_def drop_session_def send_message_def send_def ping_def pong_def writeNext_def
      handleMessage_def onMessageReceived_def handleWrite_def handleReadTimeOut_def Let_def
      split: option.split list.split)

lemma issued_run_call [simp]: "issued (run_call c s) = issued s"
  by (cases c) simp_all

lemma issued_run_calls [simp]: "issued (run_calls cs s) = issued s"
  by (induction cs arbitrary: s) simp_all

lemma issued_run_handler [simp]: "issued (run_handler h s) = issued s"
  by (cases h) (simp_all add: run_handler_def)

lemma prefix_issued_task: "prefix (issued s) (issued (run_socket_task t s))"
  by (cases t) (simp_all add: asyncHandshake_def close_task_def asyncWrite_def handleHandshake_def
      handleReadHeader_def handleReadBody_def readNext_def asyncReadHeader_def asyncReadBody_def
      Let_def)

lemma prefix_issued_timer: "prefix (issued s) (issued (run_timer_task now rnd t s))"
  by (cases t) (simp_all add: restart_timer_task_def cancel_timer_task_def timeout_task_def Let_def)

lemma prefix_issued_open: "open_session ht opt s = Inr t \<Longrightarrow> prefix (issued s) (issued t)"
  by (auto simp: open_session_def configureSocket_def split: if_splits option.splits)

lemma prefix_issued_step: "session_step bo s e t \<Longrightarrow> prefix (issued s) (issued t)"
proof (induction rule: session_step.induct)
  case (socket_strand s t' ts)
  then show ?case using prefix_issued_task [of "s\<lparr>socketStrand := ts\<rparr>" t'] by simp
next
  case (timer_strand s t' ts now rnd)
  then show ?case using prefix_issued_timer [of "s\<lparr>readTimerStrand := ts\<rparr>" now rnd t'] by simp
qed (auto dest: prefix_issued_open)

lemma closed_step: "session_step bo s e t \<Longrightarrow> session_closed s \<Longrightarrow> session_closed t"
  using set_mono_prefix [OF prefix_issued_step] by (force simp: session_closed_def)

section \<open>Steps are moves of the writer\<close>

lemma pop_socket [simp]:
  "socketStrand s = t # ts \<Longrightarrow> task_posted t = [] \<Longrightarrow> task_done t = [] \<Longrightarrow>
     session_view (s\<lparr>socketStrand := ts\<rparr>) = session_view s"
  by (simp add: session_view_def)

lemma moves_asyncWrite:
  assumes "socketStrand s = RunAsyncWrite m # ts"
  shows "session_moves f s (asyncWrite m (s\<lparr>socketStrand := ts\<rparr>))"
proof -
  have "session_view (asyncWrite m (s\<lparr>socketStrand := ts\<rparr>)) = (session_view s)
      \<lparr>wr_posted := wr_posted (session_view s) - {#m#},
       wr_active := add_mset m (wr_active (session_view s)), wr_log := wr_log (session_view s) @ [m]\<rparr>"
    using assms by (simp add: session_view_def asyncWrite_def start_op_def issue_def)
  with writer_move.issue [of m "session_view s" is_control f] assms show ?thesis
    by (simp add: session_view_def r_into_rtranclp)
qed

lemma moves_handleWrite:
  assumes "socketStrand s = OnWrite m err # ts" "f \<or> err = None"
  shows "session_moves f s (handleWrite m err (s\<lparr>socketStrand := ts\<rparr>))"
proof -
  have active: "m \<in># wr_active (session_view s)" using assms(1) by (simp add: session_view_def)
  let ?t = "handleWrite m err (s\<lparr>socketStrand := ts\<rparr>)"
  let ?w = "(session_view s)\<lparr>wr_queue := tl (wr_queue (session_view s)),
      wr_active := wr_active (session_view s) - {#m#}\<rparr>"
  show ?thesis
  proof (cases "err = None")
    case True
    then have "session_view ?t = ?w\<lparr>wr_posted := wr_posted (session_view s) +
        head_mset (tl (wr_queue (session_view s)))\<rparr>"
      using assms(1)
      by (auto simp: handleWrite_def writeNext_def post_socket_def session_view_def Let_def
          neq_Nil_conv split: list.splits)
    with writer_move.finish_ok [OF active, of is_control f] show ?thesis
      by (simp add: r_into_rtranclp)
  next
    case False
    have "session_view (s\<lparr>socketStrand := ts\<rparr>) = session_view
        (s\<lparr>socketStrand := ts, writeQueue := tl (writeQueue s)\<rparr>)" if "writeQueue s = []"
      using that by (simp add: session_view_def)
    with False have "session_view ?t = session_view
        (s\<lparr>socketStrand := ts, writeQueue := tl (writeQueue s)\<rparr>)"
      by (cases "writeQueue s = []") (auto simp: handleWrite_def Let_def)
    also have "\<dots> = ?w" using assms(1) by (simp add: session_view_def)
    finally show ?thesis
      using writer_move.finish_error [OF _ active, of f is_control] assms(2) False
      by (simp add: r_into_rtranclp)
  qed
qed

lemma moves_socket_task:
  assumes "socketStrand s = t # ts" "f \<or> (\<forall>m e. t \<noteq> OnWrite m (Some e))" "t \<noteq> RunClose"
  shows "session_moves f s (run_socket_task t (s\<lparr>socketStrand := ts\<rparr>))"
proof (cases t)
  case (OnHandshake err)
  with assms(1) moves_handleHandshake [of f "s\<lparr>socketStrand := ts\<rparr>" err] show ?thesis by simp
next
  case (OnReadHeader m err)
  with assms(1) moves_handleReadHeader [of f "s\<lparr>socketStrand := ts\<rparr>" m err] show ?thesis by simp
next
  case (OnReadBody m err)
  with assms(1) moves_handleReadBody [of f "s\<lparr>socketStrand := ts\<rparr>" m err] show ?thesis by simp
next
  case (OnWrite m err)
  with assms(1,2) moves_handleWrite [of s m err ts f] show ?thesis by (cases err) auto
next
  case (RunAsyncWrite m)
  with assms(1) moves_asyncWrite [of s m ts f] show ?thesis by simp
qed (use assms in simp_all)

lemma close_task_closes: "session_closed (close_task s)"
  by (simp add: session_closed_def close_task_def Let_def)

lemma view_complete:
  assumes "i < length (pendingOps s)"
  shows "session_view (post_socket (completion bo (pendingOps s ! i) err bs)
    (s\<lparr>pendingOps := remove_at i (pendingOps s)\<rparr>)) = session_view s"
  using mset_concat_remove_at [OF assms, of op_write]
  by (cases "pendingOps s ! i") (simp_all add: session_view_def post_socket_def)

definition write_succeeds :: "'x session \<Rightarrow> 'x event \<Rightarrow> bool" where
  "write_succeeds s e \<longleftrightarrow> (case (e, socketStrand s) of
      (SocketStrand, OnWrite m err # _) \<Rightarrow> err = None | _ \<Rightarrow> True)"

lemma moves_step:
  assumes "session_step bo s e t" "\<not> session_closed t" "f \<or> write_succeeds s e"
  shows "session_moves f s t"
  using assms(1)
proof cases
  case (socket_strand t' ts)
  then have "t' \<noteq> RunClose" using assms(2) close_task_closes [of "s\<lparr>socketStrand := ts\<rparr>"] by auto
  moreover have "f \<or> (\<forall>m e. t' \<noteq> OnWrite m (Some e))"
    using assms(3) socket_strand by (auto simp: write_succeeds_def)
  ultimately show ?thesis using socket_strand moves_socket_task by blast
next
  case (timer_strand t' ts now rnd)
  with moves_run_timer_task [of f "s\<lparr>readTimerStrand := ts\<rparr>" now rnd t'] show ?thesis by simp
next
  case (read_strand h payload ts)
  with moves_run_calls [of f "s\<lparr>readStrand := ts\<rparr>"] show ?thesis by simp
qed (simp_all add: moves_send view_open view_complete)

definition session_next_ok :: "byte_order \<Rightarrow> 'x session \<Rightarrow> 'x session \<Rightarrow> bool" where
  "session_next_ok bo s t \<longleftrightarrow> (\<exists>e. session_step bo s e t \<and> write_succeeds s e)"

lemma view_create: "session_start s \<Longrightarrow> session_view s = writer_empty"
  by (simp add: session_start_def Session_create_def session_view_def writer_empty_def)

interpretation session_writer:
  message_writer session_start "session_next bo" session_view session_closed is_control True for bo
  by unfold_locales
    (auto simp: session_next_def view_create intro: closed_step moves_step)

interpretation session_steady:
  steady_writer session_start "session_next_ok bo" session_view session_closed is_control for bo
  by unfold_locales
    (auto simp: session_next_ok_def view_create intro: closed_step moves_step)

section \<open>Properties\<close>

text \<open>A session whose handshake has succeeded, and the events that lead to it.\<close>

definition handshake_events :: "handshake_type \<Rightarrow> 'x event list" where
  "handshake_events ht = [Open ht None, SocketStrand, Complete 0 None [], SocketStrand]"

lemmas session_eval [run_simps] = session_ops Session_create_def handshake_events_def Message_default_def
  message_defs HeaderSize_def type_code_def

lemmas view_eval [run_simps] = session_view_def session_closed_def in_flight_def

text \<open>C4. Single writer: as long as the session has not run the task of \<open>close\<close>, at most one write
  is posted, issued or waiting for its handler, whatever the other threads do, and it is the
  message at the head of the queue.\<close>

theorem session_single_writer:
  assumes "session_reachable bo s" "\<not> session_closed s"
  shows "size (in_flight (session_view s)) \<le> 1 \<and>
    (\<forall>m. m \<in># in_flight (session_view s) \<longrightarrow> (\<exists>r. writeQueue s = m # r))"
proof -
  have "wr_queue (session_view s) = writeQueue s" by (simp add: session_view_def)
  with session_writer.view_single_writer [OF assms] show ?thesis
    by (cases "writeQueue s") (auto simp: single_writer_def)
qed

lemma session_single_writer_run:
  "\<exists>s. run (session_exec bo) Session_create [Send Buffer_default, Send Buffer_default, SocketStrand] = Some s \<and>
    \<not> session_closed s \<and> length (writeQueue s) = 2 \<and> size (in_flight (session_view s)) = 1"
  by (simp add: run_simps)

theorem session_single_writer_witness:
  "\<exists>s::nat session. session_reachable LittleEndian s \<and> \<not> session_closed s \<and>
     length (writeQueue s) = 2 \<and> size (in_flight (session_view s)) = 1 \<and>
     (\<forall>m. m \<in># in_flight (session_view s) \<longrightarrow> (\<exists>r. writeQueue s = m # r))"
proof -
  obtain s :: "nat session" where s: "run (session_exec LittleEndian) Session_create
      [Send Buffer_default, Send Buffer_default, SocketStrand] = Some s"
    "\<not> session_closed s" "length (writeQueue s) = 2" "size (in_flight (session_view s)) = 1"
    using session_single_writer_run by blast
  with session_single_writer [OF session_reachable_run [OF s(1)] s(2)] session_reachable_run
  show ?thesis by blast
qed

text \<open>Order: along any steps that do not run the task of \<open>close\<close>, the messages that are
  neither pings nor pongs keep their order: those accepted so far (issued to the socket or
  waiting) stay a prefix of those accepted later, so none is lost, doubled or overtaken.\<close>

lemma session_data_order:
  assumes "session_reachable bo s" "(session_next bo)\<^sup>*\<^sup>* s t" "\<not> session_closed t"
  shows "prefix (filter (\<lambda>m. \<not> is_control m) (accepted (session_view s)))
    (filter (\<lambda>m. \<not> is_control m) (accepted (session_view t)))"
  using session_writer.accepted_order [OF assms(2,1,3)] .

lemma session_data_order_witness:
  "\<exists>s t::nat session. session_reachable LittleEndian s \<and> (session_next LittleEndian)\<^sup>*\<^sup>* s t \<and>
     prefix (filter (\<lambda>m. \<not> is_control m) (accepted (session_view s)))
       (filter (\<lambda>m. \<not> is_control m) (accepted (session_view t)))"
proof -
  let ?s = "send Buffer_default Session_create :: nat session"
  let ?t = "drop_session ?s"
  have step: "session_next LittleEndian Session_create ?s" "session_next LittleEndian ?s ?t"
    unfolding session_next_def by (blast intro: session_step.send session_step.drop)+
  have r: "session_reachable LittleEndian ?s"
    using reach.reach_step [OF session_reachable_create step(1)] .
  have "\<not> session_closed ?t" by (simp add: session_closed_def Session_create_def)
  moreover have "(session_next LittleEndian)\<^sup>*\<^sup>* ?s ?t" using step(2) by (rule r_into_rtranclp)
  ultimately show ?thesis using session_data_order [OF r] r by blast
qed

text \<open>\<open>send\<close> accepts a payload: in a session that is not closed, the new data message comes
  after all others, and \<open>ping\<close> places its message right behind the one being written.\<close>

lemma session_send_accepts:
  assumes "session_reachable bo s" "\<not> session_closed s"
  shows "filter (\<lambda>m. \<not> is_control m) (accepted (session_view (send payload s))) =
      filter (\<lambda>m. \<not> is_control m) (accepted (session_view s)) @ [Message_create Data payload] \<and>
    writeQueue (ping s) = (case writeQueue s of
      [] \<Rightarrow> [Message_of_type Ping] | c # r \<Rightarrow> c # Message_of_type Ping # r)"
proof
  have data: "\<not> is_control (Message_create Data payload)" by (simp add: is_control_def)
  from session_writer.view_single_writer [OF assms] have sw: "single_writer (session_view s)" .
  note q = single_writerD(1) [OF sw]
  show "filter (\<lambda>m. \<not> is_control m) (accepted (session_view (send payload s))) =
      filter (\<lambda>m. \<not> is_control m) (accepted (session_view s)) @ [Message_create Data payload]"
    using data q by (cases "writeQueue s")
      (auto simp: send_def send_message_def writeNext_def post_socket_def accepted_def
        unissued_def session_view_def is_control_def)
  show "writeQueue (ping s) = (case writeQueue s of
      [] \<Rightarrow> [Message_of_type Ping] | c # r \<Rightarrow> c # Message_of_type Ping # r)"
    by (simp add: ping_def send_message_def writeNext_def post_socket_def Let_def split: list.split)
qed

lemma session_send_accepts_witness:
  "filter (\<lambda>m. \<not> is_control m) (accepted (session_view (send (Buffer_create 3) (Session_create :: nat session)))) =
     [Message_create Data (Buffer_create 3)]"
proof -
  have "\<not> session_closed (Session_create :: nat session)"
    by (simp add: session_closed_def Session_create_def)
  from session_send_accepts [OF session_reachable_create this, of "Buffer_create 3"]
  show ?thesis by (simp add: accepted_def unissued_def session_view_def Session_create_def)
qed

text \<open>C10. No stall: in a session none of whose writes has failed, and that is not closed, a message
  waits in the queue exactly if a write is in flight, so the queue is always being drained.\<close>

theorem session_never_stalls:
  assumes "reach session_start (session_next_ok bo) s" "\<not> session_closed s"
  shows "writeQueue s \<noteq> [] \<longleftrightarrow> in_flight (session_view s) \<noteq> {#}"
  using session_steady.never_stalls [OF assms]
  by (cases "writeQueue s") (auto simp: writer_busy_def session_view_def)

theorem session_never_stalls_witness:
  "\<exists>s::nat session. reach session_start (session_next_ok LittleEndian) s \<and> writeQueue s \<noteq> [] \<and>
     in_flight (session_view s) \<noteq> {#}"
proof -
  let ?s = "send Buffer_default Session_create :: nat session"
  have "session_next_ok LittleEndian Session_create ?s"
    by (auto simp: session_next_ok_def write_succeeds_def intro: session_step.send)
  then have r: "reach session_start (session_next_ok LittleEndian) ?s"
    by (rule reach.reach_step [rotated]) (simp add: reach.reach_init session_start_def)
  have "\<not> session_closed ?s" "writeQueue ?s \<noteq> []"
    by (simp_all add: session_closed_def Session_create_def send_def send_message_def writeNext_def
        post_socket_def)
  with session_never_stalls [OF r] r show ?thesis by blast
qed

lemma session_run_star:
  assumes "run (session_exec bo) s es = Some t"
  shows "(session_next bo)\<^sup>*\<^sup>* s t"
  using assms
proof (rule run_invariant [where P = "(session_next bo)\<^sup>*\<^sup>* s"])
  fix u e v
  assume "session_exec bo u e = Some v" "(session_next bo)\<^sup>*\<^sup>* s u"
  then show "(session_next bo)\<^sup>*\<^sup>* s v" by (metis rtranclp.rtrancl_into_rtrancl session_exec_step session_next_def)
qed simp

text \<open>The handler of an aborted write pops its message and does nothing else.\<close>

lemma aborted_write_handled:
  assumes "session_reachable bo s" "\<not> session_closed s"
    and "socketStrand s = OnWrite m (Some OperationAborted) # ts" "writeQueue s = m' # c # r"
  shows "session_exec bo s SocketStrand = Some (s\<lparr>socketStrand := ts, writeQueue := c # r\<rparr>)"
    and "stalled c (length r) (wr_log (session_view s)) (session_view (s\<lparr>socketStrand := ts, writeQueue := c # r\<rparr>))"
proof -
  show "session_exec bo s SocketStrand = Some (s\<lparr>socketStrand := ts, writeQueue := c # r\<rparr>)"
    using assms(3,4) by (simp add: handleWrite_def)
  have "m \<in># wr_active (session_view s)" using assms(3) by (simp add: session_view_def)
  from single_writerD(3) [OF session_writer.view_single_writer [OF assms(1,2)] this] assms(3)
  show "stalled c (length r) (wr_log (session_view s)) (session_view (s\<lparr>socketStrand := ts, writeQueue := c # r\<rparr>))"
    by (auto simp: stalled_def session_view_def in_flight_def)
qed

text \<open>C22. After an aborted write, which \<open>cancelAllPendingOperations\<close> brings about without closing the
  session, a session with more messages stalls for good.  In every reachable state where the handler of an
  aborted write is next, the handler pops its message and starts no other write; the flag stays as it is.
  Then, whatever happens until the session is closed, the next message stays at the head of the queue,
  messages only pile up behind it, no write is posted or issued, and nothing more reaches the socket.\<close>

theorem aborted_write_stalls:
  assumes "session_reachable bo s" "\<not> session_closed s"
    and "socketStrand s = OnWrite m (Some OperationAborted) # ts" "writeQueue s = m' # c # r"
    and "run (session_exec bo) s (SocketStrand # es) = Some t" "\<not> session_closed t"
  shows "(\<exists>u. session_exec bo s SocketStrand = Some u \<and> isConnected u = isConnected s \<and>
      socketStrand u = ts \<and> writeQueue u = c # r) \<and>
    in_flight (session_view t) = {#} \<and> (\<exists>r'. writeQueue t = c # r' \<and> length r \<le> length r') \<and>
    wr_log (session_view t) = wr_log (session_view s)"
proof -
  note H = aborted_write_handled [OF assms(1-4)]
  have "run (session_exec bo) (s\<lparr>socketStrand := ts, writeQueue := c # r\<rparr>) es = Some t"
    using assms(5) H(1) by simp
  from session_writer.stalled_for_good [OF session_run_star [OF this] H(2) assms(6)]
  have "in_flight (session_view t) = {#}" "\<exists>r'. wr_queue (session_view t) = c # r' \<and> length r \<le> length r'"
    "wr_log (session_view t) = wr_log (session_view s)" by (simp_all add: stalled_def)
  moreover have "wr_queue (session_view t) = writeQueue t" by (simp add: session_view_def)
  ultimately show ?thesis using H(1) by simp
qed

definition cancelled_write :: "nat event list" where
  "cancelled_write = handshake_events ClientSide @ [Send Buffer_default, Send Buffer_default,
     SocketStrand, CancelAll, SocketStrand, Complete 1 (Some OperationAborted) []]"

lemma cancelled_write_run:
  "\<exists>s t m c. run (session_exec bo) Session_create cancelled_write = Some s \<and> isConnected s \<and>
     \<not> session_closed s \<and> socketStrand s = [OnWrite m (Some OperationAborted)] \<and> writeQueue s = [m, c] \<and>
     run (session_exec bo) s [SocketStrand, Send Buffer_default, Send Buffer_default] = Some t \<and> \<not> session_closed t \<and>
     length (writeQueue t) = 3"
  by (simp add: run_simps cancelled_write_def)

theorem aborted_write_stalls_witness:
  "\<exists>s t. run (session_exec LittleEndian) Session_create cancelled_write = Some s \<and> isConnected s \<and>
     run (session_exec LittleEndian) s [SocketStrand, Send Buffer_default, Send Buffer_default] = Some t \<and>
     length (writeQueue t) = 3 \<and> in_flight (session_view t) = {#}"
proof -
  obtain s t m c where s: "run (session_exec LittleEndian) Session_create cancelled_write = Some s" "isConnected s"
    "\<not> session_closed s" "socketStrand s = [OnWrite m (Some OperationAborted)]" "writeQueue s = [m, c]"
    "run (session_exec LittleEndian) s [SocketStrand, Send Buffer_default, Send Buffer_default] = Some t" "\<not> session_closed t"
    "length (writeQueue t) = 3" using cancelled_write_run by blast
  from aborted_write_stalls [OF session_reachable_run [OF s(1)] s(3-7)] s(1,2,6,8) show ?thesis by blast
qed

end
