(* ===== verification/SessionLifecycle.thy ===== *)
theory SessionLifecycle
  imports SessionWriting
begin

text \<open>
  The life of a \<open>Session\<close>: how often it is opened and closed, how many handshakes and reads are
  under way, and the read timeout.  A session's \<open>life\<close> counts what the strands, the pending
  operations and the requests hold; almost every operation leaves it unchanged, and the invariants
  are inequalities between its numbers.
\<close>

section \<open>Counting\<close>

record life =
  lf_opens :: nat      \<comment> \<open>successful calls of \<open>open\<close>\<close>
  lf_lives :: nat      \<comment> \<open>close tasks posted or run, and one more while connected\<close>
  lf_shakes :: nat     \<comment> \<open>handshakes posted, pending or completed but not handled\<close>
  lf_reads :: nat      \<comment> \<open>reads pending or completed but not handled\<close>

fun task_shakes :: "socket_task \<Rightarrow> nat" where
  "task_shakes (RunAsyncHandshake _) = 1"
| "task_shakes (OnHandshake _) = 1"
| "task_shakes _ = 0"

fun op_shakes :: "asio_op \<Rightarrow> nat" where
  "op_shakes (OpHandshake _) = 1"
| "op_shakes _ = 0"

fun task_reads :: "socket_task \<Rightarrow> nat" where
  "task_reads (OnReadHeader _ _) = 1"
| "task_reads (OnReadBody _ _) = 1"
| "task_reads _ = 0"

fun op_reads :: "asio_op \<Rightarrow> nat" where
  "op_reads (OpReadHeader _) = 1"
| "op_reads (OpReadBody _) = 1"
| "op_reads _ = 0"

text \<open>How often the socket has been closed: the close task does it once, before it runs the close handler;
  the runs of the handler itself are counted in \<open>SessionCalls\<close>.\<close>

definition close_count :: "'x session \<Rightarrow> nat" where
  "close_count s = count_list (issued s) SocketClose"

definition session_life :: "'x session \<Rightarrow> life" where
  "session_life s = \<lparr>lf_opens = count_list (issued s) SetNoDelay,
     lf_lives = close_count s + count_list (socketStrand s) RunClose + of_bool (isConnected s),
     lf_shakes = sum_list (map task_shakes (socketStrand s)) + sum_list (map op_shakes (pendingOps s)),
     lf_reads = sum_list (map task_reads (socketStrand s)) + sum_list (map op_reads (pendingOps s))\<rparr>"

lemma life_frame [simp]:
  "session_life (s\<lparr>lastTimeRead := l\<rparr>) = session_life s"
  "session_life (s\<lparr>writeQueue := q\<rparr>) = session_life s"
  "session_life (s\<lparr>timerWaits := n\<rparr>) = session_life s"
  "session_life (s\<lparr>readStrand := rs\<rparr>) = session_life s"
  "session_life (s\<lparr>readTimerStrand := ts\<rparr>) = session_life s"
  "session_life (s\<lparr>extCalls := xs\<rparr>) = session_life s"
  "session_life (configure oh ch rh s) = session_life s"
  "session_life (post_read r s) = session_life s"
  "session_life (post_timer t s) = session_life s"
  by (simp_all add: session_life_def close_count_def configure_def post_read_def post_timer_def)

lemma life_post_socket [simp]:
  "task_shakes t = 0 \<Longrightarrow> task_reads t = 0 \<Longrightarrow> t \<noteq> RunClose \<Longrightarrow>
     session_life (post_socket t s) = session_life s"
  by (simp add: session_life_def close_count_def post_socket_def)

lemma life_issue [simp]:
  "r \<noteq> SetNoDelay \<Longrightarrow> r \<noteq> SocketClose \<Longrightarrow> session_life (issue r s) = session_life s"
  by (simp add: session_life_def close_count_def issue_def)

lemma life_quiet [simp]:
  "session_life (cancelAllPendingOperations s) = session_life s"
  "session_life (cancelReadTimer s) = session_life s"
  "session_life (restartReadTimer s) = session_life s"
  "session_life (writeNext s) = session_life s"
  "session_life (handleMessage m s) = session_life s"
  "session_life (handleReadTimeOut err s) = session_life s"
  by (simp_all add: cancelAllPendingOperations_def cancelReadTimer_def restartReadTimer_def
      writeNext_def handleMessage_def handleReadTimeOut_def split: option.split list.split)

text \<open>\<open>close\<close> trades the connected flag for a close task.\<close>

lemma life_post_close:
  "isConnected s \<Longrightarrow> session_life (post_socket RunClose (s\<lparr>isConnected := False\<rparr>)) = session_life s"
  by (simp add: session_life_def close_count_def post_socket_def)

lemma life_close [simp]: "session_life (close s) = session_life s"
  by (simp add: close_def Let_def life_post_close)

lemma life_writes [simp]:
  "session_life (drop_session s) = session_life s"
  "session_life (send_message m s) = session_life s" "session_life (send payload s) = session_life s"
  "session_life (ping s) = session_life s" "session_life (pong s) = session_life s"
  "session_life (handleWrite m err s) = session_life s"
  "session_life (onMessageReceived m s) = session_life s"
  by (simp_all add: drop_session_def send_message_def send_def ping_def pong_def handleWrite_def
      onMessageReceived_def Let_def)

lemma life_run_calls [simp]: "session_life (run_calls cs s) = session_life s"
proof (induction cs arbitrary: s)
  case (Cons c cs)
  then show ?case by (cases c) simp_all
qed simp

lemma life_run_handler [simp]: "session_life (run_handler h s) = session_life s"
  by (cases h) (simp_all add: run_handler_def)

lemma life_start_read:
  "op_reads op = 1 \<Longrightarrow> op_shakes op = 0 \<Longrightarrow> session_life (start_op op s) =
     (session_life s)\<lparr>lf_reads := Suc (lf_reads (session_life s))\<rparr>"
  by (simp add: session_life_def close_count_def start_op_def)

lemma life_reads [simp]:
  "session_life (readNext s) = (session_life s)\<lparr>lf_reads := Suc (lf_reads (session_life s))\<rparr>"
  "session_life (asyncReadBody m s) = (session_life s)\<lparr>lf_reads := Suc (lf_reads (session_life s))\<rparr>"
  by (simp_all add: readNext_def asyncReadHeader_def asyncReadBody_def life_start_read)

lemma life_timer [simp]: "session_life (run_timer_task now rnd t s) = session_life s"
  by (cases t) (simp_all add: restart_timer_task_def cancel_timer_task_def timeout_task_def Let_def)

section \<open>The life of a session along a step\<close>

lemma life_open: "open_session ht opt s = Inr t \<Longrightarrow> t = s \<or>
  session_life t = \<lparr>lf_opens = Suc (lf_opens (session_life s)), lf_lives = Suc (lf_lives (session_life s)),
    lf_shakes = Suc (lf_shakes (session_life s)), lf_reads = lf_reads (session_life s)\<rparr>"
  by (auto simp: open_session_def configureSocket_def session_life_def close_count_def
      post_socket_def issue_def split: if_splits option.splits)

lemma life_complete:
  assumes "i < length (pendingOps s)"
  shows "session_life (post_socket (completion bo (pendingOps s ! i) err bs)
    (s\<lparr>pendingOps := remove_at i (pendingOps s)\<rparr>)) = session_life s"
  using sum_list_remove_at [OF assms, of op_shakes] sum_list_remove_at [OF assms, of op_reads]
  by (cases "pendingOps s ! i") (simp_all add: session_life_def close_count_def post_socket_def)

text \<open>Handling a read consumes it and starts at most one; handling a handshake consumes it, starts
  at most one read and marks the session connected.\<close>

lemma life_handleRead:
  "session_life (handleReadHeader m err s) = session_life s \<or>
   session_life (handleReadHeader m err s) = (session_life s)\<lparr>lf_reads := Suc (lf_reads (session_life s))\<rparr>"
  "session_life (handleReadBody m err s) = session_life s \<or>
   session_life (handleReadBody m err s) = (session_life s)\<lparr>lf_reads := Suc (lf_reads (session_life s))\<rparr>"
  by (simp_all add: handleReadHeader_def handleReadBody_def Let_def)

lemma life_connect:
  "session_life (s\<lparr>isConnected := True\<rparr>) = (session_life s)
     \<lparr>lf_lives := lf_lives (session_life s) + of_bool (\<not> isConnected s)\<rparr>"
  by (simp add: session_life_def close_count_def)

lemma life_handleHandshake:
  "session_life (handleHandshake err s) = (session_life s)
     \<lparr>lf_lives := lf_lives (session_life s) + of_bool (\<not> isConnected s),
      lf_reads := lf_reads (session_life s) + of_bool (err = None)\<rparr>"
  by (simp add: handleHandshake_def Let_def life_connect)

lemma life_pop:
  "socketStrand s = t # ts \<Longrightarrow> session_life s = \<lparr>lf_opens = lf_opens (session_life (s\<lparr>socketStrand := ts\<rparr>)),
     lf_lives = lf_lives (session_life (s\<lparr>socketStrand := ts\<rparr>)) + of_bool (t = RunClose),
     lf_shakes = task_shakes t + lf_shakes (session_life (s\<lparr>socketStrand := ts\<rparr>)),
     lf_reads = task_reads t + lf_reads (session_life (s\<lparr>socketStrand := ts\<rparr>))\<rparr>"
  by (simp add: session_life_def close_count_def)

lemma life_socket_close:
  "session_life (issue SocketClose s) = (session_life s)\<lparr>lf_lives := Suc (lf_lives (session_life s))\<rparr>"
  by (simp add: session_life_def close_count_def issue_def)

lemma life_start_shake:
  "session_life (start_op (OpHandshake ht) s) = (session_life s)\<lparr>lf_shakes := Suc (lf_shakes (session_life s))\<rparr>"
  "session_life (start_op (OpWrite m) s) = session_life s"
  by (simp_all add: session_life_def close_count_def start_op_def)

lemma life_other_tasks:
  "session_life (asyncHandshake ht s) = (session_life s)\<lparr>lf_shakes := Suc (lf_shakes (session_life s))\<rparr>"
  "session_life (asyncWrite m s) = session_life s"
  "session_life (close_task s) = (session_life s)\<lparr>lf_lives := Suc (lf_lives (session_life s))\<rparr>"
  by (simp_all add: asyncHandshake_def asyncWrite_def close_task_def Let_def life_socket_close
      life_start_shake)

lemma life_read_handlers:
  "lf_opens (session_life (handleReadHeader m err s)) = lf_opens (session_life s)"
  "lf_lives (session_life (handleReadHeader m err s)) = lf_lives (session_life s)"
  "lf_shakes (session_life (handleReadHeader m err s)) = lf_shakes (session_life s)"
  "lf_reads (session_life (handleReadHeader m err s)) \<le> Suc (lf_reads (session_life s))"
  "lf_opens (session_life (handleReadBody m err s)) = lf_opens (session_life s)"
  "lf_lives (session_life (handleReadBody m err s)) = lf_lives (session_life s)"
  "lf_shakes (session_life (handleReadBody m err s)) = lf_shakes (session_life s)"
  "lf_reads (session_life (handleReadBody m err s)) \<le> Suc (lf_reads (session_life s))"
  by (simp_all add: handleReadHeader_def handleReadBody_def Let_def)

lemmas life_tasks = life_other_tasks life_read_handlers life_handleHandshake

text \<open>What a task of the socket strand does to the counts of the session it was taken from.\<close>

lemma life_task_opens: "lf_opens (session_life (run_socket_task t s)) = lf_opens (session_life s)"
  by (cases t) (simp_all add: life_tasks)

lemma life_task_shakes: "lf_shakes (session_life (run_socket_task t s)) + task_shakes t =
    lf_shakes (session_life s) + task_shakes t + of_bool (\<exists>ht. t = RunAsyncHandshake ht)"
  by (cases t) (simp_all add: life_tasks)

lemma life_task_reads: "lf_reads (session_life (run_socket_task t s)) \<le>
    lf_reads (session_life s) + task_reads t + of_bool (\<exists>err. t = OnHandshake err)"
  by (cases t) (simp_all add: life_tasks)

lemma life_task_lives: "lf_lives (session_life (run_socket_task t s)) \<le> lf_lives (session_life s) +
    of_bool (t = RunClose) + of_bool ((\<exists>err. t = OnHandshake err) \<and> \<not> isConnected s)"
  by (cases t) (simp_all add: life_tasks)

section \<open>Invariants\<close>

text \<open>Reads and handshakes under way never outnumber the calls of \<open>open\<close>.\<close>

definition reader_inv :: "'x session \<Rightarrow> bool" where
  "reader_inv s \<longleftrightarrow> lf_reads (session_life s) + lf_shakes (session_life s) \<le> lf_opens (session_life s)"

definition close_inv :: "'x session \<Rightarrow> bool" where
  "close_inv s \<longleftrightarrow> lf_lives (session_life s) + lf_shakes (session_life s) \<le> 2 * lf_opens (session_life s)"

definition orderly_inv :: "'x session \<Rightarrow> bool" where
  "orderly_inv s \<longleftrightarrow> lf_lives (session_life s) \<le> lf_opens (session_life s)"

text \<open>A step is orderly if no handshake is handled after the session has been closed.\<close>

definition orderly :: "'x session \<Rightarrow> 'x event \<Rightarrow> bool" where
  "orderly s e \<longleftrightarrow> (case (e, socketStrand s) of
      (SocketStrand, OnHandshake _ # _) \<Rightarrow> isConnected s | _ \<Rightarrow> True)"

lemma socket_step_inv:
  assumes "socketStrand s = t # ts" "u = run_socket_task t (s\<lparr>socketStrand := ts\<rparr>)"
  shows "reader_inv s \<Longrightarrow> reader_inv u" and "close_inv s \<Longrightarrow> close_inv u"
    and "(\<forall>err. t \<noteq> OnHandshake err) \<or> isConnected s \<Longrightarrow> orderly_inv s \<Longrightarrow> orderly_inv u"
proof -
  note facts = life_task_opens [of t "s\<lparr>socketStrand := ts\<rparr>"] life_task_shakes [of t "s\<lparr>socketStrand := ts\<rparr>"]
    life_task_reads [of t "s\<lparr>socketStrand := ts\<rparr>"] life_task_lives [of t "s\<lparr>socketStrand := ts\<rparr>"]
  note defs = reader_inv_def close_inv_def orderly_inv_def
  show "reader_inv s \<Longrightarrow> reader_inv u"
    using facts(1-3) unfolding defs assms(2) life_pop [OF assms(1)] by (cases t) simp_all
  show "close_inv s \<Longrightarrow> close_inv u"
    using facts(1,2,4) unfolding defs assms(2) life_pop [OF assms(1)]
    by (cases t; cases "isConnected s") simp_all
  show "(\<forall>err. t \<noteq> OnHandshake err) \<or> isConnected s \<Longrightarrow> orderly_inv s \<Longrightarrow> orderly_inv u"
    using facts(1,4) unfolding defs assms(2) life_pop [OF assms(1)]
    by (cases t; cases "isConnected s") simp_all
qed

lemma open_inv:
  assumes "open_session ht opt s = Inr t"
  shows "reader_inv s \<Longrightarrow> reader_inv t" and "close_inv s \<Longrightarrow> close_inv t"
    and "orderly_inv s \<Longrightarrow> orderly_inv t"
  using life_open [OF assms] by (auto simp: reader_inv_def close_inv_def orderly_inv_def)

lemma inv_of_life:
  "session_life t = session_life s \<Longrightarrow> reader_inv s \<Longrightarrow> reader_inv t"
  "session_life t = session_life s \<Longrightarrow> close_inv s \<Longrightarrow> close_inv t"
  "session_life t = session_life s \<Longrightarrow> orderly_inv s \<Longrightarrow> orderly_inv t"
  by (simp_all add: reader_inv_def close_inv_def orderly_inv_def)

text \<open>Every event but a task of the socket strand and \<open>open\<close> leaves the counts alone.\<close>

lemma life_step_cases:
  assumes "session_step bo s e t"
  obtains (socket) t' ts where "e = SocketStrand" "socketStrand s = t' # ts"
      "t = run_socket_task t' (s\<lparr>socketStrand := ts\<rparr>)"
  | (opened) ht opt where "e = Open ht opt" "open_session ht opt s = Inr t"
  | (same) "session_life t = session_life s"
  using assms by cases (auto simp: life_complete)

lemma life_step_inv:
  assumes "session_step bo s e t"
  shows "reader_inv s \<Longrightarrow> reader_inv t" and "close_inv s \<Longrightarrow> close_inv t"
    and "orderly s e \<Longrightarrow> orderly_inv s \<Longrightarrow> orderly_inv t"
proof -
  show "reader_inv s \<Longrightarrow> reader_inv t"
    using assms by (cases rule: life_step_cases) (auto intro: socket_step_inv open_inv inv_of_life)
  show "close_inv s \<Longrightarrow> close_inv t"
    using assms by (cases rule: life_step_cases) (auto intro: socket_step_inv open_inv inv_of_life)
  assume "orderly s e"
  with assms show "orderly_inv s \<Longrightarrow> orderly_inv t"
    by (cases rule: life_step_cases)
      (auto simp: orderly_def split: socket_task.splits intro: socket_step_inv open_inv inv_of_life)
qed

definition session_next_orderly :: "byte_order \<Rightarrow> 'x session \<Rightarrow> 'x session \<Rightarrow> bool" where
  "session_next_orderly bo s t \<longleftrightarrow> (\<exists>e. session_step bo s e t \<and> orderly s e)"

lemma life_create: "session_life Session_create = \<lparr>lf_opens = 0, lf_lives = 0, lf_shakes = 0, lf_reads = 0\<rparr>"
  by (simp add: session_life_def close_count_def Session_create_def)

interpretation session_reader: inductive_invariant session_start "session_next bo" reader_inv for bo
  by unfold_locales (auto simp: session_start_def session_next_def reader_inv_def [of Session_create]
      life_create intro: life_step_inv)

interpretation session_closer: inductive_invariant session_start "session_next bo" close_inv for bo
  by unfold_locales (auto simp: session_start_def session_next_def close_inv_def [of Session_create]
      life_create intro: life_step_inv)

interpretation session_orderly:
  inductive_invariant session_start "session_next_orderly bo" orderly_inv for bo
  by unfold_locales (auto simp: session_start_def session_next_orderly_def
      orderly_inv_def [of Session_create] life_create intro: life_step_inv)

section \<open>Received messages\<close>

lemma onMessageReceived_cases:
  "onMessageReceived m s =
     (if Message_type m = type_code Ping then send_message (Message_of_type Pong) s
      else if Message_type m = type_code Data then
        (case receiveHandler s of
           Some h \<Rightarrow> if isConnected s then s\<lparr>readStrand := readStrand s @ [(h, msg_payload m)]\<rparr> else s
         | None \<Rightarrow> s)
      else s)"
  by (auto simp: onMessageReceived_def valid_type pong_def handleMessage_def post_read_def Let_def
      split: option.split)

section \<open>Properties\<close>

definition open_count :: "'x session \<Rightarrow> nat" where
  "open_count s = count_list (issued s) SetNoDelay"

definition reads_outstanding :: "'x session \<Rightarrow> nat" where
  "reads_outstanding s = lf_reads (session_life s)"

lemmas life_eval [run_simps] = session_life_def close_count_def open_count_def reads_outstanding_def

text \<open>C18. Single reader: in every reachable state the reads pending or awaiting their handler,
  with the handshakes under way, are at most as many as the successful calls of \<open>open\<close>; a session
  opened once never has two overlapping reads.\<close>

theorem session_single_reader:
  "session_reachable bo s \<Longrightarrow> reads_outstanding s + lf_shakes (session_life s) \<le> open_count s"
  using session_reader.reachable_inv [of bo s]
  by (simp add: reader_inv_def reads_outstanding_def open_count_def) (simp add: session_life_def)

lemma handshaken_run:
  "\<exists>s. run (session_exec bo) Session_create (handshake_events ClientSide) = Some s \<and>
     reads_outstanding s = 1 \<and> open_count s = 1 \<and> isConnected s"
  by (simp add: run_simps)

theorem session_single_reader_witness:
  "\<exists>s::nat session. session_reachable LittleEndian s \<and> reads_outstanding s = 1 \<and> open_count s = 1 \<and>
     reads_outstanding s + lf_shakes (session_life s) \<le> 1"
proof -
  obtain s :: "nat session" where s: "run (session_exec LittleEndian) Session_create
      (handshake_events ClientSide) = Some s" "reads_outstanding s = 1" "open_count s = 1"
    using handshaken_run by blast
  with session_single_reader [OF session_reachable_run [OF s(1)]] session_reachable_run
  show ?thesis by metis
qed

text \<open>The close handler runs at most twice for each call of \<open>open\<close>, whatever happens.\<close>

lemma session_close_bound: "session_reachable bo s \<Longrightarrow> close_count s \<le> 2 * open_count s"
  using session_closer.reachable_inv [of bo s]
  by (simp add: close_inv_def open_count_def) (simp add: session_life_def)

lemma session_close_bound_witness:
  "\<exists>s::nat session. session_reachable LittleEndian s \<and> open_count s = 1 \<and> close_count s \<le> 2"
proof -
  obtain s :: "nat session" where s: "run (session_exec LittleEndian) Session_create
      (handshake_events ClientSide) = Some s" "open_count s = 1"
    using handshaken_run by blast
  with session_close_bound [OF session_reachable_run [OF s(1)]] session_reachable_run
  show ?thesis by (metis mult.right_neutral)
qed

text \<open>As long as no handshake is handled after its session was closed, the close handler runs
  at most once for each call of \<open>open\<close>, and not at all for the opening that still lasts.\<close>

lemma orderly_close_once:
  "reach session_start (session_next_orderly bo) s \<Longrightarrow>
     close_count s + of_bool (isConnected s) \<le> open_count s"
  using session_orderly.reachable_inv [of bo s]
  by (cases "isConnected s") (auto simp: orderly_inv_def open_count_def session_life_def)

lemma orderly_idle: "socketStrand s = [] \<Longrightarrow> orderly s e"
  by (cases e) (simp_all add: orderly_def)

lemma orderly_open: "socketStrand s = [] \<Longrightarrow> session_next_orderly bo s t \<longleftrightarrow> session_next bo s t"
  by (simp add: session_next_orderly_def session_next_def orderly_idle)

lemma orderly_close_once_witness:
  "\<exists>s::nat session. reach session_start (session_next_orderly LittleEndian) s \<and> open_count s = 1 \<and>
     isConnected s \<and> close_count s + 1 \<le> 1"
proof -
  obtain s :: "nat session" where s: "open_session ClientSide None Session_create = Inr s"
    "open_count s = 1" "isConnected s" by (simp add: run_simps)
  have "session_next_orderly LittleEndian Session_create s"
    by (simp add: orderly_open Session_create_def)
      (use s(1) in \<open>auto simp: session_next_def Session_create_def intro: session_step.open_ok\<close>)
  then have r: "reach session_start (session_next_orderly LittleEndian) s"
    by (rule reach.reach_step [rotated]) (simp add: reach.reach_init session_start_def)
  from orderly_close_once [OF r] r s(2,3) show ?thesis by auto
qed

text \<open>\<open>close\<close>: on a connected session it clears the flag and posts the cancellation and the
  close task, in this order; on a session that is not connected it posts the cancellation only. It
  touches neither the queue nor the socket itself.\<close>

lemma close_spec:
  "close s = s\<lparr>isConnected := False,
     socketStrand := socketStrand s @ (if isConnected s then [RunCancel, RunClose] else [RunCancel]),
     readTimerStrand := readTimerStrand s @ [RunCancelTimer]\<rparr>"
  by (cases "isConnected s") (simp_all add: close_def cancelAllPendingOperations_def
      cancelReadTimer_def post_socket_def post_timer_def Let_def)

text \<open>What a received message does: a ping queues a pong and delivers nothing, a pong does
  nothing, a data message is handed to the receive handler if one is set and the session is
  connected, and a message of any other type is dropped; the payload of a ping or pong is ignored.\<close>

lemma received_message_spec:
  "onMessageReceived m s =
     (if Message_type m = type_code Ping then send_message (Message_of_type Pong) s
      else if Message_type m = type_code Data then
        (case receiveHandler s of
           Some h \<Rightarrow> if isConnected s then s\<lparr>readStrand := readStrand s @ [(h, msg_payload m)]\<rparr> else s
         | None \<Rightarrow> s)
      else s)"
  by (rule onMessageReceived_cases)

text \<open>The read timeout: when the timer has fired, the session is closed exactly if at least one
  second (\<open>10 ^ 9\<close> ns) has passed since the clock value stored by the last read; otherwise, also when
  the clock was set back, it pings and restarts the timer.\<close>

lemma timeout_closes_after_one_second:
  "run_timer_task now rnd RunTimeOut s =
     (if now - lastTimeRead s \<ge> 10 ^ 9 then close s else restartReadTimer (ping s))"
proof -
  have "elapsed_ms now l > MaxTimeOut \<longleftrightarrow> now - l \<ge> 10 ^ 9" for l
  proof (cases "now - l > 0")
    case True
    then show ?thesis by (simp add: elapsed_ms_def MaxTimeOut_def PingTimeOut_def) arith
  next
    case False
    then have "sgn (now - l) * (\<bar>now - l\<bar> div 1000000) \<le> 0"
      by (simp add: mult_nonpos_nonneg sgn_if)
    with False show ?thesis by (simp add: elapsed_ms_def MaxTimeOut_def PingTimeOut_def)
  qed
  then show ?thesis by (simp add: timeout_task_def Let_def)
qed

end
