(* ===== verification/SessionStream.thy ===== *)
theory SessionStream
  imports SessionLifecycle
begin

text \<open>
  The read side of \<open>Session\<close> against the bytes of a TCP stream.  \<open>parse_frames\<close> is the
  specification: what a stream means as a sequence of messages.  \<open>feed\<close> drives the model of the
  session with a stream: whenever a read is pending and enough bytes are there, the read completes
  with exactly the bytes it asked for (what asio documents for \<open>async_read\<close>) and the tasks of the
  socket strand run; every state it produces is reached by events of the session.  The theorems say
  that the session implements the specification on every stream, and that what one session writes
  another receives.
\<close>

section \<open>The specification: messages in a stream\<close>

datatype outcome =
    NeedHeader "byte list"          \<comment> \<open>waiting for a header, with the bytes not yet read\<close>
  | NeedBody Header "byte list"     \<comment> \<open>waiting for the rest of a payload\<close>
  | Rejected "byte list"            \<comment> \<open>a bad header or payload; the bytes behind it\<close>

function parse_frames :: "byte_order \<Rightarrow> byte list \<Rightarrow> (u16 \<times> byte list) list \<times> outcome" where
  "parse_frames bo bs =
    (if length bs < HeaderSize then ([], NeedHeader bs)
     else let h = header_of_bytes bo (take HeaderSize bs);
              r = drop HeaderSize bs;
              t = pi_type (h_pInfo h);
              n = unat (pi_size (h_pInfo h))
          in if h_crc h \<noteq> 0 then ([], Rejected r)
             else if n = 0 then (let (ms, out) = parse_frames bo r in ((t, []) # ms, out))
             else if length r < n then ([], NeedBody h r)
             else if pi_crc (h_pInfo h) \<noteq> 0 then ([], Rejected (drop n r))
             else (let (ms, out) = parse_frames bo (drop n r) in ((t, take n r) # ms, out)))"
  by pat_completeness auto
termination
  by (relation "measure (\<lambda>(bo, bs). length bs)") (auto simp: HeaderSize_def)

declare parse_frames.simps [simp del]

text \<open>The messages of a sequence of frames, followed by anything, are read back in order.\<close>

definition sendable :: "message \<Rightarrow> bool" where
  "sendable m \<longleftrightarrow> described m \<and> well_sized (msg_payload m) \<and> Buffer_size (msg_payload m) < 2 ^ 32"

definition frame_of :: "message \<Rightarrow> u16 \<times> byte list" where
  "frame_of m = (Message_type m, Buffer_view (msg_payload m))"

lemma unat_size_described:
  "sendable m \<Longrightarrow> unat (pi_size (h_pInfo (msg_header m))) = length (Buffer_view (msg_payload m))"
  by (simp add: sendable_def described_def length_Buffer_view unat_of_nat)

lemma parse_frame:
  assumes "sendable m"
  shows "parse_frames bo (frame_bytes bo m @ rest) =
    (let (ms, out) = parse_frames bo rest in (frame_of m # ms, out))"
proof -
  let ?bs = "frame_bytes bo m @ rest" and ?p = "Buffer_view (msg_payload m)"
  have h: "take HeaderSize ?bs = header_bytes bo (msg_header m)" "drop HeaderSize ?bs = ?p @ rest"
    by (simp_all add: frame_bytes_def)
  have ok: "h_crc (msg_header m) = 0" "pi_crc (h_pInfo (msg_header m)) = 0"
    using assms by (auto simp: sendable_def described_def)
  show ?thesis
    using unat_size_described [OF assms]
    by (subst parse_frames.simps)
      (auto simp: h ok header.dec_enc Let_def frame_of_def Message_type_def frame_bytes_def
        split: prod.split)
qed

lemma parse_frames_concat:
  "\<forall>m\<in>set msgs. sendable m \<Longrightarrow> parse_frames bo (concat (map (frame_bytes bo) msgs) @ rest) =
     (map frame_of msgs @ fst (parse_frames bo rest), snd (parse_frames bo rest))"
  by (induction msgs) (auto simp: parse_frame split: prod.split)

section \<open>Driving the session with a stream\<close>

fun find_read :: "asio_op list \<Rightarrow> (nat \<times> nat) option" where
  "find_read [] = None"
| "find_read (OpReadHeader m # ops) = Some (0, HeaderSize)"
| "find_read (OpReadBody m # ops) = Some (0, Buffer_size (msg_payload m))"
| "find_read (op # ops) = map_option (\<lambda>(i, n). (Suc i, n)) (find_read ops)"

fun run_strand :: "nat \<Rightarrow> 'x session \<Rightarrow> 'x session" where
  "run_strand 0 s = s"
| "run_strand (Suc k) s = (case socketStrand s of
     [] \<Rightarrow> s | t # ts \<Rightarrow> run_strand k (run_socket_task t (s\<lparr>socketStrand := ts\<rparr>)))"

definition complete_read :: "byte_order \<Rightarrow> nat \<Rightarrow> byte list \<Rightarrow> 'x session \<Rightarrow> 'x session" where
  "complete_read bo i bs s = (let s1 = post_socket (completion bo (pendingOps s ! i) None bs)
       (s\<lparr>pendingOps := remove_at i (pendingOps s)\<rparr>)
     in run_strand (length (socketStrand s1)) s1)"

function feed :: "byte_order \<Rightarrow> 'x session \<Rightarrow> byte list \<Rightarrow> 'x session \<times> byte list" where
  "feed bo s bs = (case find_read (pendingOps s) of
      None \<Rightarrow> (s, bs)
    | Some (i, n) \<Rightarrow> if 0 < n \<and> n \<le> length bs
        then feed bo (complete_read bo i (take n bs) s) (drop n bs) else (s, bs))"
  by pat_completeness auto
termination
  by (relation "measure (\<lambda>(bo, s, bs). length bs)") auto

declare feed.simps [simp del]

lemma find_read_length: "find_read ops = Some (i, n) \<Longrightarrow> i < length ops"
  by (induction ops arbitrary: i rule: find_read.induct) auto

text \<open>\<open>feed\<close> takes only steps of the session.\<close>

lemma run_strand_run: "\<exists>es. run (session_exec bo) s es = Some (run_strand k s)"
proof (induction k arbitrary: s)
  case 0
  show ?case by (rule exI [of _ "[]"]) simp
next
  case (Suc k)
  show ?case
  proof (cases "socketStrand s")
    case Nil
    then show ?thesis by (intro exI [of _ "[]"]) simp
  next
    case (Cons t ts)
    obtain es where "run (session_exec bo) (run_socket_task t (s\<lparr>socketStrand := ts\<rparr>)) es =
        Some (run_strand k (run_socket_task t (s\<lparr>socketStrand := ts\<rparr>)))" using Suc by blast
    with Cons show ?thesis by (intro exI [of _ "SocketStrand # es"]) simp
  qed
qed

lemma feed_run: "\<exists>es. run (session_exec bo) s es = Some (fst (feed bo s bs))"
proof (induction bo s bs rule: feed.induct)
  case (1 bo s bs)
  show ?case
  proof (cases "\<exists>i n. find_read (pendingOps s) = Some (i, n) \<and> 0 < n \<and> n \<le> length bs")
    case False
    then show ?thesis
      by (intro exI [of _ "[]"]) (auto simp: feed.simps [of bo s] split: option.split)
  next
    case True
    then obtain i n where f: "find_read (pendingOps s) = Some (i, n)" "0 < n \<and> n \<le> length bs"
      by blast
    let ?s1 = "post_socket (completion bo (pendingOps s ! i) None (take n bs))
       (s\<lparr>pendingOps := remove_at i (pendingOps s)\<rparr>)"
    obtain es where es: "run (session_exec bo) ?s1 es = Some (complete_read bo i (take n bs) s)"
      using run_strand_run [of bo ?s1] by (auto simp: complete_read_def Let_def)
    obtain es' where "run (session_exec bo) (complete_read bo i (take n bs) s) es' =
        Some (fst (feed bo (complete_read bo i (take n bs) s) (drop n bs)))"
      using 1 [OF f(1) refl f(2)] by blast
    with es f find_read_length [OF f(1)] show ?thesis
      by (intro exI [of _ "Complete i None (take n bs) # es @ es'"])
        (simp add: run_append feed.simps [of bo s])
  qed
qed

section \<open>The session while it reads\<close>

definition received_buffer :: "byte list \<Rightarrow> buffer" where
  "received_buffer bs = \<lparr>buf_data = bs, buf_size = length bs, buf_busy = False\<rparr>"

text \<open>Connected, waiting for one read, with nothing but writes posted to the socket strand.\<close>

definition reading :: "'x receive_handler \<Rightarrow> asio_op \<Rightarrow> 'x session \<Rightarrow> bool" where
  "reading h op s \<longleftrightarrow> isConnected s \<and> receiveHandler s = Some h \<and>
     (\<exists>ws. socketStrand s = map RunAsyncWrite ws) \<and>
     (\<exists>us vs. pendingOps s = us @ op # vs \<and> (\<forall>o'\<in>set (us @ vs). op_reads o' = 0))"

text \<open>The same session after its read has completed and its strand has run.\<close>

definition resting :: "'x receive_handler \<Rightarrow> 'x session \<Rightarrow> bool" where
  "resting h s \<longleftrightarrow> isConnected s \<and> receiveHandler s = Some h \<and>
     (\<exists>ws. socketStrand s = map RunAsyncWrite ws) \<and> (\<forall>o'\<in>set (pendingOps s). op_reads o' = 0)"

text \<open>What a session has made of a list of messages: data is handed to the receive handler in
  order, and each ping puts a pong into the queue among the other control messages.\<close>

definition deliver :: "'x receive_handler \<Rightarrow> u16 \<times> byte list \<Rightarrow> ('x receive_handler \<times> buffer) list" where
  "deliver h m = (if fst m = type_code Data then [(h, received_buffer (snd m))] else [])"

definition absorbed :: "'x receive_handler \<Rightarrow> (u16 \<times> byte list) list \<Rightarrow> 'x session \<Rightarrow> 'x session \<Rightarrow> bool" where
  "absorbed h ms s t \<longleftrightarrow>
     readStrand t = readStrand s @ concat (map (deliver h) ms) \<and>
     filter (\<lambda>m. \<not> is_control m) (writeQueue t) = filter (\<lambda>m. \<not> is_control m) (writeQueue s) \<and>
     count_list (writeQueue t) (Message_of_type Pong) =
       count_list (writeQueue s) (Message_of_type Pong) + length (filter (\<lambda>m. fst m = type_code Ping) ms)"

lemma absorbed_Nil: "readStrand t = readStrand s \<Longrightarrow> writeQueue t = writeQueue s \<Longrightarrow> absorbed h [] s t"
  by (simp add: absorbed_def)

lemma absorbed_trans: "absorbed h ms s t \<Longrightarrow> absorbed h ms' t u \<Longrightarrow> absorbed h (ms @ ms') s u"
  by (simp add: absorbed_def)

lemma absorbed_same: "readStrand r = readStrand s \<Longrightarrow> writeQueue r = writeQueue s \<Longrightarrow>
    absorbed h ms r t \<longleftrightarrow> absorbed h ms s t"
  by (simp add: absorbed_def)

lemma find_read_at:
  assumes "\<forall>o'\<in>set us. op_reads o' = 0"
  shows "find_read (us @ OpReadHeader m # vs) = Some (length us, HeaderSize)"
    and "find_read (us @ OpReadBody m # vs) = Some (length us, Buffer_size (msg_payload m))"
proof -
  have "find_read (op # ops) = map_option (\<lambda>(i, n). (Suc i, n)) (find_read ops)"
    if "op_reads op = 0" for op ops using that by (cases op) auto
  with assms show "find_read (us @ OpReadHeader m # vs) = Some (length us, HeaderSize)"
    and "find_read (us @ OpReadBody m # vs) = Some (length us, Buffer_size (msg_payload m))"
    by (induction us) auto
qed

lemma run_strand_writes:
  "socketStrand s = map RunAsyncWrite ws @ [t] \<Longrightarrow> run_strand (Suc (length ws)) s =
     run_socket_task t (s\<lparr>socketStrand := [], pendingOps := pendingOps s @ map OpWrite ws,
       issued := issued s @ map AsyncWrite ws\<rparr>)"
proof (induction ws arbitrary: s)
  case (Cons w ws)
  let ?s' = "asyncWrite w (s\<lparr>socketStrand := map RunAsyncWrite ws @ [t]\<rparr>)"
  have "run_strand (Suc (length (w # ws))) s = run_strand (Suc (length ws)) ?s'"
    using Cons.prems by simp
  also have "\<dots> = run_socket_task t (?s'\<lparr>socketStrand := [],
      pendingOps := pendingOps ?s' @ map OpWrite ws, issued := issued ?s' @ map AsyncWrite ws\<rparr>)"
    by (rule Cons.IH) (simp add: asyncWrite_def start_op_def issue_def)
  finally show ?case by (simp add: asyncWrite_def start_op_def issue_def)
qed simp

text \<open>One completed read: the handler runs in a resting session that differs from the old one only
  in the writes that have been issued.\<close>

lemma feed_read:
  assumes "reading h op s" "op_reads op = 1"
    and "find_read [op] = Some (0, n)" "0 < n" "n \<le> length bs"
  shows "\<exists>r. resting h r \<and> readStrand r = readStrand s \<and> writeQueue r = writeQueue s \<and>
    feed bo s bs = feed bo (run_socket_task (completion bo op None (take n bs)) r) (drop n bs)"
proof -
  from assms(1) obtain ws us vs where s: "socketStrand s = map RunAsyncWrite ws"
    "pendingOps s = us @ op # vs" "\<forall>o'\<in>set (us @ vs). op_reads o' = 0"
    "isConnected s" "receiveHandler s = Some h" by (auto simp: reading_def)
  have find: "find_read (pendingOps s) = Some (length us, n)"
    using s(2,3) assms(2,3) find_read_at [of us] by (cases op) auto
  let ?t = "completion bo op None (take n bs)"
  let ?r = "s\<lparr>socketStrand := [], pendingOps := us @ vs @ map OpWrite ws,
    issued := issued s @ map AsyncWrite ws\<rparr>"
  have "complete_read bo (length us) (take n bs) s = run_socket_task ?t ?r"
    using run_strand_writes [of "s\<lparr>pendingOps := us @ vs, socketStrand := map RunAsyncWrite ws @ [?t]\<rparr>" ws ?t] s(1,2)
    by (simp add: complete_read_def post_socket_def remove_at_append Let_def del: run_strand.simps)
  then have "feed bo s bs = feed bo (run_socket_task ?t ?r) (drop n bs)"
    using find assms(4,5) by (simp add: feed.simps [of bo s])
  moreover have "resting h ?r" using s by (auto simp: resting_def)
  ultimately show ?thesis by (intro exI [of _ ?r]) simp
qed

lemma feed_waits:
  assumes "reading h op s" "op_reads op = 1"
    and "find_read [op] = Some (0, n)" "length bs < n"
  shows "feed bo s bs = (s, bs)"
proof -
  from assms(1) obtain us vs where s: "pendingOps s = us @ op # vs"
    "\<forall>o'\<in>set (us @ vs). op_reads o' = 0" by (auto simp: reading_def)
  have "find_read (pendingOps s) = Some (length us, n)"
    using s assms(2,3) find_read_at [of us] by (cases op) auto
  with assms(4) show ?thesis by (simp add: feed.simps [of bo s])
qed

section \<open>Handling what was read\<close>

lemma strand_frame [simp]:
  "readStrand (cancelReadTimer s) = readStrand s" "writeQueue (cancelReadTimer s) = writeQueue s"
  "readStrand (readNext s) = readStrand s" "writeQueue (readNext s) = writeQueue s"
  "readStrand (asyncReadBody m s) = readStrand s" "writeQueue (asyncReadBody m s) = writeQueue s"
  "readStrand (close s) = readStrand s" "writeQueue (close s) = writeQueue s"
  "pendingOps (close s) = pendingOps s" "pendingOps (cancelReadTimer s) = pendingOps s"
  "resting h (cancelReadTimer s) = resting h s"
  by (simp_all add: resting_def cancelReadTimer_def readNext_def asyncReadHeader_def asyncReadBody_def
      restartReadTimer_def post_timer_def start_op_def issue_def close_def post_socket_def
      cancelAllPendingOperations_def Let_def)

lemma reading_next:
  "resting h r \<Longrightarrow> reading h (OpReadHeader Message_default) (readNext r)"
  "resting h r \<Longrightarrow> reading h (OpReadBody m) (asyncReadBody m r)"
proof -
  have "\<exists>us vs. pendingOps r @ [op] = us @ op # vs \<and> (\<forall>o'\<in>set (us @ vs). op_reads o' = 0)"
    if "resting h r" for op
    using that by (intro exI [of _ "pendingOps r"] exI [of _ "[]"]) (simp add: resting_def)
  then show "resting h r \<Longrightarrow> reading h (OpReadHeader Message_default) (readNext r)"
    and "resting h r \<Longrightarrow> reading h (OpReadBody m) (asyncReadBody m r)"
    by (simp_all add: resting_def reading_def readNext_def asyncReadHeader_def asyncReadBody_def
      restartReadTimer_def post_timer_def start_op_def issue_def)
qed

lemma resting_send:
  assumes "resting h r"
  shows "resting h (send_message m r)"
proof -
  from assms obtain ws where ws: "socketStrand r = map RunAsyncWrite ws" by (auto simp: resting_def)
  then have "socketStrand (send_message m r) = map RunAsyncWrite ws \<or>
      socketStrand (send_message m r) = map RunAsyncWrite (ws @ [m])"
    by (auto simp: send_message_def writeNext_def post_socket_def Let_def)
  moreover have "isConnected (send_message m r) = isConnected r"
    "receiveHandler (send_message m r) = receiveHandler r"
    "pendingOps (send_message m r) = pendingOps r"
    by (auto simp: send_message_def writeNext_def post_socket_def Let_def split: list.split)
  ultimately show ?thesis using assms unfolding resting_def by metis
qed

lemma absorbed_pong:
  "absorbed h [(type_code Ping, bs)] r (send_message (Message_of_type Pong) r)"
proof -
  have "readStrand (send_message (Message_of_type Pong) r) = readStrand r"
    by (auto simp: send_message_def writeNext_def post_socket_def Let_def split: list.split)
  then show ?thesis
    by (cases "writeQueue r") (auto simp: absorbed_def deliver_def send_message_def writeNext_def
        post_socket_def is_control_def Let_def)
qed

lemma receive_message:
  assumes "resting h r" "msg_payload m = received_buffer bs"
  shows "resting h (onMessageReceived m r)"
    and "absorbed h [(Message_type m, bs)] r (onMessageReceived m r)"
proof -
  have conn: "isConnected r" "receiveHandler r = Some h" using assms(1) by (auto simp: resting_def)
  show "resting h (onMessageReceived m r)"
    using assms(1) resting_send [OF assms(1)]
    by (auto simp: onMessageReceived_cases conn resting_def)
  show "absorbed h [(Message_type m, bs)] r (onMessageReceived m r)"
    using absorbed_pong [of h bs r] assms(2)
    by (auto simp: onMessageReceived_cases conn) (auto simp: absorbed_def deliver_def)
qed

text \<open>A header: reject, take an empty message, or read the payload.\<close>

lemma handle_header:
  assumes "resting h r" "msg_payload m = Buffer_default"
  defines "u \<equiv> handleReadHeader m None r"
  shows "h_crc (msg_header m) \<noteq> 0 \<Longrightarrow> u = close (cancelReadTimer r)"
    and "h_crc (msg_header m) = 0 \<Longrightarrow> pi_size (h_pInfo (msg_header m)) = 0 \<Longrightarrow>
      reading h (OpReadHeader Message_default) u \<and> absorbed h [(Message_type m, [])] r u"
    and "h_crc (msg_header m) = 0 \<Longrightarrow> pi_size (h_pInfo (msg_header m)) \<noteq> 0 \<Longrightarrow>
      reading h (OpReadBody (fitToSize m)) u \<and> absorbed h [] r u"
proof -
  have r: "resting h (cancelReadTimer r)" using assms(1) by simp
  have "msg_payload m = received_buffer []"
    using assms(2) by (simp add: received_buffer_def buffer_defs)
  note rm = receive_message [OF r this]
  show "h_crc (msg_header m) \<noteq> 0 \<Longrightarrow> u = close (cancelReadTimer r)"
    by (simp add: u_def handleReadHeader_def verifyHeader_def Let_def)
  show "h_crc (msg_header m) = 0 \<Longrightarrow> pi_size (h_pInfo (msg_header m)) = 0 \<Longrightarrow>
      reading h (OpReadHeader Message_default) u \<and> absorbed h [(Message_type m, [])] r u"
    using reading_next(1) [OF rm(1)] rm(2)
    by (simp add: u_def handleReadHeader_def verifyHeader_def isEmpty_def Let_def absorbed_def)
  show "h_crc (msg_header m) = 0 \<Longrightarrow> pi_size (h_pInfo (msg_header m)) \<noteq> 0 \<Longrightarrow>
      reading h (OpReadBody (fitToSize m)) u \<and> absorbed h [] r u"
    using reading_next(2) [OF r] by (simp add: u_def handleReadHeader_def verifyHeader_def
        isEmpty_def Let_def absorbed_def)
qed

lemma handle_body:
  assumes "resting h r" "msg_payload m = received_buffer bs"
  defines "u \<equiv> handleReadBody m None r"
  shows "pi_crc (h_pInfo (msg_header m)) \<noteq> 0 \<Longrightarrow> u = close (cancelReadTimer r)"
    and "pi_crc (h_pInfo (msg_header m)) = 0 \<Longrightarrow>
      reading h (OpReadHeader Message_default) u \<and> absorbed h [(Message_type m, bs)] r u"
proof -
  have r: "resting h (cancelReadTimer r)" using assms(1) by simp
  note rm = receive_message [OF r assms(2)]
  show "pi_crc (h_pInfo (msg_header m)) \<noteq> 0 \<Longrightarrow> u = close (cancelReadTimer r)"
    by (simp add: u_def handleReadBody_def verifyBody_def Let_def)
  show "pi_crc (h_pInfo (msg_header m)) = 0 \<Longrightarrow>
      reading h (OpReadHeader Message_default) u \<and> absorbed h [(Message_type m, bs)] r u"
    using reading_next(1) [OF rm(1)] rm(2)
    by (simp add: u_def handleReadBody_def verifyBody_def Let_def absorbed_def)
qed

text \<open>A session that has rejected its input: closing, and no longer reading.\<close>

definition rejecting :: "'x session \<Rightarrow> bool" where
  "rejecting s \<longleftrightarrow> \<not> isConnected s \<and> RunClose \<in> set (socketStrand s) \<and>
     (\<forall>o'\<in>set (pendingOps s). op_reads o' = 0)"

lemma rejecting_close: "resting h r \<Longrightarrow> rejecting (close (cancelReadTimer r))"
  by (auto simp: resting_def rejecting_def close_def cancelReadTimer_def post_timer_def
      cancelAllPendingOperations_def post_socket_def Let_def)

lemma find_read_None: "\<forall>o'\<in>set ops. op_reads o' = 0 \<Longrightarrow> find_read ops = None"
  by (induction ops rule: find_read.induct) auto

lemma feed_rejecting: "rejecting s \<Longrightarrow> feed bo s bs = (s, bs)"
  by (simp add: feed.simps [of bo s] find_read_None rejecting_def)

section \<open>The session implements the specification\<close>

text \<open>How a session stands after a stream, by the outcome of its parse.\<close>

fun stands :: "'x receive_handler \<Rightarrow> outcome \<Rightarrow> 'x session \<Rightarrow> byte list \<Rightarrow> bool" where
  "stands h (NeedHeader b) t rest \<longleftrightarrow> rest = b \<and> reading h (OpReadHeader Message_default) t"
| "stands h (NeedBody hdr b) t rest \<longleftrightarrow> rest = b \<and>
     (\<exists>m. msg_header m = hdr \<and> Buffer_size (msg_payload m) = unat (pi_size (h_pInfo hdr)) \<and>
          reading h (OpReadBody m) t)"
| "stands h (Rejected b) t rest \<longleftrightarrow> rest = b \<and> rejecting t"

lemma feed_header_step:
  assumes "reading h (OpReadHeader Message_default) s" "HeaderSize \<le> length bs"
  shows "\<exists>r. resting h r \<and> readStrand r = readStrand s \<and> writeQueue r = writeQueue s \<and>
    feed bo s bs = feed bo (handleReadHeader
      (Message_default\<lparr>msg_header := header_of_bytes bo (take HeaderSize bs)\<rparr>) None r) (drop HeaderSize bs)"
  using feed_read [OF assms(1) _ _ _ assms(2), of bo] assms(2)
  by (simp add: HeaderSize_def read_into_header_def receive_header_full)

lemma feed_body_step:
  assumes "reading h (OpReadBody m) s" "Buffer_size (msg_payload m) = n" "0 < n" "n \<le> length bs"
  shows "\<exists>r. resting h r \<and> readStrand r = readStrand s \<and> writeQueue r = writeQueue s \<and>
    feed bo s bs = feed bo (handleReadBody (read_into_body (take n bs) m) None r) (drop n bs)"
  using feed_read [OF assms(1) _ _ assms(3,4), of bo] assms(2) by simp

lemma read_into_fit:
  assumes "msg_payload m = Buffer_default" "length bs = unat (pi_size (h_pInfo (msg_header m)))"
  shows "msg_payload (read_into_body bs (fitToSize m)) = received_buffer bs"
    and "msg_header (read_into_body bs (fitToSize m)) = msg_header m"
  using assms by (simp_all add: read_into_body_def fitToSize_def received_buffer_def buffer_defs
      Let_def overlay_full)

text \<open>The three things that can come of a header, and the two that can come of a payload.\<close>

lemma feed_header:
  assumes "reading h (OpReadHeader Message_default) s" "HeaderSize \<le> length bs"
    and hdr: "hdr = header_of_bytes bo (take HeaderSize bs)"
  shows "h_crc hdr \<noteq> 0 \<Longrightarrow> \<exists>t. rejecting t \<and> absorbed h [] s t \<and>
      feed bo s bs = (t, drop HeaderSize bs)"
    and "h_crc hdr = 0 \<Longrightarrow> pi_size (h_pInfo hdr) = 0 \<Longrightarrow>
      \<exists>t. reading h (OpReadHeader Message_default) t \<and> absorbed h [(pi_type (h_pInfo hdr), [])] s t \<and>
        feed bo s bs = feed bo t (drop HeaderSize bs)"
    and "h_crc hdr = 0 \<Longrightarrow> pi_size (h_pInfo hdr) \<noteq> 0 \<Longrightarrow>
      \<exists>t m. reading h (OpReadBody (fitToSize m)) t \<and> absorbed h [] s t \<and> msg_header m = hdr \<and>
        msg_payload m = Buffer_default \<and> feed bo s bs = feed bo t (drop HeaderSize bs)"
proof -
  define m where "m = Message_default\<lparr>msg_header := hdr\<rparr>"
  have m: "msg_payload m = Buffer_default" "msg_header m = hdr" "Message_type m = pi_type (h_pInfo hdr)"
    by (simp_all add: m_def Message_default_def Message_type_def)
  obtain r where r: "resting h r" "readStrand r = readStrand s" "writeQueue r = writeQueue s"
    "feed bo s bs = feed bo (handleReadHeader m None r) (drop HeaderSize bs)"
    using feed_header_step [OF assms(1,2), of bo] unfolding m_def hdr by blast
  note H = handle_header [OF r(1) m(1), unfolded m] and S = absorbed_same [OF r(2,3)]
  note R = rejecting_close [OF r(1)]
  show "h_crc hdr \<noteq> 0 \<Longrightarrow> \<exists>t. rejecting t \<and> absorbed h [] s t \<and>
      feed bo s bs = (t, drop HeaderSize bs)"
    using H(1) R feed_rejecting [OF R] r(2-4)
    by (intro exI [of _ "close (cancelReadTimer r)"]) (simp add: absorbed_Nil)
  show "h_crc hdr = 0 \<Longrightarrow> pi_size (h_pInfo hdr) = 0 \<Longrightarrow>
      \<exists>t. reading h (OpReadHeader Message_default) t \<and> absorbed h [(pi_type (h_pInfo hdr), [])] s t \<and>
        feed bo s bs = feed bo t (drop HeaderSize bs)"
    using H(2) S r(4) by blast
  show "h_crc hdr = 0 \<Longrightarrow> pi_size (h_pInfo hdr) \<noteq> 0 \<Longrightarrow>
      \<exists>t m. reading h (OpReadBody (fitToSize m)) t \<and> absorbed h [] s t \<and> msg_header m = hdr \<and>
        msg_payload m = Buffer_default \<and> feed bo s bs = feed bo t (drop HeaderSize bs)"
    using H(3) S r(4) m by blast
qed

lemma feed_body:
  assumes "reading h (OpReadBody (fitToSize m)) s" "msg_payload m = Buffer_default"
    and "n = unat (pi_size (h_pInfo (msg_header m)))" "0 < n" "n \<le> length bs"
  shows "pi_crc (h_pInfo (msg_header m)) \<noteq> 0 \<Longrightarrow> \<exists>t. rejecting t \<and> absorbed h [] s t \<and>
      feed bo s bs = (t, drop n bs)"
    and "pi_crc (h_pInfo (msg_header m)) = 0 \<Longrightarrow>
      \<exists>t. reading h (OpReadHeader Message_default) t \<and>
        absorbed h [(Message_type m, take n bs)] s t \<and> feed bo s bs = feed bo t (drop n bs)"
proof -
  have sz: "Buffer_size (msg_payload (fitToSize m)) = n" by (simp add: fitToSize_def assms(3))
  let ?m = "read_into_body (take n bs) (fitToSize m)"
  obtain r where r: "resting h r" "readStrand r = readStrand s" "writeQueue r = writeQueue s"
    "feed bo s bs = feed bo (handleReadBody ?m None r) (drop n bs)"
    using feed_body_step [OF assms(1) sz assms(4,5), of bo] by blast
  have len: "length (take n bs) = unat (pi_size (h_pInfo (msg_header m)))" using assms(3,5) by simp
  note M = read_into_fit [OF assms(2) len]
  have ty: "Message_type ?m = Message_type m" using M(2) by (simp add: Message_type_def)
  note H = handle_body [OF r(1) M(1), unfolded M(2) ty] and S = absorbed_same [OF r(2,3)]
  note R = rejecting_close [OF r(1)]
  show "pi_crc (h_pInfo (msg_header m)) \<noteq> 0 \<Longrightarrow> \<exists>t. rejecting t \<and> absorbed h [] s t \<and>
      feed bo s bs = (t, drop n bs)"
    using H(1) R feed_rejecting [OF R] r(2-4)
    by (intro exI [of _ "close (cancelReadTimer r)"]) (simp add: absorbed_Nil)
  show "pi_crc (h_pInfo (msg_header m)) = 0 \<Longrightarrow>
      \<exists>t. reading h (OpReadHeader Message_default) t \<and>
        absorbed h [(Message_type m, take n bs)] s t \<and> feed bo s bs = feed bo t (drop n bs)"
    using H(2) S r(4) by blast
qed

definition parsed_as :: "'x receive_handler \<Rightarrow> 'x session \<Rightarrow> (u16 \<times> byte list) list \<times> outcome \<Rightarrow>
    'x session \<times> byte list \<Rightarrow> bool" where
  "parsed_as h s out r \<longleftrightarrow> absorbed h (fst out) s (fst r) \<and> stands h (snd out) (fst r) (snd r)"

lemma parsed_as_Cons:
  assumes "absorbed h [m] s t" "parsed_as h t out r"
  shows "parsed_as h s (let (ms, end) = out in (m # ms, end)) r"
  using absorbed_trans [OF assms(1)] assms(2) by (auto simp: parsed_as_def split: prod.split)

lemma parsed_as_after: "absorbed h [] s t \<Longrightarrow> parsed_as h t out r \<Longrightarrow> parsed_as h s out r"
  using absorbed_trans [of h "[]" s t] by (auto simp: parsed_as_def)

text \<open>What follows a header that announces a payload.\<close>

lemma feed_payload:
  assumes t: "reading h (OpReadBody (fitToSize m)) t" "msg_header m = hdr" "msg_payload m = Buffer_default"
    and n: "n = unat (pi_size (h_pInfo hdr))" "n \<noteq> 0"
    and rest: "\<And>u. n \<le> length bs \<Longrightarrow> pi_crc (h_pInfo hdr) = 0 \<Longrightarrow> reading h (OpReadHeader Message_default) u \<Longrightarrow>
      parsed_as h u (parse_frames bo (drop n bs)) (feed bo u (drop n bs))"
  shows "parsed_as h t (if length bs < n then ([], NeedBody hdr bs)
      else if pi_crc (h_pInfo hdr) \<noteq> 0 then ([], Rejected (drop n bs))
      else (let (ms, out) = parse_frames bo (drop n bs) in ((pi_type (h_pInfo hdr), take n bs) # ms, out)))
    (feed bo t bs)"
proof (cases "length bs < n")
  case True
  have fit: "Buffer_size (msg_payload (fitToSize m)) = n" "msg_header (fitToSize m) = hdr"
    by (simp_all add: fitToSize_def n(1) t(2))
  then have "stands h (NeedBody hdr bs) t bs" using t(1) n(1) by (auto intro!: exI [of _ "fitToSize m"])
  moreover have "feed bo t bs = (t, bs)" using feed_waits [OF t(1)] fit True by simp
  ultimately show ?thesis using True by (simp add: parsed_as_def absorbed_Nil)
next
  case False
  then have le: "n \<le> length bs" by simp
  have nm: "n = unat (pi_size (h_pInfo (msg_header m)))" using n(1) t(2) by simp
  note B = feed_body [OF t(1,3) nm _ le, unfolded t(2)]
  show ?thesis
  proof (cases "pi_crc (h_pInfo hdr) = 0")
    case True
    with B(2) n(2) obtain u where u: "reading h (OpReadHeader Message_default) u"
      "absorbed h [(Message_type m, take n bs)] t u" "feed bo t bs = feed bo u (drop n bs)" by blast
    from parsed_as_Cons [OF u(2) rest [OF le True u(1)]] u(3) False True show ?thesis
      by (simp add: Message_type_def t(2))
  next
    case crc: False
    with B(1) n(2) obtain u where "rejecting u" "absorbed h [] t u" "feed bo t bs = (u, drop n bs)" by blast
    with False crc show ?thesis by (simp add: parsed_as_def)
  qed
qed

lemma feed_parsed:
  "reading h (OpReadHeader Message_default) s \<Longrightarrow> parsed_as h s (parse_frames bo bs) (feed bo s bs)"
proof (induction bo bs arbitrary: s rule: parse_frames.induct)
  case (1 bo bs)
  define hdr where "hdr = header_of_bytes bo (take HeaderSize bs)"
  define r0 where "r0 = drop HeaderSize bs"
  define n where "n = unat (pi_size (h_pInfo hdr))"
  have n0: "pi_size (h_pInfo hdr) = 0 \<longleftrightarrow> n = 0" by (simp add: n_def unat_eq_0)
  note P = parse_frames.simps [of bo bs, folded hdr_def r0_def, unfolded Let_def, folded n_def]
  show ?case
  proof (cases "length bs < HeaderSize")
    case True
    then have "feed bo s bs = (s, bs)" using feed_waits [OF "1.prems"] by simp
    with True "1.prems" show ?thesis by (simp add: P parsed_as_def absorbed_Nil)
  next
    case False
    note IH = "1.IH" [OF False hdr_def r0_def refl n_def]
    have le: "HeaderSize \<le> length bs" using False by simp
    note H = feed_header [OF "1.prems" le hdr_def, folded r0_def, unfolded n0]
    consider (crc) "h_crc hdr \<noteq> 0" | (empty) "h_crc hdr = 0" "n = 0"
      | (payload) "h_crc hdr = 0" "n \<noteq> 0" by blast
    then show ?thesis
    proof cases
      case crc
      with H(1) False show ?thesis by (auto simp: P parsed_as_def)
    next
      case empty
      then obtain t where t: "reading h (OpReadHeader Message_default) t"
        "absorbed h [(pi_type (h_pInfo hdr), [])] s t" "feed bo s bs = feed bo t r0" using H(2) by blast
      from parsed_as_Cons [OF t(2) IH(1) [OF _ empty(2) t(1)]] empty t(3) False show ?thesis
        by (simp add: P Let_def)
    next
      case payload
      then obtain t m where t: "reading h (OpReadBody (fitToSize m)) t" "absorbed h [] s t"
        "msg_header m = hdr" "msg_payload m = Buffer_default" "feed bo s bs = feed bo t r0"
        using H(3) by blast
      have "parsed_as h u (parse_frames bo (drop n r0)) (feed bo u (drop n r0))"
        if "n \<le> length r0" "pi_crc (h_pInfo hdr) = 0" "reading h (OpReadHeader Message_default) u" for u
        using IH(2) payload that by simp
      from parsed_as_after [OF t(2) feed_payload [OF t(1,3,4) n_def payload(2) this]] payload t(5) False
      show ?thesis by (simp add: P Let_def split: if_splits)
    qed
  qed
qed

lemma feed_implements_parse:
  assumes "reading h (OpReadHeader Message_default) s"
  shows "absorbed h (fst (parse_frames bo bs)) s (fst (feed bo s bs)) \<and>
    stands h (snd (parse_frames bo bs)) (fst (feed bo s bs)) (snd (feed bo s bs))"
  using feed_parsed [OF assms] by (simp add: parsed_as_def)

section \<open>Properties\<close>

text \<open>A session that has completed its handshake is ready for the first header.\<close>

lemma reading_start:
  "\<exists>s. run (session_exec bo) Session_create (Configure None None (Some h) # handshake_events ServerSide) = Some s \<and>
     reading h (OpReadHeader Message_default) s \<and> readStrand s = [] \<and> writeQueue s = []"
  by (simp add: session_ops Session_create_def handshake_events_def Let_def reading_def)
    (rule exI [of _ "[]"], rule exI [of _ "[]"], simp)

lemma deliver_frames: "concat (map (deliver h) (map frame_of msgs)) =
    map (\<lambda>m. (h, received_buffer (Buffer_view (msg_payload m)))) (filter (\<lambda>m. Message_type m = type_code Data) msgs)"
  by (induction msgs) (simp_all add: deliver_def frame_of_def)

lemma filter_frames: "length (filter ((\<lambda>f. fst f = t) \<circ> frame_of) msgs) =
    length (filter (\<lambda>m. Message_type m = t) msgs)"
  by (simp add: comp_def frame_of_def)

lemma parse_Nil: "parse_frames bo [] = ([], NeedHeader [])"
  by (simp add: parse_frames.simps [of bo "[]"] HeaderSize_def)

text \<open>The session implements \<open>parse_frames\<close>: on every stream of bytes a session that waits
  for a header hands exactly the data messages of the stream to the receive handler, in order, adds
  one pong per ping, leaves its own data messages in order, and stops where the specification
  stops: waiting for a header or for a payload, or closed and no longer reading after a frame that
  does not verify.\<close>

lemma session_implements_parse_frames:
  assumes "reading h (OpReadHeader Message_default) s"
    and "parse_frames bo bs = (ms, out)" and "feed bo s bs = (t, rest)"
  shows "readStrand t = readStrand s @
      map (\<lambda>m. (h, received_buffer (snd m))) (filter (\<lambda>m. fst m = type_code Data) ms) \<and>
    filter (\<lambda>m. \<not> is_control m) (writeQueue t) = filter (\<lambda>m. \<not> is_control m) (writeQueue s) \<and>
    count_list (writeQueue t) (Message_of_type Pong) = count_list (writeQueue s) (Message_of_type Pong) +
      length (filter (\<lambda>m. fst m = type_code Ping) ms) \<and>
    stands h out t rest \<and> (\<exists>es. run (session_exec bo) s es = Some t)"
proof -
  have "concat (map (deliver h) ms) =
      map (\<lambda>m. (h, received_buffer (snd m))) (filter (\<lambda>m. fst m = type_code Data) ms)"
    by (induction ms) (simp_all add: deliver_def)
  with feed_implements_parse [OF assms(1), of bo bs] feed_run [of bo s bs] assms(2,3) show ?thesis
    by (simp add: absorbed_def)
qed

lemma session_implements_parse_frames_witness:
  "\<exists>s t :: nat session. session_reachable LittleEndian s \<and> feed LittleEndian s [0, 0, 0] = (t, [0, 0, 0]) \<and>
     reading (\<lambda>_. []) (OpReadHeader Message_default) t \<and> readStrand t = []"
proof -
  obtain s :: "nat session" where s: "run (session_exec LittleEndian) Session_create
      (Configure None None (Some (\<lambda>_. [])) # handshake_events ServerSide) = Some s"
    "reading (\<lambda>_. []) (OpReadHeader Message_default) s" "readStrand s = []"
    using reading_start by blast
  have p: "parse_frames LittleEndian [0, 0, 0] = ([], NeedHeader [0, 0, 0])"
    by (simp add: parse_frames.simps [of _ "[0, 0, 0]"] HeaderSize_def)
  obtain t rest where f: "feed LittleEndian s [0, 0, 0] = (t, rest)" by fastforce
  from session_implements_parse_frames [OF s(2) p f] s(3) f session_reachable_run [OF s(1)]
  show ?thesis by auto
qed

text \<open>C6. Sender to receiver: the bytes that \<open>asyncWrite\<close> puts on the wire for a sequence of
  messages with correct headers and payloads below \<open>2 ^ 32\<close> bytes are consumed completely, the
  payloads of exactly the data messages reach the receive handler unchanged and in order, every
  ping is answered by one pong, and the session is ready for the next header.\<close>

theorem written_frames_are_received:
  assumes "reading h (OpReadHeader Message_default) s" and "\<forall>m\<in>set msgs. sendable m"
    and "feed bo s (concat (map (frame_bytes bo) msgs)) = (t, rest)"
  shows "rest = [] \<and> reading h (OpReadHeader Message_default) t \<and>
    readStrand t = readStrand s @ map (\<lambda>m. (h, received_buffer (Buffer_view (msg_payload m))))
      (filter (\<lambda>m. Message_type m = type_code Data) msgs) \<and>
    count_list (writeQueue t) (Message_of_type Pong) = count_list (writeQueue s) (Message_of_type Pong) +
      length (filter (\<lambda>m. Message_type m = type_code Ping) msgs)"
proof -
  have "parse_frames bo (concat (map (frame_bytes bo) msgs)) = (map frame_of msgs, NeedHeader [])"
    using parse_frames_concat [OF assms(2), of bo "[]"] by (simp add: parse_Nil)
  with feed_implements_parse [OF assms(1), of bo "concat (map (frame_bytes bo) msgs)"] assms(3)
  show ?thesis
    by (simp add: absorbed_def deliver_frames [unfolded map_map] filter_frames)
qed

theorem written_frames_are_received_witness:
  "\<exists>s t :: nat session. session_reachable BigEndian s \<and>
     feed BigEndian s (concat (map (frame_bytes BigEndian) [Message_create Data (Buffer_create 3), Message_of_type Ping])) = (t, []) \<and>
     map snd (readStrand t) = [received_buffer [0, 0, 0]] \<and> Message_of_type Pong \<in> set (writeQueue t)"
proof -
  let ?ms = "[Message_create Data (Buffer_create 3), Message_of_type Ping]"
  obtain s :: "nat session" where s: "run (session_exec BigEndian) Session_create
      (Configure None None (Some (\<lambda>_. [])) # handshake_events ServerSide) = Some s"
    "reading (\<lambda>_. []) (OpReadHeader Message_default) s" "readStrand s = []"
    using reading_start by blast
  have ok: "\<forall>m\<in>set ?ms. sendable m" by (simp add: sendable_def)
  obtain t rest where f: "feed BigEndian s (concat (map (frame_bytes BigEndian) ?ms)) = (t, rest)"
    by fastforce
  from written_frames_are_received [OF s(2) ok f]
  have t: "rest = []" "map snd (readStrand t) = [received_buffer [0, 0, 0]]"
    "count_list (writeQueue t) (Message_of_type Pong) > 0"
    using s(3) by (auto simp: numeral_3_eq_3)
  from t(3) have "Message_of_type Pong \<in> set (writeQueue t)" using count_notin by fastforce
  with f t(1,2) session_reachable_run [OF s(1)] show ?thesis by auto
qed

text \<open>Fragmentation does not matter: whatever pieces the stream arrives in, and whatever the
  session is doing, reading the first piece and then the bytes it left over together with the second
  piece is the same as reading both at once.\<close>

lemma feed_in_pieces:
  "feed bo s (bs @ cs) = (case feed bo s bs of (t, rest) \<Rightarrow> feed bo t (rest @ cs))"
proof (induction bo s bs rule: feed.induct)
  case (1 bo s bs)
  show ?case
  proof (cases "\<exists>i n. find_read (pendingOps s) = Some (i, n) \<and> 0 < n \<and> n \<le> length bs")
    case False
    then have "feed bo s bs = (s, bs)"
      by (auto simp: feed.simps [of bo s bs] split: option.split)
    then show ?thesis by simp
  next
    case True
    then obtain i n where f: "find_read (pendingOps s) = Some (i, n)" "0 < n \<and> n \<le> length bs"
      by blast
    from 1 [OF f(1) refl f(2)] f show ?thesis
      by (simp add: feed.simps [of bo s "bs @ cs"] feed.simps [of bo s bs])
  qed
qed

section \<open>Headers and their sizes\<close>

text \<open>The packed header is 12 bytes; in either byte order decoding the bytes of a header gives
  the header back, whatever follows them, and encoding a decoded header gives its 12 bytes back, so
  every 12 bytes are the header of exactly one \<open>Header\<close> value.\<close>

lemma header_round_trip:
  assumes "length bs = 12"
  shows "length (header_bytes bo h) = 12 \<and> header_of_bytes bo (take 12 (header_bytes bo h @ rest)) = h \<and>
    header_bytes bo (header_of_bytes bo bs) = bs"
  using header.enc_width [of bo h] header.dec_prefix [of bo h rest] header.enc_dec [of bs bo] assms
  by (simp add: HeaderSize_def)

lemma header_round_trip_witness:
  "header_bytes LittleEndian (header_of_bytes LittleEndian (replicate 12 7)) = replicate 12 7 \<and>
   header_of_bytes BigEndian (take 12 (header_bytes BigEndian (Header_create Ping) @ [1, 2])) = Header_create Ping \<and>
   header_bytes BigEndian (Header_create Ping) = [0, 0, 0, 0, 0, 0, 0, 0, 0, 0, 0, 2]"
proof (intro conjI)
  have len: "length (replicate 12 7) = 12" by (rule length_replicate)
  show "header_bytes LittleEndian (header_of_bytes LittleEndian (replicate 12 7)) = replicate 12 7"
    using header_round_trip [OF len] by blast
  show "header_of_bytes BigEndian (take 12 (header_bytes BigEndian (Header_create Ping) @ [1, 2])) = Header_create Ping"
    using header_round_trip [OF len] by blast
  show "header_bytes BigEndian (Header_create Ping) = [0, 0, 0, 0, 0, 0, 0, 0, 0, 0, 0, 2]"
    by (simp add: header_bytes_def word_bytes_def in_order_def Header_create_def PayloadInfo_create_def)
qed

text \<open>C31. A payload of \<open>2 ^ 32\<close> bytes or more is sent under a wrong size: the header holds the size
  modulo \<open>2 ^ 32\<close>, so the receiver takes only that many bytes for the payload and reads the rest of
  the payload as the headers of further messages.\<close>

theorem oversized_payload_desynchronises:
  assumes "well_sized b" "k = Buffer_size b mod 2 ^ 32"
  shows "parse_frames bo (frame_bytes bo (Message_create Data b) @ rest) =
    (let (ms, out) = parse_frames bo (drop k (Buffer_view b) @ rest)
     in ((type_code Data, take k (Buffer_view b)) # ms, out))"
proof -
  let ?m = "Message_create Data b" and ?p = "Buffer_view b"
  have h: "take HeaderSize (frame_bytes bo ?m @ rest) = header_bytes bo (msg_header ?m)"
    "drop HeaderSize (frame_bytes bo ?m @ rest) = ?p @ rest"
    by (simp_all add: frame_bytes_def)
  have hdr: "h_crc (msg_header ?m) = 0" "pi_crc (h_pInfo (msg_header ?m)) = 0"
    "pi_type (h_pInfo (msg_header ?m)) = type_code Data"
    "unat (pi_size (h_pInfo (msg_header ?m))) = k"
    by (simp_all add: message_defs Let_def unat_of_nat assms(2))
  have le: "k \<le> length ?p" by (simp add: assms length_Buffer_view)
  then have "take k (?p @ rest) = take k ?p" "drop k (?p @ rest) = drop k ?p @ rest" by simp_all
  with le show ?thesis
    by (subst parse_frames.simps)
      (auto simp: h hdr header.dec_enc Let_def frame_bytes_def split: prod.split)
qed

theorem oversized_payload_desynchronises_witness:
  "fst (parse_frames LittleEndian (frame_bytes LittleEndian (Message_create Data (Buffer_create (2 ^ 32 + 1))))) \<noteq>
     [(type_code Data, replicate (2 ^ 32 + 1) 0)]"
proof -
  have "well_sized (Buffer_create (2 ^ 32 + 1))" by simp
  moreover have "1 = Buffer_size (Buffer_create (2 ^ 32 + 1)) mod 2 ^ 32" by simp
  ultimately have "fst (parse_frames LittleEndian (frame_bytes LittleEndian (Message_create Data (Buffer_create (2 ^ 32 + 1))) @ [])) =
      (type_code Data, take 1 (replicate (2 ^ 32 + 1) 0)) #
        fst (parse_frames LittleEndian (drop 1 (replicate (2 ^ 32 + 1) 0) @ []))"
    by (subst oversized_payload_desynchronises [where k = 1]) (auto split: prod.split)
  then show ?thesis by (auto dest!: arg_cong [where f = length])
qed

end
