(* ===== verification/Programs.thy ===== *)
theory Programs
  imports SessionStream
begin

text \<open>
  The program code of \<open>src/server/main.cpp\<close> and \<open>src/client/main.cpp\<close>: the conversions between
  strings and buffers, the request that the client sends, and the handler that answers it.
  Protobuf is not part of the repository, so parsing and serialising are parameters: \<open>parse\<close> is
  what \<open>ParseFromArray\<close> leaves in the login and password fields (the code ignores whether it
  succeeded), \<open>ser\<close> and \<open>ser_login\<close> are the bytes that \<open>SerializeToArray\<close> writes, as many as
  \<open>ByteSizeLong\<close> says.  Strings are their bytes.
\<close>

definition ascii :: "string \<Rightarrow> bytes" where
  "ascii s = map of_char s"

section \<open>Strings and buffers\<close>

definition stringToBuffer :: "bytes \<Rightarrow> buffer" where
  "stringToBuffer str = (let buffer = Buffer_create (length str) in Buffer_write str buffer)"

definition bufferToString :: "buffer \<Rightarrow> bytes" where
  "bufferToString buffer = (let str = vector_resize (Buffer_size buffer) []
     in overlay (take (Buffer_size buffer) (Buffer_data buffer)) str)"

section \<open>Requests and answers\<close>

text \<open>The client's request: login and password.\<close>

definition client_request :: "(bytes \<times> bytes \<Rightarrow> bytes) \<Rightarrow> bytes \<times> bytes \<Rightarrow> buffer" where
  "client_request ser_login login =
    (let buffer = Buffer_create (length (ser_login login)) in Buffer_write (ser_login login) buffer)"

definition answer_id :: "bytes \<times> bytes \<Rightarrow> bytes" where
  "answer_id request = fst request @ ascii ''___'' @ snd request @ ascii ''___answer''"

text \<open>\<open>BasicHandlerMapper::onReceived\<close>.\<close>

definition onReceived :: "(bytes \<Rightarrow> bytes \<times> bytes) \<Rightarrow> (bytes \<Rightarrow> bytes) \<Rightarrow> 'x receive_handler" where
  "onReceived parse ser payload =
    (let request = parse (Buffer_view payload);
         response = ser (answer_id request);
         buffer = Buffer_create (length response)
     in [CallSend (Buffer_write response buffer)])"

section \<open>Lemmas\<close>

lemma filled_buffer [simp]:
  "Buffer_view (Buffer_write bs (Buffer_create (length bs))) = bs"
  "Buffer_size (Buffer_write bs (Buffer_create (length bs))) = length bs"
  "well_sized (Buffer_write bs (Buffer_create (length bs)))"
  by (simp_all add: Buffer_view_write_create)

lemma sendable_data:
  "well_sized b \<Longrightarrow> Buffer_size b < 2 ^ 32 \<Longrightarrow> sendable (Message_create Data b)"
  by (simp add: sendable_def)

text \<open>A resting receiver takes one frame; its handler's answer joins the queue behind all data.\<close>

lemma receive_one:
  assumes "reading h (OpReadHeader Message_default) s" "sendable m" "Message_type m = type_code Data"
  shows "\<exists>t. feed bo s (frame_bytes bo m) = (t, []) \<and> reading h (OpReadHeader Message_default) t \<and>
    readStrand t = readStrand s @ [(h, received_buffer (Buffer_view (msg_payload m)))] \<and>
    filter (\<lambda>m. \<not> is_control m) (writeQueue t) = filter (\<lambda>m. \<not> is_control m) (writeQueue s)"
proof -
  have "parse_frames bo (frame_bytes bo m) = ([frame_of m], NeedHeader [])"
    using parse_frame [OF assms(2), of bo "[]"] by (simp add: parse_Nil)
  with feed_implements_parse [OF assms(1), of bo "frame_bytes bo m"] assms(3) show ?thesis
    by (intro exI [of _ "fst (feed bo s (frame_bytes bo m))"])
      (auto simp: absorbed_def frame_of_def deliver_def prod_eq_iff)
qed

lemma send_queue: "filter (\<lambda>m. \<not> is_control m) (writeQueue (send b s)) =
    filter (\<lambda>m. \<not> is_control m) (writeQueue s) @ [Message_create Data b]"
proof -
  have "\<not> is_control (Message_create Data b)" by (simp add: is_control_def)
  then show ?thesis by (cases "writeQueue s")
    (auto simp: send_def send_message_def writeNext_def post_socket_def is_control_def Let_def)
qed

lemma received_view [simp]: "Buffer_view (received_buffer bs) = bs"
  by (simp add: received_buffer_def buffer_defs)

section \<open>Properties\<close>

text \<open>A string that is put into a buffer and taken out again is unchanged, and the buffer's size
  is its length.\<close>

lemma string_buffer_round_trip:
  "bufferToString (stringToBuffer str) = str \<and> Buffer_size (stringToBuffer str) = length str \<and>
   well_sized (stringToBuffer str)"
proof -
  have "Buffer_data (stringToBuffer str) = str"
    by (simp add: stringToBuffer_def Let_def buffer_defs overlay_full)
  then show ?thesis
    by (simp add: bufferToString_def stringToBuffer_def Let_def overlay_full)
qed

end
