(* ===== verification/HTTPSession.thy ===== *)
theory HTTPSession
  imports Messages WriteQueue
begin

text \<open>
  \<open>src/utils/Net/src/ClientHTTPSession.cpp\<close> and \<open>include/ClientHTTPSession.hpp\<close>: the raw TLS
  client connection.  It has the strands, the write queue and the life of \<open>Session\<close>, but its
  messages are byte strings without headers, it reads whatever arrives up to 10240 bytes, it has no
  timer, and its \<open>handleHandshake\<close> does not touch the connected flag.  The model follows that of
  \<open>Session\<close>: strands are queues, asio operations are pending until the environment completes them,
  and a handler is the list of the calls it makes on its session.
\<close>

section \<open>State\<close>

datatype 'x http_call = HCallSend bytes | HCallDrop | HCallClose | HCallCancel | HCallExt 'x

type_synonym 'x http_receive_handler = "bytes \<Rightarrow> 'x http_call list"

datatype http_task =
    HRunHandshake
  | HRunCancel
  | HRunClose
  | HRunWrite bytes
  | HOnHandshake error_code
  | HOnRead bytes error_code nat
  | HOnWrite bytes error_code

datatype http_op = HOpHandshake | HOpRead bytes | HOpWrite bytes

datatype http_request = HSetNoDelay | HAsyncHandshake | HAsyncRead nat | HAsyncWrite bytes
  | HSocketCancel | HSocketShutdown | HSocketClose

record 'x http_session =
  hs_isConnected :: bool
  hs_openHandler :: "'x http_call list option"
  hs_closeHandler :: "'x http_call list option"
  hs_receiveHandler :: "'x http_receive_handler option"
  hs_writeQueue :: "bytes list"
  hs_socketStrand :: "http_task list"
  hs_readStrand :: "('x http_receive_handler \<times> bytes) list"
  hs_pendingOps :: "http_op list"
  hs_issued :: "http_request list"
  hs_extCalls :: "'x list"

definition http_create :: "'x http_session" where
  "http_create = \<lparr>hs_isConnected = False, hs_openHandler = None, hs_closeHandler = None,
     hs_receiveHandler = None, hs_writeQueue = [], hs_socketStrand = [], hs_readStrand = [],
     hs_pendingOps = [], hs_issued = [], hs_extCalls = []\<rparr>"

definition http_configure :: "'x http_call list option \<Rightarrow> 'x http_call list option \<Rightarrow>
    'x http_receive_handler option \<Rightarrow> 'x http_session \<Rightarrow> 'x http_session" where
  "http_configure oh ch rh s =
     s\<lparr>hs_openHandler := oh, hs_closeHandler := ch, hs_receiveHandler := rh\<rparr>"

definition http_post :: "http_task \<Rightarrow> 'x http_session \<Rightarrow> 'x http_session" where
  "http_post t s = s\<lparr>hs_socketStrand := hs_socketStrand s @ [t]\<rparr>"

definition http_issue :: "http_request \<Rightarrow> 'x http_session \<Rightarrow> 'x http_session" where
  "http_issue r s = s\<lparr>hs_issued := hs_issued s @ [r]\<rparr>"

definition http_start_op :: "http_op \<Rightarrow> 'x http_session \<Rightarrow> 'x http_session" where
  "http_start_op op s = s\<lparr>hs_pendingOps := hs_pendingOps s @ [op]\<rparr>"

section \<open>Operations\<close>

definition http_cancelAllPendingOperations :: "'x http_session \<Rightarrow> 'x http_session" where
  "http_cancelAllPendingOperations s = http_post HRunCancel s"

definition http_close :: "'x http_session \<Rightarrow> 'x http_session" where
  "http_close s = (let s1 = http_cancelAllPendingOperations s
     in if \<not> hs_isConnected s1 then s1
        else http_post HRunClose (s1\<lparr>hs_isConnected := False\<rparr>))"

definition http_drop :: "'x http_session \<Rightarrow> 'x http_session" where
  "http_drop s = http_close s"

definition http_configureSocket :: "error_code \<Rightarrow> 'x http_session \<Rightarrow> asio_error + 'x http_session" where
  "http_configureSocket opt s = (case opt of Some e \<Rightarrow> Inl e | None \<Rightarrow> Inr (http_issue HSetNoDelay s))"

definition http_open :: "error_code \<Rightarrow> 'x http_session \<Rightarrow> asio_error + 'x http_session" where
  "http_open opt s =
    (if hs_isConnected s then Inr s
     else case http_configureSocket opt s of
            Inl e \<Rightarrow> Inl e
          | Inr s1 \<Rightarrow> Inr (http_post HRunHandshake (s1\<lparr>hs_isConnected := True\<rparr>)))"

definition http_writeNext :: "'x http_session \<Rightarrow> 'x http_session" where
  "http_writeNext s = (case hs_writeQueue s of
      [] \<Rightarrow> s
    | currentMessage # _ \<Rightarrow> http_post (HRunWrite currentMessage) s)"

definition http_send :: "bytes \<Rightarrow> 'x http_session \<Rightarrow> 'x http_session" where
  "http_send m s =
    (let writeInProgress = (hs_writeQueue s \<noteq> []);
         s1 = s\<lparr>hs_writeQueue := hs_writeQueue s @ [m]\<rparr>
     in if \<not> writeInProgress then http_writeNext s1 else s1)"

definition http_asyncWrite :: "bytes \<Rightarrow> 'x http_session \<Rightarrow> 'x http_session" where
  "http_asyncWrite m s = http_start_op (HOpWrite m) (http_issue (HAsyncWrite m) s)"

definition http_handleWrite :: "bytes \<Rightarrow> error_code \<Rightarrow> 'x http_session \<Rightarrow> 'x http_session" where
  "http_handleWrite m err s =
    (let s1 = (if hs_writeQueue s \<noteq> [] then s\<lparr>hs_writeQueue := tl (hs_writeQueue s)\<rparr> else s)
     in if err = None then http_writeNext s1
        else if err \<noteq> Some OperationAborted then http_close s1
        else s1)"

fun http_run_call :: "'x http_call \<Rightarrow> 'x http_session \<Rightarrow> 'x http_session" where
  "http_run_call (HCallSend m) s = http_send m s"
| "http_run_call HCallDrop s = http_drop s"
| "http_run_call HCallClose s = http_close s"
| "http_run_call HCallCancel s = http_cancelAllPendingOperations s"
| "http_run_call (HCallExt x) s = s\<lparr>hs_extCalls := hs_extCalls s @ [x]\<rparr>"

definition http_run_calls :: "'x http_call list \<Rightarrow> 'x http_session \<Rightarrow> 'x http_session" where
  "http_run_calls cs s = fold http_run_call cs s"

definition http_run_handler :: "'x http_call list option \<Rightarrow> 'x http_session \<Rightarrow> 'x http_session" where
  "http_run_handler h s = (case h of None \<Rightarrow> s | Some cs \<Rightarrow> http_run_calls cs s)"

text \<open>The lambda that \<open>close\<close> posts.\<close>

definition http_close_task :: "'x http_session \<Rightarrow> 'x http_session" where
  "http_close_task s = (let s1 = s\<lparr>hs_writeQueue := []\<rparr>;
       s2 = http_issue HSocketClose (http_issue HSocketShutdown s1)
     in http_run_handler (hs_closeHandler s2) s2)"

definition http_asyncRead :: "bytes \<Rightarrow> 'x http_session \<Rightarrow> 'x http_session" where
  "http_asyncRead m s = http_start_op (HOpRead m) (http_issue (HAsyncRead (length m)) s)"

definition http_readNext :: "'x http_session \<Rightarrow> 'x http_session" where
  "http_readNext s = http_asyncRead (vector_resize (1024 * 10) []) s"

definition http_asyncHandshake :: "'x http_session \<Rightarrow> 'x http_session" where
  "http_asyncHandshake s = http_start_op HOpHandshake (http_issue HAsyncHandshake s)"

definition http_handleHandshake :: "error_code \<Rightarrow> 'x http_session \<Rightarrow> 'x http_session" where
  "http_handleHandshake err s =
    (if err = None then (let s1 = http_readNext s in http_run_handler (hs_openHandler s1) s1)
     else if err \<noteq> Some OperationAborted then http_close s
     else s)"

definition http_handleMessage :: "bytes \<Rightarrow> 'x http_session \<Rightarrow> 'x http_session" where
  "http_handleMessage m s = (case hs_receiveHandler s of
      None \<Rightarrow> s
    | Some h \<Rightarrow> if hs_isConnected s then s\<lparr>hs_readStrand := hs_readStrand s @ [(h, m)]\<rparr> else s)"

definition http_handleRead :: "bytes \<Rightarrow> error_code \<Rightarrow> nat \<Rightarrow> 'x http_session \<Rightarrow> 'x http_session" where
  "http_handleRead m err bytes_transferred s =
    (if err = None then
       (if bytes_transferred \<noteq> 0 then
          http_readNext (http_handleMessage (vector_resize bytes_transferred m) s)
        else http_close s)
     else if err \<noteq> Some OperationAborted then http_close s
     else s)"

section \<open>Events\<close>

fun http_run_task :: "http_task \<Rightarrow> 'x http_session \<Rightarrow> 'x http_session" where
  "http_run_task HRunHandshake s = http_asyncHandshake s"
| "http_run_task HRunCancel s = http_issue HSocketCancel s"
| "http_run_task HRunClose s = http_close_task s"
| "http_run_task (HRunWrite m) s = http_asyncWrite m s"
| "http_run_task (HOnHandshake err) s = http_handleHandshake err s"
| "http_run_task (HOnRead m err n) s = http_handleRead m err n s"
| "http_run_task (HOnWrite m err) s = http_handleWrite m err s"

text \<open>The handler queued when an operation completes.  A read takes what has arrived, at most the
  size of its buffer, writes it over the front of the buffer and reports its length.\<close>

fun http_completion :: "http_op \<Rightarrow> error_code \<Rightarrow> bytes \<Rightarrow> http_task" where
  "http_completion HOpHandshake err bs = HOnHandshake err"
| "http_completion (HOpRead m) err bs = HOnRead (overlay bs m) err (min (length bs) (length m))"
| "http_completion (HOpWrite m) err bs = HOnWrite m err"

datatype 'x http_event =
    HConfigure "'x http_call list option" "'x http_call list option" "'x http_receive_handler option"
  | HOpen error_code
  | HSend bytes
  | HDrop
  | HClose
  | HCancelAll
  | HSocketStrand
  | HReadStrand
  | HComplete nat error_code bytes

inductive http_step :: "'x http_session \<Rightarrow> 'x http_event \<Rightarrow> 'x http_session \<Rightarrow> bool" where
  configure: "http_step s (HConfigure oh ch rh) (http_configure oh ch rh s)"
| open_ok: "http_open opt s = Inr t \<Longrightarrow> http_step s (HOpen opt) t"
| open_throws: "http_open opt s = Inl e \<Longrightarrow> http_step s (HOpen opt) s"
| send: "http_step s (HSend m) (http_send m s)"
| drop: "http_step s HDrop (http_drop s)"
| close: "http_step s HClose (http_close s)"
| cancel_all: "http_step s HCancelAll (http_cancelAllPendingOperations s)"
| socket_strand: "hs_socketStrand s = t # ts \<Longrightarrow>
    http_step s HSocketStrand (http_run_task t (s\<lparr>hs_socketStrand := ts\<rparr>))"
| read_strand: "hs_readStrand s = (h, m) # ts \<Longrightarrow>
    http_step s HReadStrand (http_run_calls (h m) (s\<lparr>hs_readStrand := ts\<rparr>))"
| complete: "i < length (hs_pendingOps s) \<Longrightarrow>
    http_step s (HComplete i err bs) (http_post (http_completion (hs_pendingOps s ! i) err bs)
      (s\<lparr>hs_pendingOps := remove_at i (hs_pendingOps s)\<rparr>))"

fun http_exec :: "'x http_session \<Rightarrow> 'x http_event \<Rightarrow> 'x http_session option" where
  "http_exec s (HConfigure oh ch rh) = Some (http_configure oh ch rh s)"
| "http_exec s (HOpen opt) = Some (case http_open opt s of Inl _ \<Rightarrow> s | Inr t \<Rightarrow> t)"
| "http_exec s (HSend m) = Some (http_send m s)"
| "http_exec s HDrop = Some (http_drop s)"
| "http_exec s HClose = Some (http_close s)"
| "http_exec s HCancelAll = Some (http_cancelAllPendingOperations s)"
| "http_exec s HSocketStrand = (case hs_socketStrand s of
     [] \<Rightarrow> None | t # ts \<Rightarrow> Some (http_run_task t (s\<lparr>hs_socketStrand := ts\<rparr>)))"
| "http_exec s HReadStrand = (case hs_readStrand s of
     [] \<Rightarrow> None | (h, m) # ts \<Rightarrow> Some (http_run_calls (h m) (s\<lparr>hs_readStrand := ts\<rparr>)))"
| "http_exec s (HComplete i err bs) = (if i < length (hs_pendingOps s)
     then Some (http_post (http_completion (hs_pendingOps s ! i) err bs)
       (s\<lparr>hs_pendingOps := remove_at i (hs_pendingOps s)\<rparr>))
     else None)"

lemma http_exec_step: "http_exec s e = Some t \<longleftrightarrow> http_step s e t"
proof
  assume "http_exec s e = Some t"
  then show "http_step s e t"
    by (cases e) (auto split: sum.splits list.splits if_splits intro: http_step.intros)
next
  assume "http_step s e t"
  then show "http_exec s e = Some t" by cases auto
qed

definition http_start :: "'x http_session \<Rightarrow> bool" where
  "http_start s \<longleftrightarrow> s = http_create"

definition http_next :: "'x http_session \<Rightarrow> 'x http_session \<Rightarrow> bool" where
  "http_next s t \<longleftrightarrow> (\<exists>e. http_step s e t)"

abbreviation http_reachable :: "'x http_session \<Rightarrow> bool" where
  "http_reachable \<equiv> reach http_start http_next"

lemma http_reachable_create: "http_reachable http_create"
  by (rule reach.reach_init) (simp add: http_start_def)

lemma http_reachable_run:
  assumes "run http_exec http_create es = Some t"
  shows "http_reachable t"
  using assms http_reachable_create
  by (rule run_invariant) (auto simp: http_exec_step http_next_def intro: reach.reach_step)

end
