(* ===== verification/HTTPWriting.thy ===== *)
theory HTTPWriting
  imports HTTPSession
begin

text \<open>
  What holds of \<open>ClientHTTPSession\<close>: its write side makes only moves of the writer of
  \<open>WriteQueue\<close> in which no message is urgent, so that all messages keep their order; its connected
  flag, close tasks and closed sockets account for every opening exactly; and what it hands to the
  receive handler are the pieces it read.
\<close>

section \<open>The writer in a session\<close>

fun htask_posted :: "http_task \<Rightarrow> bytes list" where
  "htask_posted (HRunWrite m) = [m]"
| "htask_posted _ = []"

fun htask_done :: "http_task \<Rightarrow> bytes list" where
  "htask_done (HOnWrite m _) = [m]"
| "htask_done _ = []"

fun hop_write :: "http_op \<Rightarrow> bytes list" where
  "hop_write (HOpWrite m) = [m]"
| "hop_write _ = []"

fun hrequest_write :: "http_request \<Rightarrow> bytes list" where
  "hrequest_write (HAsyncWrite m) = [m]"
| "hrequest_write _ = []"

definition http_view :: "'x http_session \<Rightarrow> bytes writer" where
  "http_view s = \<lparr>wr_queue = hs_writeQueue s,
     wr_posted = mset (concat (map htask_posted (hs_socketStrand s))),
     wr_active = mset (concat (map hop_write (hs_pendingOps s))) +
       mset (concat (map htask_done (hs_socketStrand s))),
     wr_log = concat (map hrequest_write (hs_issued s))\<rparr>"

definition http_closed :: "'x http_session \<Rightarrow> bool" where
  "http_closed s \<longleftrightarrow> HSocketClose \<in> set (hs_issued s)"

definition never_urgent :: "bytes \<Rightarrow> bool" where
  "never_urgent m = False"

lemma http_view_frame [simp]:
  "http_view (s\<lparr>hs_isConnected := b\<rparr>) = http_view s"
  "http_view (s\<lparr>hs_readStrand := rs\<rparr>) = http_view s"
  "http_view (s\<lparr>hs_extCalls := xs\<rparr>) = http_view s"
  "http_view (http_configure oh ch rh s) = http_view s"
  "htask_posted t = [] \<Longrightarrow> htask_done t = [] \<Longrightarrow> http_view (http_post t s) = http_view s"
  "hop_write op = [] \<Longrightarrow> http_view (http_start_op op s) = http_view s"
  "hrequest_write r = [] \<Longrightarrow> http_view (http_issue r s) = http_view s"
  by (simp_all add: http_view_def http_configure_def http_post_def http_start_op_def http_issue_def)

lemma http_view_quiet [simp]:
  "http_view (http_cancelAllPendingOperations s) = http_view s"
  "http_view (http_close s) = http_view s" "http_view (http_drop s) = http_view s"
  "http_view (http_readNext s) = http_view s" "http_view (http_asyncHandshake s) = http_view s"
  "http_view (http_handleMessage m s) = http_view s" "http_view (http_handleRead m err n s) = http_view s"
  by (simp_all add: http_cancelAllPendingOperations_def http_close_def http_drop_def http_readNext_def
      http_asyncRead_def http_asyncHandshake_def http_handleMessage_def http_handleRead_def Let_def
      split: option.split)

lemma http_view_open: "http_open opt s = Inr t \<Longrightarrow> http_view t = http_view s"
  by (auto simp: http_open_def http_configureSocket_def split: if_splits option.splits)

abbreviation http_moves :: "bool \<Rightarrow> 'x http_session \<Rightarrow> 'x http_session \<Rightarrow> bool" where
  "http_moves faulty s t \<equiv> writer_moves never_urgent faulty (http_view s) (http_view t)"

lemma hmoves_send: "http_moves f s (http_send m s)"
proof (cases "hs_writeQueue s")
  case Nil
  then have "http_view (http_send m s) = (http_view s)\<lparr>wr_queue := [m],
      wr_posted := add_mset m (wr_posted (http_view s))\<rparr>"
    by (simp add: http_send_def http_writeNext_def http_post_def http_view_def)
  with writer_move.start [of "http_view s" never_urgent f m] Nil show ?thesis
    by (simp add: http_view_def r_into_rtranclp)
next
  case (Cons c r)
  then have "http_view (http_send m s) = (http_view s)\<lparr>wr_queue := c # r @ [m]\<rparr>"
    by (simp add: http_send_def http_view_def)
  with writer_move.append [of "http_view s" c r never_urgent m f] Cons show ?thesis
    by (simp add: http_view_def never_urgent_def r_into_rtranclp)
qed

lemma hmoves_run_calls: "http_moves f s (http_run_calls cs s)"
proof (induction cs arbitrary: s)
  case (Cons c cs)
  have "http_moves f s (http_run_call c s)" by (cases c) (simp_all add: hmoves_send)
  from rtranclp_trans [OF this Cons] show ?case by (simp add: http_run_calls_def)
qed (simp add: http_run_calls_def)

lemma hmoves_run_handler: "http_moves f s (http_run_handler h s)"
  by (cases h) (simp_all add: http_run_handler_def hmoves_run_calls)

lemma hmoves_handleHandshake: "http_moves f s (http_handleHandshake err s)"
  using hmoves_run_handler [of f "http_readNext s" "hs_openHandler (http_readNext s)"]
  by (simp add: http_handleHandshake_def Let_def)

section \<open>Requests are only appended\<close>

lemma hs_issued_simps [simp]:
  "hs_issued (http_configure oh ch rh s) = hs_issued s" "hs_issued (http_post t s) = hs_issued s"
  "hs_issued (http_start_op op s) = hs_issued s" "hs_issued (http_issue q s) = hs_issued s @ [q]"
  "hs_issued (http_cancelAllPendingOperations s) = hs_issued s"
  "hs_issued (http_close s) = hs_issued s" "hs_issued (http_drop s) = hs_issued s"
  "hs_issued (http_writeNext s) = hs_issued s" "hs_issued (http_send m s) = hs_issued s"
  "hs_issued (http_handleMessage m s) = hs_issued s" "hs_issued (http_handleWrite m err s) = hs_issued s"
  by (simp_all add: http_configure_def http_post_def http_start_op_def http_issue_def
      http_cancelAllPendingOperations_def http_close_def http_drop_def http_writeNext_def
      http_send_def http_handleMessage_def http_handleWrite_def Let_def split: option.split list.split)

lemma hs_issued_calls [simp]:
  "hs_issued (http_run_calls cs s) = hs_issued s" "hs_issued (http_run_handler h s) = hs_issued s"
proof -
  have call: "hs_issued (http_run_call c s) = hs_issued s" for c and s :: "'a http_session"
    by (cases c) simp_all
  show calls: "hs_issued (http_run_calls cs s) = hs_issued s" for cs
    unfolding http_run_calls_def by (induction cs arbitrary: s) (simp_all add: call)
  show "hs_issued (http_run_handler h s) = hs_issued s"
    by (cases h) (simp_all add: http_run_handler_def calls)
qed

lemma prefix_http_task: "prefix (hs_issued s) (hs_issued (http_run_task t s))"
  by (cases t) (simp_all add: http_asyncHandshake_def http_close_task_def http_asyncWrite_def
      http_handleHandshake_def http_handleRead_def http_readNext_def http_asyncRead_def Let_def)

lemma prefix_http_step: "http_step s e t \<Longrightarrow> prefix (hs_issued s) (hs_issued t)"
proof (induction rule: http_step.induct)
  case (socket_strand s t' ts)
  then show ?case using prefix_http_task [of "s\<lparr>hs_socketStrand := ts\<rparr>" t'] by simp
qed (auto simp: http_open_def http_configureSocket_def split: if_splits option.splits)

lemma http_closed_step: "http_step s e t \<Longrightarrow> http_closed s \<Longrightarrow> http_closed t"
  using set_mono_prefix [OF prefix_http_step] by (force simp: http_closed_def)

section \<open>Steps are moves of the writer\<close>

lemma http_pop [simp]:
  "hs_socketStrand s = t # ts \<Longrightarrow> htask_posted t = [] \<Longrightarrow> htask_done t = [] \<Longrightarrow>
     http_view (s\<lparr>hs_socketStrand := ts\<rparr>) = http_view s"
  by (simp add: http_view_def)

lemma hmoves_asyncWrite:
  assumes "hs_socketStrand s = HRunWrite m # ts"
  shows "http_moves f s (http_asyncWrite m (s\<lparr>hs_socketStrand := ts\<rparr>))"
proof -
  have "http_view (http_asyncWrite m (s\<lparr>hs_socketStrand := ts\<rparr>)) = (http_view s)
      \<lparr>wr_posted := wr_posted (http_view s) - {#m#},
       wr_active := add_mset m (wr_active (http_view s)), wr_log := wr_log (http_view s) @ [m]\<rparr>"
    using assms by (simp add: http_view_def http_asyncWrite_def http_start_op_def http_issue_def)
  with writer_move.issue [of m "http_view s" never_urgent f] assms show ?thesis
    by (simp add: http_view_def r_into_rtranclp)
qed

lemma hmoves_handleWrite:
  assumes "hs_socketStrand s = HOnWrite m err # ts" "f \<or> err = None"
  shows "http_moves f s (http_handleWrite m err (s\<lparr>hs_socketStrand := ts\<rparr>))"
proof -
  have active: "m \<in># wr_active (http_view s)" using assms(1) by (simp add: http_view_def)
  let ?w = "(http_view s)\<lparr>wr_queue := tl (wr_queue (http_view s)),
      wr_active := wr_active (http_view s) - {#m#}\<rparr>"
  show ?thesis
  proof (cases "err = None")
    case True
    then have "http_view (http_handleWrite m err (s\<lparr>hs_socketStrand := ts\<rparr>)) =
        ?w\<lparr>wr_posted := wr_posted (http_view s) + head_mset (tl (wr_queue (http_view s)))\<rparr>"
      using assms(1)
      by (auto simp: http_handleWrite_def http_writeNext_def http_post_def http_view_def Let_def
          neq_Nil_conv split: list.splits)
    with writer_move.finish_ok [OF active, of never_urgent f] show ?thesis
      by (simp add: r_into_rtranclp)
  next
    case False
    have eq: "http_view (s\<lparr>hs_socketStrand := ts\<rparr>) = http_view
        (s\<lparr>hs_socketStrand := ts, hs_writeQueue := tl (hs_writeQueue s)\<rparr>)" if "hs_writeQueue s = []"
      using that by (simp add: http_view_def)
    with False have "http_view (http_handleWrite m err (s\<lparr>hs_socketStrand := ts\<rparr>)) =
        http_view (s\<lparr>hs_socketStrand := ts, hs_writeQueue := tl (hs_writeQueue s)\<rparr>)"
      by (cases "hs_writeQueue s = []") (auto simp: http_handleWrite_def Let_def)
    also have "\<dots> = ?w" using assms(1) by (simp add: http_view_def)
    finally show ?thesis
      using writer_move.finish_error [OF _ active, of f never_urgent] assms(2) False
      by (simp add: r_into_rtranclp)
  qed
qed

definition http_write_succeeds :: "'x http_session \<Rightarrow> 'x http_event \<Rightarrow> bool" where
  "http_write_succeeds s e \<longleftrightarrow> (case (e, hs_socketStrand s) of
      (HSocketStrand, HOnWrite m err # _) \<Rightarrow> err = None | _ \<Rightarrow> True)"

lemma hmoves_task:
  assumes "hs_socketStrand s = t # ts" "f \<or> (\<forall>m e. t \<noteq> HOnWrite m (Some e))" "t \<noteq> HRunClose"
  shows "http_moves f s (http_run_task t (s\<lparr>hs_socketStrand := ts\<rparr>))"
proof (cases t)
  case (HOnHandshake err)
  with assms(1) hmoves_handleHandshake [of f "s\<lparr>hs_socketStrand := ts\<rparr>" err] show ?thesis by simp
next
  case (HOnWrite m err)
  with assms(1,2) hmoves_handleWrite [of s m err ts f] show ?thesis by (cases err) auto
next
  case (HRunWrite m)
  with assms(1) hmoves_asyncWrite [of s m ts f] show ?thesis by simp
qed (use assms in simp_all)

lemma http_view_complete:
  assumes "i < length (hs_pendingOps s)"
  shows "http_view (http_post (http_completion (hs_pendingOps s ! i) err bs)
    (s\<lparr>hs_pendingOps := remove_at i (hs_pendingOps s)\<rparr>)) = http_view s"
  using mset_concat_remove_at [OF assms, of hop_write]
  by (cases "hs_pendingOps s ! i") (simp_all add: http_view_def http_post_def)

lemma hmoves_step:
  assumes "http_step s e t" "\<not> http_closed t" "f \<or> http_write_succeeds s e"
  shows "http_moves f s t"
  using assms(1)
proof cases
  case (socket_strand t' ts)
  have "http_closed (http_close_task (s\<lparr>hs_socketStrand := ts\<rparr>))"
    by (simp add: http_closed_def http_close_task_def Let_def)
  then have "t' \<noteq> HRunClose" using assms(2) socket_strand by auto
  moreover have "f \<or> (\<forall>m e. t' \<noteq> HOnWrite m (Some e))"
    using assms(3) socket_strand by (auto simp: http_write_succeeds_def)
  ultimately show ?thesis using socket_strand hmoves_task by blast
next
  case (read_strand h m ts)
  with hmoves_run_calls [of f "s\<lparr>hs_readStrand := ts\<rparr>"] show ?thesis by simp
qed (simp_all add: hmoves_send http_view_open http_view_complete)

definition http_next_ok :: "'x http_session \<Rightarrow> 'x http_session \<Rightarrow> bool" where
  "http_next_ok s t \<longleftrightarrow> (\<exists>e. http_step s e t \<and> http_write_succeeds s e)"

lemma http_view_create: "http_start s \<Longrightarrow> http_view s = writer_empty"
  by (simp add: http_start_def http_create_def http_view_def writer_empty_def)

interpretation http_writer:
  message_writer http_start http_next http_view http_closed never_urgent True
  by unfold_locales
    (auto simp: http_next_def http_view_create intro: http_closed_step hmoves_step)

interpretation http_steady:
  steady_writer http_start http_next_ok http_view http_closed never_urgent
  by unfold_locales
    (auto simp: http_next_ok_def http_view_create intro: http_closed_step hmoves_step)

end
