(* ===== verification/HTTPLifecycle.thy ===== *)
theory HTTPLifecycle
  imports HTTPWriting
begin

text \<open>
  The life of a \<open>ClientHTTPSession\<close>.  Its openings, closings and connected flag balance exactly,
  because, unlike \<open>Session\<close>, its \<open>handleHandshake\<close> never sets the flag.  A second invariant
  describes its reads: their buffers are 10240 bytes, and what is handed to the receive handler is
  never empty and never longer.
\<close>

section \<open>Counting\<close>

fun htask_busy :: "http_task \<Rightarrow> nat" where
  "htask_busy HRunHandshake = 1"
| "htask_busy (HOnHandshake _) = 1"
| "htask_busy (HOnRead _ _ _) = 1"
| "htask_busy _ = 0"

fun hop_busy :: "http_op \<Rightarrow> nat" where
  "hop_busy HOpHandshake = 1"
| "hop_busy (HOpRead _) = 1"
| "hop_busy _ = 0"

definition http_opens :: "'x http_session \<Rightarrow> nat" where
  "http_opens s = count_list (hs_issued s) HSetNoDelay"

text \<open>How often the socket has been closed; \<open>HTTPCalls\<close> counts the runs of the close handler.\<close>

definition http_closes :: "'x http_session \<Rightarrow> nat" where
  "http_closes s = count_list (hs_issued s) HSocketClose"

text \<open>Handshakes and reads under way.\<close>

definition http_busy :: "'x http_session \<Rightarrow> nat" where
  "http_busy s = sum_list (map htask_busy (hs_socketStrand s)) + sum_list (map hop_busy (hs_pendingOps s))"

definition http_life :: "'x http_session \<Rightarrow> nat \<times> nat \<times> nat" where
  "http_life s = (http_opens s,
     http_closes s + count_list (hs_socketStrand s) HRunClose + of_bool (hs_isConnected s), http_busy s)"

lemmas http_life_defs = http_life_def http_opens_def http_closes_def http_busy_def

lemma http_life_frame [simp]:
  "http_life (s\<lparr>hs_readStrand := rs\<rparr>) = http_life s"
  "http_life (s\<lparr>hs_writeQueue := q\<rparr>) = http_life s"
  "http_life (s\<lparr>hs_extCalls := xs\<rparr>) = http_life s"
  "http_life (http_configure oh ch rh s) = http_life s"
  "htask_busy t = 0 \<Longrightarrow> t \<noteq> HRunClose \<Longrightarrow> http_life (http_post t s) = http_life s"
  "hop_busy op = 0 \<Longrightarrow> http_life (http_start_op op s) = http_life s"
  "r \<noteq> HSetNoDelay \<Longrightarrow> r \<noteq> HSocketClose \<Longrightarrow> http_life (http_issue r s) = http_life s"
  by (simp_all add: http_life_defs http_configure_def http_post_def http_start_op_def http_issue_def)

lemma http_life_ops [simp]:
  "http_life (http_cancelAllPendingOperations s) = http_life s"
  "http_life (http_writeNext s) = http_life s"
  "http_life (http_handleMessage m s) = http_life s"
  by (simp_all add: http_cancelAllPendingOperations_def http_writeNext_def http_handleMessage_def
      split: option.split list.split)

lemma http_life_close [simp]: "http_life (http_close s) = http_life s"
proof -
  have "http_life (http_post HRunClose (r\<lparr>hs_isConnected := False\<rparr>)) = http_life r"
    if "hs_isConnected r" for r :: "'a http_session"
    using that by (simp add: http_life_defs http_post_def)
  then show ?thesis by (simp add: http_close_def Let_def)
qed

lemma http_life_calls [simp]:
  "http_life (http_drop s) = http_life s" "http_life (http_send m s) = http_life s"
  "http_life (http_handleWrite m err s) = http_life s"
  "http_life (http_run_calls cs s) = http_life s" "http_life (http_run_handler h s) = http_life s"
proof -
  show d: "http_life (http_drop s) = http_life s" and w: "http_life (http_send m s) = http_life s"
    and "http_life (http_handleWrite m err s) = http_life s" for s :: "'a http_session" and m
    by (simp_all add: http_drop_def http_send_def http_handleWrite_def Let_def)
  have call: "http_life (http_run_call c s) = http_life s" for c and s :: "'a http_session"
    by (cases c) (simp_all add: d w)
  show calls: "http_life (http_run_calls cs s) = http_life s" for cs
    unfolding http_run_calls_def by (induction cs arbitrary: s) (simp_all add: call)
  show "http_life (http_run_handler h s) = http_life s"
    by (cases h) (simp_all add: http_run_handler_def calls)
qed

definition http_inv :: "'x http_session \<Rightarrow> bool" where
  "http_inv s \<longleftrightarrow> (case http_life s of (opens, lives, busy) \<Rightarrow> lives = opens \<and> busy \<le> opens)"

lemma http_life_start:
  "http_life (http_readNext s) = (case http_life s of (a, b, c) \<Rightarrow> (a, b, Suc c))"
  "http_life (http_asyncHandshake s) = (case http_life s of (a, b, c) \<Rightarrow> (a, b, Suc c))"
  "http_life (http_close_task s) = (case http_life s of (a, b, c) \<Rightarrow> (a, Suc b, c))"
proof -
  have start: "http_life (http_start_op op s) = (case http_life s of (a, b, c) \<Rightarrow> (a, b, Suc c))"
    if "hop_busy op = 1" for op and s :: "'a http_session"
    using that by (simp add: http_life_defs http_start_op_def)
  show "http_life (http_readNext s) = (case http_life s of (a, b, c) \<Rightarrow> (a, b, Suc c))"
    and "http_life (http_asyncHandshake s) = (case http_life s of (a, b, c) \<Rightarrow> (a, b, Suc c))"
    by (simp_all add: http_readNext_def http_asyncRead_def http_asyncHandshake_def start)
  have "http_life (http_issue HSocketClose s) = (case http_life s of (a, b, c) \<Rightarrow> (a, Suc b, c))"
    for s :: "'a http_session" by (simp add: http_life_defs http_issue_def)
  then show "http_life (http_close_task s) = (case http_life s of (a, b, c) \<Rightarrow> (a, Suc b, c))"
    by (simp add: http_close_task_def Let_def)
qed

lemma http_life_handlers:
  "http_life (http_handleHandshake err s) =
     (case http_life s of (a, b, c) \<Rightarrow> (a, b, c + of_bool (err = None)))"
  "http_life (http_handleRead m err n s) =
     (case http_life s of (a, b, c) \<Rightarrow> (a, b, c + of_bool (err = None \<and> n \<noteq> 0)))"
  by (simp_all add: http_handleHandshake_def http_handleRead_def Let_def http_life_start
      split: prod.split)

lemma http_life_pop:
  "hs_socketStrand s = t # ts \<Longrightarrow> http_life s = (case http_life (s\<lparr>hs_socketStrand := ts\<rparr>) of
     (a, b, c) \<Rightarrow> (a, b + of_bool (t = HRunClose), htask_busy t + c))"
  by (simp add: http_life_defs)

lemma http_inv_task:
  assumes "hs_socketStrand s = t # ts" "http_inv s"
  shows "http_inv (http_run_task t (s\<lparr>hs_socketStrand := ts\<rparr>))"
proof -
  obtain a b c where l: "http_life (s\<lparr>hs_socketStrand := ts\<rparr>) = (a, b, c)" by (metis prod.exhaust)
  with assms show ?thesis
    by (cases t) (auto simp: http_inv_def http_life_pop [OF assms(1)] http_life_start
        http_life_handlers http_asyncWrite_def)
qed

lemma http_inv_open: "http_open opt s = Inr t \<Longrightarrow> http_inv s \<Longrightarrow> http_inv t"
  by (auto simp: http_open_def http_configureSocket_def http_inv_def http_life_defs http_post_def
      http_issue_def split: if_splits option.splits)

lemma http_life_complete:
  assumes "i < length (hs_pendingOps s)"
  shows "http_life (http_post (http_completion (hs_pendingOps s ! i) err bs)
    (s\<lparr>hs_pendingOps := remove_at i (hs_pendingOps s)\<rparr>)) = http_life s"
  using sum_list_remove_at [OF assms, of hop_busy]
  by (cases "hs_pendingOps s ! i") (simp_all add: http_life_defs http_post_def)

lemma http_inv_same: "http_life t = http_life s \<Longrightarrow> http_inv s \<Longrightarrow> http_inv t"
  by (simp add: http_inv_def)

lemma http_inv_step: "http_inv s \<Longrightarrow> http_next s t \<Longrightarrow> http_inv t"
  unfolding http_next_def
  by (auto elim!: http_step.cases
      intro: http_inv_task http_inv_open http_inv_same [OF http_life_complete] elim: http_inv_same [rotated])

interpretation http_account: inductive_invariant http_start http_next http_inv
proof unfold_locales
  show "http_inv s" if "http_start s" for s :: "'a http_session"
    using that by (simp add: http_start_def http_create_def http_inv_def http_life_defs)
qed (rule http_inv_step)

section \<open>What is read\<close>

fun hop_ok :: "http_op \<Rightarrow> bool" where
  "hop_ok (HOpRead m) \<longleftrightarrow> length m = 10240"
| "hop_ok _ \<longleftrightarrow> True"

fun htask_ok :: "http_task \<Rightarrow> bool" where
  "htask_ok (HOnRead m err n) \<longleftrightarrow> length m = 10240 \<and> n \<le> 10240"
| "htask_ok _ \<longleftrightarrow> True"

definition hmessage_ok :: "bytes \<Rightarrow> bool" where
  "hmessage_ok m \<longleftrightarrow> m \<noteq> [] \<and> length m \<le> 10240"

definition http_reads_ok :: "'x http_session \<Rightarrow> bool" where
  "http_reads_ok s \<longleftrightarrow> list_all hop_ok (hs_pendingOps s) \<and> list_all htask_ok (hs_socketStrand s) \<and>
     list_all (\<lambda>(h, m). hmessage_ok m) (hs_readStrand s)"

lemma reads_ok_frame [simp]:
  "http_reads_ok (s\<lparr>hs_isConnected := b\<rparr>) = http_reads_ok s"
  "http_reads_ok (s\<lparr>hs_writeQueue := q\<rparr>) = http_reads_ok s"
  "http_reads_ok (s\<lparr>hs_extCalls := xs\<rparr>) = http_reads_ok s"
  "http_reads_ok (http_configure oh ch rh s) = http_reads_ok s"
  "http_reads_ok (http_issue r s) = http_reads_ok s"
  "http_reads_ok (http_post t s) \<longleftrightarrow> htask_ok t \<and> http_reads_ok s"
  "http_reads_ok (http_start_op op s) \<longleftrightarrow> hop_ok op \<and> http_reads_ok s"
  by (auto simp: http_reads_ok_def http_configure_def http_post_def http_start_op_def http_issue_def)

lemma reads_ok_ops [simp]:
  "http_reads_ok (http_cancelAllPendingOperations s) = http_reads_ok s"
  "http_reads_ok (http_close s) = http_reads_ok s" "http_reads_ok (http_drop s) = http_reads_ok s"
  "http_reads_ok (http_writeNext s) = http_reads_ok s" "http_reads_ok (http_send m s) = http_reads_ok s"
  "http_reads_ok (http_handleWrite m err s) = http_reads_ok s"
  "http_reads_ok (http_readNext s) = http_reads_ok s"
  by (simp_all add: http_cancelAllPendingOperations_def http_close_def http_drop_def
      http_writeNext_def http_send_def http_handleWrite_def http_readNext_def http_asyncRead_def Let_def
      split: list.split)

lemma reads_ok_calls [simp]:
  "http_reads_ok (http_run_calls cs s) = http_reads_ok s"
  "http_reads_ok (http_run_handler h s) = http_reads_ok s"
proof -
  have call: "http_reads_ok (http_run_call c s) = http_reads_ok s" for c and s :: "'a http_session"
    by (cases c) simp_all
  show calls: "http_reads_ok (http_run_calls cs s) = http_reads_ok s" for cs
    unfolding http_run_calls_def by (induction cs arbitrary: s) (simp_all add: call)
  show "http_reads_ok (http_run_handler h s) = http_reads_ok s"
    by (cases h) (simp_all add: http_run_handler_def calls)
qed

lemma reads_ok_read:
  "length m = 10240 \<Longrightarrow> n \<le> 10240 \<Longrightarrow> http_reads_ok s \<Longrightarrow> http_reads_ok (http_handleRead m err n s)"
  by (auto simp: http_handleRead_def http_handleMessage_def take_vector_resize split: option.split)
    (auto simp: http_reads_ok_def hmessage_ok_def)

lemma reads_ok_task: "htask_ok t \<Longrightarrow> http_reads_ok s \<Longrightarrow> http_reads_ok (http_run_task t s)"
  by (cases t) (simp_all add: reads_ok_read http_asyncHandshake_def http_close_task_def
      http_asyncWrite_def http_handleHandshake_def Let_def)

lemma reads_ok_completion:
  "hop_ok op \<Longrightarrow> htask_ok (http_completion op err bs)"
  by (cases op) simp_all

lemma list_all_remove_at: "list_all P xs \<Longrightarrow> list_all P (remove_at i xs)"
  by (auto simp: remove_at_def list_all_iff dest: in_set_takeD in_set_dropD)

lemma reads_ok_step: "http_reads_ok s \<Longrightarrow> http_next s t \<Longrightarrow> http_reads_ok t"
proof -
  assume s: "http_reads_ok s" and "http_next s t"
  then obtain e where "http_step s e t" by (auto simp: http_next_def)
  then show "http_reads_ok t"
  proof cases
    case (socket_strand t' ts)
    with s have "htask_ok t'" "http_reads_ok (s\<lparr>hs_socketStrand := ts\<rparr>)"
      by (simp_all add: http_reads_ok_def)
    then show ?thesis unfolding socket_strand(2) by (rule reads_ok_task)
  next
    case (read_strand h m ts)
    with s have "http_reads_ok (s\<lparr>hs_readStrand := ts\<rparr>)" by (simp add: http_reads_ok_def)
    then show ?thesis unfolding read_strand(2) by simp
  next
    case (complete i err bs)
    with s have "hop_ok (hs_pendingOps s ! i)" by (simp add: http_reads_ok_def list_all_length)
    with complete s show ?thesis
      by (simp add: reads_ok_completion) (simp add: http_reads_ok_def list_all_remove_at)
  qed (use s in \<open>auto simp: http_open_def http_configureSocket_def split: if_splits option.splits\<close>)
qed

interpretation http_reader: inductive_invariant http_start http_next http_reads_ok
proof unfold_locales
  show "http_reads_ok s" if "http_start s" for s :: "'a http_session"
    using that by (simp add: http_start_def http_create_def http_reads_ok_def)
qed (rule reads_ok_step)

section \<open>Properties\<close>

lemmas http_eval [run_simps] = http_create_def http_configure_def http_post_def http_issue_def
  http_start_op_def http_cancelAllPendingOperations_def http_close_def http_drop_def
  http_configureSocket_def http_open_def http_writeNext_def http_send_def http_asyncWrite_def
  http_handleWrite_def http_run_calls_def http_run_handler_def http_close_task_def
  http_asyncRead_def http_readNext_def http_asyncHandshake_def http_handleHandshake_def
  http_handleMessage_def http_handleRead_def http_view_def http_closed_def http_life_defs

definition http_handshake_events :: "'x http_event list" where
  "http_handshake_events = [HOpen None, HSocketStrand, HComplete 0 None [], HSocketStrand]"

text \<open>\<open>ClientHTTPSession::send\<close> puts its payload behind everything accepted before, and it does
  so, and starts a write, exactly once: a session none of whose writes failed has a write in flight
  exactly if its queue is not empty, before and after the call.\<close>

lemma http_send_accepts:
  assumes "reach http_start http_next_ok s" "\<not> http_closed s"
  shows "accepted (http_view (http_send m s)) = accepted (http_view s) @ [m] \<and>
    (hs_writeQueue s \<noteq> [] \<longleftrightarrow> in_flight (http_view s) \<noteq> {#}) \<and>
    size (in_flight (http_view (http_send m s))) = 1"
proof -
  from http_steady.never_stalls [OF assms] have busy: "writer_busy (http_view s)" .
  note sw = writer_busy_single [OF busy]
  have "accepted (http_view (http_send m s)) = accepted (http_view s) @ [m]"
    using single_writerD(1) [OF sw] by (cases "hs_writeQueue s")
      (auto simp: http_send_def http_writeNext_def http_post_def accepted_def unissued_def http_view_def)
  moreover have "size (in_flight (http_view (http_send m s))) = 1"
    using busy single_writerD(1) [OF sw] by (cases "hs_writeQueue s")
      (auto simp: http_send_def http_writeNext_def http_post_def writer_busy_def in_flight_def http_view_def)
  moreover have "hs_writeQueue s \<noteq> [] \<longleftrightarrow> in_flight (http_view s) \<noteq> {#}"
    using busy by (cases "hs_writeQueue s") (auto simp: writer_busy_def http_view_def)
  ultimately show ?thesis by blast
qed

lemma http_send_accepts_witness:
  "accepted (http_view (http_send [1, 2] (http_create :: nat http_session))) = [[1, 2]]"
proof -
  have "reach http_start http_next_ok (http_create :: nat http_session)"
    by (rule reach.reach_init) (simp add: http_start_def)
  moreover have "\<not> http_closed (http_create :: nat http_session)" by (simp add: run_simps)
  ultimately show ?thesis
    using http_send_accepts [of "http_create :: nat http_session" "[1, 2]"]
    by (simp add: run_simps accepted_def unissued_def)
qed

lemma http_read_next_frame [simp]: "hs_readStrand (http_readNext s) = hs_readStrand s"
  by (simp add: run_simps)

lemma http_read_chunk:
  assumes "length buf = 10240" "0 < length bs" "length bs \<le> 10240"
  shows "http_run_task (http_completion (HOpRead buf) None bs) r = http_readNext (case hs_receiveHandler r of
      Some h \<Rightarrow> if hs_isConnected r then r\<lparr>hs_readStrand := hs_readStrand r @ [(h, bs)]\<rparr> else r
    | None \<Rightarrow> r)"
proof -
  have "vector_resize (length bs) (overlay bs buf) = bs" "min (length bs) (length buf) = length bs"
    using assms by (simp_all add: take_vector_resize) (simp add: overlay_def)
  with assms(2) show ?thesis by (auto simp: http_handleRead_def http_handleMessage_def split: option.split)
qed

text \<open>A session that reads, and the same session after its read has completed with three bytes.\<close>

lemma http_chunk_run:
  "\<exists>s buf. http_reachable s \<and> hs_pendingOps s = [HOpRead buf] \<and> length buf = 10240 \<and> hs_isConnected s \<and>
     hs_receiveHandler s = Some (\<lambda>_. []) \<and> hs_readStrand s = [] \<and> hs_socketStrand s = []"
proof -
  have "\<exists>s buf. run http_exec http_create (HConfigure None None (Some (\<lambda>_. [])) # http_handshake_events) = Some s \<and>
     hs_pendingOps s = [HOpRead buf] \<and> length buf = 10240 \<and> hs_isConnected s \<and>
     hs_receiveHandler s = Some (\<lambda>_. []) \<and> hs_readStrand s = [] \<and> hs_socketStrand s = []"
    by (simp add: run_simps http_handshake_events_def)
  then show ?thesis using http_reachable_run by blast
qed

lemma http_chunk_queued:
  "\<exists>s :: nat http_session. http_reachable s \<and> hs_readStrand s = [(\<lambda>_. [], [1, 2, 3])]"
proof -
  obtain s :: "nat http_session" and buf where s: "http_reachable s" "hs_pendingOps s = [HOpRead buf]"
    "length buf = 10240" "hs_isConnected s" "hs_receiveHandler s = Some (\<lambda>_. [])" "hs_readStrand s = []"
    "hs_socketStrand s = []" using http_chunk_run by blast
  let ?t = "http_completion (HOpRead buf) None [1, 2, 3]"
  let ?s1 = "http_post ?t (s\<lparr>hs_pendingOps := []\<rparr>)"
  have "http_next s ?s1"
    using http_step.complete [of 0 s None "[1, 2, 3]"] s(2) unfolding http_next_def remove_at_def by force
  moreover have "http_next ?s1 (http_run_task ?t (?s1\<lparr>hs_socketStrand := []\<rparr>))"
    using http_step.socket_strand [of ?s1 ?t "[]"] s(7) unfolding http_next_def http_post_def by force
  ultimately have "http_reachable (http_run_task ?t (?s1\<lparr>hs_socketStrand := []\<rparr>))"
    using s(1) by (meson reach.reach_step)
  moreover have "hs_readStrand (http_run_task ?t (?s1\<lparr>hs_socketStrand := []\<rparr>)) = [(\<lambda>_. [], [1, 2, 3])]"
    by (subst http_read_chunk) (use s in \<open>simp_all add: http_post_def\<close>)
  ultimately show ?thesis by blast
qed

text \<open>Whatever a \<open>ClientHTTPSession\<close> hands to its receive handler is a non-empty string of at
  most 10240 bytes: a read that completes without bytes closes the session instead.\<close>

lemma http_never_delivers_empty:
  assumes "http_reachable s" "(h, m) \<in> set (hs_readStrand s)"
  shows "0 < length m \<and> length m \<le> 10240"
  using http_reader.reachable_inv [OF assms(1)] assms(2)
  by (auto simp: http_reads_ok_def list_all_iff hmessage_ok_def)

lemma http_never_delivers_empty_witness:
  "\<exists>s :: nat http_session. \<exists>h m. http_reachable s \<and> (h, m) \<in> set (hs_readStrand s) \<and> 0 < length m"
proof -
  obtain s :: "nat http_session" where s: "http_reachable s" "hs_readStrand s = [(\<lambda>_. [], [1, 2, 3])]"
    using http_chunk_queued by blast
  from s(2) have m: "(\<lambda>_. [], [1, 2, 3]) \<in> set (hs_readStrand s)" by simp
  from http_never_delivers_empty [OF s(1) m] m s(1) show ?thesis by blast
qed

text \<open>In every reachable state, a pending read that completes with a chunk of one to 10240 bytes
  hands exactly this chunk to the receive handler, if there is one and the session is connected, and
  starts the next read.\<close>

lemma http_read_delivers_chunk:
  assumes "http_reachable s" "HOpRead buf \<in> set (hs_pendingOps s)"
    and "0 < length bs" "length bs \<le> 10240"
  shows "http_run_task (http_completion (HOpRead buf) None bs) r = http_readNext (case hs_receiveHandler r of
      Some h \<Rightarrow> if hs_isConnected r then r\<lparr>hs_readStrand := hs_readStrand r @ [(h, bs)]\<rparr> else r
    | None \<Rightarrow> r)"
  using http_reader.reachable_inv [OF assms(1)] assms(2-4)
  by (intro http_read_chunk) (auto simp: http_reads_ok_def list_all_iff)

lemma http_read_delivers_chunk_witness:
  "\<exists>s :: nat http_session. \<exists>buf. http_reachable s \<and> hs_pendingOps s = [HOpRead buf] \<and>
     map snd (hs_readStrand (http_run_task (http_completion (HOpRead buf) None [1, 2, 3]) s)) = [[1, 2, 3]]"
proof -
  obtain s :: "nat http_session" and buf where s: "http_reachable s"
    "hs_pendingOps s = [HOpRead buf]" "hs_isConnected s" "hs_receiveHandler s = Some (\<lambda>_. [])"
    "hs_readStrand s = []" using http_chunk_run by blast
  have "http_run_task (http_completion (HOpRead buf) None [1, 2, 3]) s =
      http_readNext (s\<lparr>hs_readStrand := [(\<lambda>_. [], [1, 2, 3])]\<rparr>)"
    by (subst http_read_delivers_chunk [OF s(1), of buf]) (use s in simp_all)
  then have "map snd (hs_readStrand (http_run_task (http_completion (HOpRead buf) None [1, 2, 3]) s)) = [[1, 2, 3]]"
    by (simp only: http_read_next_frame) simp
  with s(1,2) show ?thesis by (intro exI [of _ s] exI [of _ buf] conjI)
qed

end
