(* ===== verification/HTTPCalls.thy ===== *)
theory HTTPCalls
  imports HTTPLifecycle
begin

text \<open>
  What the handlers of a \<open>ClientHTTPSession\<close> do: which event runs which handler, what the calls of
  the handler send, and which calls outside the session they make.  With this the messages accepted
  for writing are pinned to the payloads given to \<open>send\<close>, from outside or by a handler, and the runs
  of the close handler are counted by the calls it makes, not by the socket it closes.
\<close>

section \<open>The calls of an event\<close>

fun http_sent :: "'x http_call list \<Rightarrow> bytes list" where
  "http_sent [] = []"
| "http_sent (HCallSend m # cs) = m # http_sent cs"
| "http_sent (c # cs) = http_sent cs"

fun http_exts :: "'x http_call list \<Rightarrow> 'x list" where
  "http_exts [] = []"
| "http_exts (HCallExt x # cs) = x # http_exts cs"
| "http_exts (c # cs) = http_exts cs"

definition http_calls :: "'x http_call list option \<Rightarrow> 'x http_call list" where
  "http_calls h = (case h of None \<Rightarrow> [] | Some cs \<Rightarrow> cs)"

lemma http_calls_simps [simp]: "http_calls None = []" "http_calls (Some cs) = cs"
  by (simp_all add: http_calls_def)

text \<open>The close task runs the close handler, a handshake that succeeded the open handler, and the strand
  of received messages the receive handler given with the message; no other event runs a handler.\<close>

definition http_event_calls :: "'x http_session \<Rightarrow> 'x http_event \<Rightarrow> 'x http_call list" where
  "http_event_calls s e = (case e of
      HSocketStrand \<Rightarrow> (case hs_socketStrand s of
          HRunClose # _ \<Rightarrow> http_calls (hs_closeHandler s)
        | HOnHandshake None # _ \<Rightarrow> http_calls (hs_openHandler s)
        | _ \<Rightarrow> [])
    | HReadStrand \<Rightarrow> (case hs_readStrand s of (h, m) # _ \<Rightarrow> h m | [] \<Rightarrow> [])
    | _ \<Rightarrow> [])"

text \<open>The payloads an event, and the events of a run, give to \<open>send\<close>.\<close>

definition http_given :: "'x http_session \<Rightarrow> 'x http_event \<Rightarrow> bytes list" where
  "http_given s e = (case e of HSend m \<Rightarrow> [m] | _ \<Rightarrow> http_sent (http_event_calls s e))"

fun http_run_given :: "'x http_session \<Rightarrow> 'x http_event list \<Rightarrow> bytes list" where
  "http_run_given s [] = []"
| "http_run_given s (e # es) = http_given s e @
     (case http_exec s e of None \<Rightarrow> [] | Some t \<Rightarrow> http_run_given t es)"

lemma http_handler_frame [simp]:
  "hs_closeHandler (http_issue r s) = hs_closeHandler s" "hs_openHandler (http_readNext s) = hs_openHandler s"
  by (simp_all add: http_issue_def http_readNext_def http_asyncRead_def http_start_op_def)

lemma http_run_handler_calls: "http_run_handler h s = http_run_calls (http_calls h) s"
  by (cases h) (simp_all add: http_run_handler_def http_run_calls_def)

section \<open>Messages accepted\<close>

definition http_accepted :: "'x http_session \<Rightarrow> bytes list" where
  "http_accepted s = accepted (http_view s)"

abbreviation http_single :: "'x http_session \<Rightarrow> bool" where
  "http_single s \<equiv> single_writer (http_view s)"

lemma accepted_send: "http_single s \<Longrightarrow> http_accepted (http_send m s) = http_accepted s @ [m]"
  using single_writerD(1) [of "http_view s"]
  by (cases "hs_writeQueue s")
    (auto simp: http_send_def http_writeNext_def http_post_def http_accepted_def accepted_def unissued_def http_view_def)

lemma accepted_calls:
  "http_single s \<Longrightarrow> http_accepted (http_run_calls cs s) = http_accepted s @ http_sent cs"
proof (induction cs arbitrary: s)
  case (Cons c cs)
  have "http_moves True s (http_run_call c s)" by (cases c) (simp_all add: hmoves_send)
  from single_writer_moves [OF this Cons.prems] Cons.IH [of "http_run_call c s"]
  have "http_accepted (http_run_calls (c # cs) s) = http_accepted (http_run_call c s) @ http_sent cs"
    by (simp add: http_run_calls_def)
  also have "http_accepted (http_run_call c s) = http_accepted s @ http_sent [c]"
    using Cons.prems by (cases c) (simp_all add: accepted_send, simp_all add: http_accepted_def)
  finally show ?case by (cases c) simp_all
qed (simp add: http_run_calls_def)

lemma accepted_asyncWrite:
  assumes "hs_socketStrand s = HRunWrite m # ts" "http_single s"
  shows "http_accepted (http_asyncWrite m (s\<lparr>hs_socketStrand := ts\<rparr>)) = http_accepted s"
proof -
  have "m \<in># wr_posted (http_view s)" using assms(1) by (simp add: http_view_def)
  from single_writerD(2) [OF assms(2) this] assms(1) show ?thesis
    by (auto simp: http_accepted_def accepted_def unissued_def http_view_def http_asyncWrite_def
        http_start_op_def http_issue_def)
qed

lemma accepted_quiet: "http_view t = http_view s \<Longrightarrow> http_accepted t = http_accepted s"
  by (simp add: http_accepted_def)

lemma accepted_writeNext: "http_accepted (http_writeNext s) = http_accepted s"
  by (cases "hs_writeQueue s")
    (simp_all add: http_writeNext_def http_post_def http_accepted_def accepted_def unissued_def http_view_def)

lemma accepted_handleWrite:
  assumes "hs_socketStrand s = HOnWrite m err # ts" "http_single s"
  shows "http_accepted (http_handleWrite m err (s\<lparr>hs_socketStrand := ts\<rparr>)) = http_accepted s"
proof -
  have "m \<in># wr_active (http_view s)" using assms(1) by (simp add: http_view_def)
  from single_writerD(3) [OF assms(2) this] assms(1) obtain r where r: "hs_writeQueue s = m # r"
    "mset (concat (map hop_write (hs_pendingOps s))) + mset (concat (map htask_done ts)) = {#}"
    by (auto simp: http_view_def)
  let ?t = "s\<lparr>hs_socketStrand := ts, hs_writeQueue := r\<rparr>"
  have "http_accepted ?t = http_accepted s"
    using assms(1) r by (auto simp: http_accepted_def accepted_def unissued_def http_view_def)
  moreover have "http_handleWrite m err (s\<lparr>hs_socketStrand := ts\<rparr>) = (if err = None then http_writeNext ?t
      else if err \<noteq> Some OperationAborted then http_close ?t else ?t)"
    using r(1) by (auto simp: http_handleWrite_def Let_def)
  moreover have "http_accepted (http_close ?t) = http_accepted ?t" by (simp add: http_accepted_def)
  ultimately show ?thesis by (simp add: accepted_writeNext)
qed

lemma accepted_task:
  assumes "hs_socketStrand s = t # ts" "http_single s" "t \<noteq> HRunClose"
  shows "http_accepted (http_run_task t (s\<lparr>hs_socketStrand := ts\<rparr>)) =
    http_accepted s @ http_given s HSocketStrand"
proof (cases t)
  case (HOnHandshake err)
  have v: "http_view (s\<lparr>hs_socketStrand := ts\<rparr>) = http_view s" using assms(1) HOnHandshake by simp
  then have "http_single (http_readNext (s\<lparr>hs_socketStrand := ts\<rparr>))" using assms(2) by simp
  with v show ?thesis using HOnHandshake assms(1)
    by (cases err) (auto simp: http_given_def http_event_calls_def http_handleHandshake_def Let_def
        http_run_handler_calls accepted_calls, auto simp: http_accepted_def)
next
  case (HOnWrite m err)
  with assms accepted_handleWrite [of s m err ts] show ?thesis
    by (simp add: http_given_def http_event_calls_def)
next
  case (HRunWrite m)
  with assms accepted_asyncWrite [of s m ts] show ?thesis
    by (simp add: http_given_def http_event_calls_def)
qed (use assms in \<open>auto simp: http_given_def http_event_calls_def intro!: accepted_quiet\<close>)

lemma accepted_step:
  assumes "http_step s e t" "\<not> http_closed t" "http_single s"
  shows "http_accepted t = http_accepted s @ http_given s e"
  using assms(1)
proof cases
  case (socket_strand t' ts)
  have "http_closed (http_close_task (s\<lparr>hs_socketStrand := ts\<rparr>))"
    by (simp add: http_closed_def http_close_task_def Let_def)
  then have "t' \<noteq> HRunClose" using assms(2) socket_strand by auto
  with socket_strand accepted_task assms(3) show ?thesis by blast
next
  case (read_strand h m ts)
  with accepted_calls [of "s\<lparr>hs_readStrand := ts\<rparr>" "h m"] assms(3) show ?thesis
    by (simp add: http_given_def http_event_calls_def) (simp add: http_accepted_def)
qed (use assms(3) in \<open>auto simp: http_given_def http_event_calls_def accepted_send
    http_view_open http_view_complete intro!: accepted_quiet\<close>)

lemma http_reachable_step: "http_reachable s \<Longrightarrow> http_exec s e = Some t \<Longrightarrow> http_reachable t"
  by (rule reach.reach_step) (auto simp: http_next_def http_exec_step)

lemma http_closed_run: "run http_exec s es = Some t \<Longrightarrow> http_closed s \<Longrightarrow> http_closed t"
  by (rule run_invariant [of http_exec s es t http_closed]) (auto simp: http_exec_step intro: http_closed_step)

lemma accepted_run:
  assumes "run http_exec s es = Some t" "http_reachable s" "\<not> http_closed t"
  shows "http_accepted t = http_accepted s @ http_run_given s es"
  using assms
proof (induction es arbitrary: s)
  case (Cons e es)
  then obtain u where u: "http_exec s e = Some u" "run http_exec u es = Some t" by (auto split: option.splits)
  have "\<not> http_closed u" using http_closed_run [OF u(2)] Cons.prems(3) by blast
  then have "\<not> http_closed s" using http_closed_step u(1) http_exec_step by blast
  then have "http_single s" by (rule http_writer.view_single_writer [OF Cons.prems(2)])
  with accepted_step \<open>\<not> http_closed u\<close> u(1) http_exec_step
  have "http_accepted u = http_accepted s @ http_given s e" by blast
  with Cons.IH [OF u(2) http_reachable_step [OF Cons.prems(2) u(1)] Cons.prems(3)] u(1)
  show ?case by simp
qed simp

section \<open>Calls made outside\<close>

lemma http_ext_frame [simp]:
  "hs_extCalls (http_configure oh ch rh s) = hs_extCalls s" "hs_extCalls (http_post t s) = hs_extCalls s"
  "hs_extCalls (http_start_op op s) = hs_extCalls s" "hs_extCalls (http_issue q s) = hs_extCalls s"
  "hs_extCalls (http_cancelAllPendingOperations s) = hs_extCalls s"
  "hs_extCalls (http_close s) = hs_extCalls s" "hs_extCalls (http_drop s) = hs_extCalls s"
  "hs_extCalls (http_writeNext s) = hs_extCalls s" "hs_extCalls (http_send m s) = hs_extCalls s"
  "hs_extCalls (http_handleMessage m s) = hs_extCalls s" "hs_extCalls (http_handleWrite m err s) = hs_extCalls s"
  "hs_extCalls (http_readNext s) = hs_extCalls s" "hs_extCalls (http_handleRead m err n s) = hs_extCalls s"
  by (simp_all add: http_configure_def http_post_def http_start_op_def http_issue_def
      http_cancelAllPendingOperations_def http_close_def http_drop_def http_writeNext_def
      http_send_def http_handleMessage_def http_handleWrite_def http_readNext_def http_asyncRead_def
      http_handleRead_def Let_def split: option.split list.split)

lemma http_ext_calls [simp]: "hs_extCalls (http_run_calls cs s) = hs_extCalls s @ http_exts cs"
proof (induction cs arbitrary: s)
  case (Cons c cs)
  then show ?case by (cases c) (simp_all add: http_run_calls_def)
qed (simp add: http_run_calls_def)

lemma http_ext_step:
  "http_step s e t \<Longrightarrow> hs_extCalls t = hs_extCalls s @ http_exts (http_event_calls s e)"
proof (induction rule: http_step.induct)
  case (socket_strand s t ts)
  then show ?case
  proof (cases t)
    case (HOnHandshake err)
    with socket_strand show ?thesis
      by (cases err) (simp_all add: http_event_calls_def http_handleHandshake_def http_run_handler_calls Let_def)
  qed (simp_all add: http_event_calls_def http_close_task_def http_run_handler_calls Let_def
      http_asyncHandshake_def http_asyncWrite_def)
qed (auto simp: http_event_calls_def http_open_def http_configureSocket_def split: if_splits option.splits)

text \<open>The events that run the close task, and the handlers the other events leave alone.\<close>

definition runs_close :: "'x http_session \<Rightarrow> 'x http_event \<Rightarrow> bool" where
  "runs_close s e \<longleftrightarrow> e = HSocketStrand \<and> (case hs_socketStrand s of t # _ \<Rightarrow> t = HRunClose | [] \<Rightarrow> False)"

lemma http_closes_step: "http_step s e t \<Longrightarrow> http_closes t = http_closes s + of_bool (runs_close s e)"
proof (induction rule: http_step.induct)
  case (socket_strand s t ts)
  then show ?case
    by (cases t) (simp_all add: http_closes_def runs_close_def http_close_task_def Let_def
        http_asyncHandshake_def http_asyncWrite_def http_handleHandshake_def http_handleRead_def
        http_readNext_def http_asyncRead_def)
qed (auto simp: http_closes_def runs_close_def http_open_def http_configureSocket_def
    split: if_splits option.splits)

text \<open>Handlers of which the close handler makes the call \<open>x\<close> once and the others never.\<close>

definition http_marked :: "'x \<Rightarrow> 'x http_call list option \<Rightarrow> 'x http_call list option \<Rightarrow>
    'x http_receive_handler option \<Rightarrow> bool" where
  "http_marked x oh ch rh \<longleftrightarrow> count_list (http_exts (http_calls ch)) x = 1 \<and>
     count_list (http_exts (http_calls oh)) x = 0 \<and>
     (case rh of None \<Rightarrow> True | Some h \<Rightarrow> \<forall>m. count_list (http_exts (h m)) x = 0)"

definition http_marks :: "'x \<Rightarrow> 'x http_event \<Rightarrow> bool" where
  "http_marks x e \<longleftrightarrow> (case e of HConfigure oh ch rh \<Rightarrow> http_marked x oh ch rh | _ \<Rightarrow> True)"

definition marked_session :: "'x \<Rightarrow> 'x http_session \<Rightarrow> bool" where
  "marked_session x s \<longleftrightarrow> http_marked x (hs_openHandler s) (hs_closeHandler s) (hs_receiveHandler s) \<and>
     list_all (\<lambda>(h, m). count_list (http_exts (h m)) x = 0) (hs_readStrand s)"

lemma marked_frame [simp]:
  "marked_session x (s\<lparr>hs_isConnected := b\<rparr>) = marked_session x s"
  "marked_session x (s\<lparr>hs_writeQueue := q\<rparr>) = marked_session x s"
  "marked_session x (s\<lparr>hs_socketStrand := ts\<rparr>) = marked_session x s"
  "marked_session x (s\<lparr>hs_pendingOps := ops\<rparr>) = marked_session x s"
  "marked_session x (s\<lparr>hs_extCalls := xs\<rparr>) = marked_session x s"
  "marked_session x (http_issue r s) = marked_session x s"
  "marked_session x (http_post t s) = marked_session x s"
  "marked_session x (http_start_op op s) = marked_session x s"
  by (simp_all add: marked_session_def http_post_def http_start_op_def http_issue_def)

lemma marked_ops [simp]:
  "marked_session x (http_cancelAllPendingOperations s) = marked_session x s"
  "marked_session x (http_close s) = marked_session x s" "marked_session x (http_drop s) = marked_session x s"
  "marked_session x (http_writeNext s) = marked_session x s" "marked_session x (http_send m s) = marked_session x s"
  "marked_session x (http_handleWrite m err s) = marked_session x s"
  "marked_session x (http_readNext s) = marked_session x s"
  by (simp_all add: http_cancelAllPendingOperations_def http_close_def http_drop_def
      http_writeNext_def http_send_def http_handleWrite_def http_readNext_def http_asyncRead_def Let_def
      split: list.split)

lemma marked_calls [simp]: "marked_session x (http_run_calls cs s) = marked_session x s"
proof (induction cs arbitrary: s)
  case (Cons c cs)
  then show ?case by (cases c) (simp_all add: http_run_calls_def)
qed (simp add: http_run_calls_def)

lemma marked_task: "marked_session x s \<Longrightarrow> marked_session x (http_run_task t s)"
proof (cases t)
  case (HOnRead m err n)
  moreover assume "marked_session x s"
  ultimately show ?thesis
    by (auto simp: http_handleRead_def http_handleMessage_def split: option.split)
      (simp_all add: marked_session_def http_marked_def)
qed (simp_all add: http_asyncHandshake_def http_close_task_def http_asyncWrite_def http_run_handler_calls
    http_handleHandshake_def Let_def)

lemma marked_step: "http_step s e t \<Longrightarrow> http_marks x e \<Longrightarrow> marked_session x s \<Longrightarrow> marked_session x t"
proof (induction rule: http_step.induct)
  case (socket_strand s t ts)
  then show ?case by (intro marked_task) simp
next
  case (configure s oh ch rh)
  then show ?case by (simp add: http_marks_def marked_session_def http_configure_def)
next
  case (read_strand s h m ts)
  then have "marked_session x (s\<lparr>hs_readStrand := ts\<rparr>)" by (simp add: marked_session_def)
  then show ?case by simp
qed (auto simp: http_open_def http_configureSocket_def split: if_splits option.splits)

lemma marked_event_calls: "http_step s e t \<Longrightarrow> marked_session x s \<Longrightarrow>
  count_list (http_exts (http_event_calls s e)) x = of_bool (runs_close s e)"
proof (induction rule: http_step.induct)
  case (socket_strand s t ts)
  then show ?case
  proof (cases t)
    case (HOnHandshake err)
    with socket_strand show ?thesis
      by (cases err) (simp_all add: http_event_calls_def runs_close_def marked_session_def http_marked_def)
  qed (simp_all add: http_event_calls_def runs_close_def marked_session_def http_marked_def)
qed (simp_all add: http_event_calls_def runs_close_def marked_session_def)

lemma marked_run:
  assumes "run http_exec s es = Some t" "marked_session x s" "list_all (http_marks x) es"
  shows "count_list (hs_extCalls t) x + http_closes s = count_list (hs_extCalls s) x + http_closes t"
  using assms
proof (induction es arbitrary: s)
  case (Cons e es)
  then obtain u where u: "http_exec s e = Some u" "run http_exec u es = Some t" by (auto split: option.splits)
  then have step: "http_step s e u" by (simp add: http_exec_step)
  have "marked_session x u" using marked_step [OF step] Cons.prems(2,3) by simp
  with Cons.IH [OF u(2)] Cons.prems(3) http_ext_step [OF step] http_closes_step [OF step]
    marked_event_calls [OF step Cons.prems(2)] show ?case by simp
qed simp

section \<open>Properties\<close>

text \<open>C25. \<open>ClientHTTPSession\<close>, single writer and order.  Until the close task has run, at most one
  write is posted, issued or waiting for its handler, and it is the head of the queue.  Along every run
  what was issued to the socket, followed by what waits, grows by exactly the payloads given to \<open>send\<close>,
  by the program or by a handler the run called, in the order of the calls: none is lost, doubled or
  overtaken, and what was issued is a beginning of it.\<close>

theorem http_write_order:
  assumes "http_reachable s" "run http_exec s es = Some t" "\<not> http_closed t"
  shows "size (in_flight (http_view t)) \<le> 1 \<and>
    (\<forall>m. m \<in># in_flight (http_view t) \<longrightarrow> (\<exists>r. hs_writeQueue t = m # r)) \<and>
    accepted (http_view t) = accepted (http_view s) @ http_run_given s es \<and>
    prefix (wr_log (http_view t)) (accepted (http_view t))"
proof -
  have "http_reachable t"
    using assms(2,1) by (rule run_invariant) (auto intro: http_reachable_step)
  then have "http_single t" using http_writer.view_single_writer assms(3) by blast
  moreover have "wr_queue (http_view t) = hs_writeQueue t" by (simp add: http_view_def)
  moreover have "prefix (wr_log (http_view t)) (accepted (http_view t))" by (simp add: accepted_def)
  ultimately show ?thesis
    using accepted_run [OF assms(2,1,3)] single_writer_size [of "http_view t"] single_in_flight [of "http_view t"]
    by (simp add: http_accepted_def)
qed

lemma http_two_sends:
  "\<exists>s. run http_exec http_create (HConfigure (Some [HCallSend [1]]) None (Some (\<lambda>m. [HCallSend m])) #
       http_handshake_events @ [HSend [2]]) = Some s \<and> \<not> http_closed s"
  by (simp add: run_simps http_handshake_events_def)

theorem http_write_order_witness:
  "\<exists>s :: nat http_session. run http_exec http_create (HConfigure (Some [HCallSend [1]]) None
       (Some (\<lambda>m. [HCallSend m])) # http_handshake_events @ [HSend [2]]) = Some s \<and>
     accepted (http_view s) = [[1], [2]] \<and> size (in_flight (http_view s)) \<le> 1"
proof -
  let ?es = "HConfigure (Some [HCallSend [1]]) None (Some (\<lambda>m. [HCallSend m])) # http_handshake_events @ [HSend [2]]"
  obtain s :: "nat http_session" where s: "run http_exec http_create ?es = Some s" "\<not> http_closed s"
    using http_two_sends by blast
  have "http_run_given (http_create :: nat http_session) ?es = [[1], [2]]"
    by (simp add: run_simps http_handshake_events_def http_given_def http_event_calls_def http_calls_def)
  moreover have "accepted (http_view (http_create :: nat http_session)) = []"
    by (simp add: run_simps accepted_def unissued_def)
  ultimately show ?thesis
    using http_write_order [OF http_reachable_create s] s(1) by fastforce
qed

text \<open>C26. The openings of a \<open>ClientHTTPSession\<close> balance.  A session is configured with a close handler
  that makes a call \<open>x\<close> once, and with an open and a receive handler that do not make it.  Then, whatever
  happens, the runs of the close handler, counted by these calls, the close tasks posted and the
  connected flag add up to the successful calls of \<open>open\<close>: every opening that ends runs the close handler
  exactly once.  The socket is closed as often as the handler runs, and handshakes and reads under way
  never outnumber the openings.\<close>

theorem http_close_balance:
  assumes "run http_exec http_create (HConfigure oh ch rh # es) = Some s"
    and "http_marked x oh ch rh" "list_all (http_marks x) es"
  shows "count_list (hs_extCalls s) x + count_list (hs_socketStrand s) HRunClose + of_bool (hs_isConnected s) = http_opens s \<and>
     http_closes s = count_list (hs_extCalls s) x \<and> http_busy s \<le> http_opens s"
proof -
  have r: "run http_exec (http_configure oh ch rh http_create) es = Some s" using assms(1) by simp
  have "marked_session x (http_configure oh ch rh http_create)"
    using assms(2) by (simp add: marked_session_def http_configure_def http_create_def)
  from marked_run [OF r this assms(3)] have "http_closes s = count_list (hs_extCalls s) x"
    by (simp add: http_closes_def http_configure_def http_create_def)
  with http_account.reachable_inv [OF http_reachable_run [OF assms(1)]] show ?thesis
    by (simp add: http_inv_def http_life_def)
qed

definition dropped_in_handshake :: "nat http_event list" where
  "dropped_in_handshake = [HOpen None, HSocketStrand, HDrop, HSocketStrand, HSocketStrand,
     HComplete 0 (Some OperationAborted) [], HSocketStrand]"

lemma http_dropped_in_handshake:
  "\<exists>s. run http_exec http_create (HConfigure None (Some [HCallExt 7]) None # dropped_in_handshake) = Some s \<and>
     http_opens s = 1 \<and> \<not> hs_isConnected s \<and> hs_socketStrand s = []"
  by (simp add: run_simps dropped_in_handshake_def)

theorem http_close_balance_witness:
  "\<exists>s. run http_exec http_create (HConfigure None (Some [HCallExt 7]) None # dropped_in_handshake) = Some s \<and>
     http_opens s = 1 \<and> count_list (hs_extCalls s) 7 = 1 \<and> http_closes s = 1"
proof -
  obtain s where s: "run http_exec http_create (HConfigure None (Some [HCallExt 7]) None # dropped_in_handshake) = Some s"
    "http_opens s = 1" "\<not> hs_isConnected s" "hs_socketStrand s = []" using http_dropped_in_handshake by blast
  have "http_marked 7 None (Some [HCallExt (7 :: nat)]) None" "list_all (http_marks 7) dropped_in_handshake"
    by (simp_all add: http_marked_def http_marks_def dropped_in_handshake_def)
  from http_close_balance [OF s(1) this] s(2-4) s(1) show ?thesis by auto
qed

end
