(* ===== verification/SessionCalls.thy ===== *)
theory SessionCalls
  imports SessionLifecycle
begin

text \<open>
  What a \<open>Session\<close> does to the rest of the program: its handlers are fixed by \<open>configure\<close>, the
  close task runs the close handler, a successful handshake runs the open handler, and a task of the
  read strand runs the receive handler it was posted with.  Nothing else calls outside, so the
  runs of the close handler are counted by a call that only it makes.
\<close>

definition exts :: "'x call list \<Rightarrow> 'x list" where
  "exts cs = concat (map (\<lambda>c. case c of CallExt x \<Rightarrow> [x] | _ \<Rightarrow> []) cs)"

lemma exts_simps [simp]: "exts [] = []" "exts (CallExt x # cs) = x # exts cs"
  "exts (CallSend p # cs) = exts cs" "exts (CallDrop # cs) = exts cs" "exts (CallCancel # cs) = exts cs"
  by (simp_all add: exts_def)

definition handler_exts :: "'x call list option \<Rightarrow> 'x list" where
  "handler_exts h = (case h of None \<Rightarrow> [] | Some cs \<Rightarrow> exts cs)"

record 'x boundary =
  bd_calls :: "'x list"
  bd_open :: "'x call list option"
  bd_close :: "'x call list option"
  bd_receive :: "'x receive_handler option"
  bd_posted :: "('x receive_handler \<times> buffer) list"

definition boundary :: "'x session \<Rightarrow> 'x boundary" where
  "boundary s = \<lparr>bd_calls = extCalls s, bd_open = openHandler s, bd_close = closeHandler s,
     bd_receive = receiveHandler s, bd_posted = readStrand s\<rparr>"

lemma boundary_frame [simp]:
  "boundary (s\<lparr>isConnected := b\<rparr>) = boundary s" "boundary (s\<lparr>lastTimeRead := l\<rparr>) = boundary s"
  "boundary (s\<lparr>writeQueue := q\<rparr>) = boundary s" "boundary (s\<lparr>timerWaits := n\<rparr>) = boundary s"
  "boundary (s\<lparr>socketStrand := st\<rparr>) = boundary s" "boundary (s\<lparr>readTimerStrand := ts\<rparr>) = boundary s"
  "boundary (s\<lparr>pendingOps := ops\<rparr>) = boundary s"
  "boundary (post_socket t s) = boundary s" "boundary (post_timer tt s) = boundary s"
  "boundary (issue r s) = boundary s" "boundary (start_op op s) = boundary s"
  by (simp_all add: boundary_def post_socket_def post_timer_def issue_def start_op_def)

lemma boundary_quiet [simp]:
  "boundary (cancelAllPendingOperations s) = boundary s" "boundary (cancelReadTimer s) = boundary s"
  "boundary (restartReadTimer s) = boundary s" "boundary (close s) = boundary s"
  "boundary (drop_session s) = boundary s" "boundary (writeNext s) = boundary s"
  "boundary (send_message m s) = boundary s" "boundary (send p s) = boundary s"
  "boundary (ping s) = boundary s" "boundary (readNext s) = boundary s"
  "boundary (asyncReadBody m s) = boundary s" "boundary (asyncHandshake ht s) = boundary s"
  "boundary (asyncWrite m s) = boundary s" "boundary (handleWrite m err s) = boundary s"
  "boundary (handleReadTimeOut err s) = boundary s"
  by (simp_all add: cancelAllPendingOperations_def cancelReadTimer_def restartReadTimer_def close_def
      drop_session_def writeNext_def send_message_def send_def ping_def readNext_def asyncReadHeader_def
      asyncReadBody_def asyncHandshake_def asyncWrite_def handleWrite_def handleReadTimeOut_def Let_def
      split: list.split)

lemma boundary_timer [simp]: "boundary (run_timer_task now rnd t s) = boundary s"
  by (cases t) (simp_all add: restart_timer_task_def cancel_timer_task_def timeout_task_def Let_def)

lemma boundary_calls [simp]:
  "boundary (run_calls cs s) = (boundary s)\<lparr>bd_calls := extCalls s @ exts cs\<rparr>"
proof (induction cs arbitrary: s)
  case Nil
  show ?case by (simp add: boundary_def)
next
  case (Cons c cs)
  have "boundary (run_call c s) = (boundary s)\<lparr>bd_calls := extCalls s @ exts [c]\<rparr>"
    by (cases c) (simp_all, simp_all add: boundary_def)
  moreover from this have "extCalls (run_call c s) = extCalls s @ exts [c]" by (simp add: boundary_def)
  ultimately show ?case using Cons [of "run_call c s"] by (simp add: exts_def)
qed

lemma boundary_handler [simp]:
  "boundary (run_handler h s) = (boundary s)\<lparr>bd_calls := extCalls s @ handler_exts h\<rparr>"
  by (cases h) (simp_all add: run_handler_def handler_exts_def, simp add: boundary_def)

text \<open>A received message may post the receive handler.\<close>

definition receives :: "'x session \<Rightarrow> 'x session \<Rightarrow> bool" where
  "receives s t \<longleftrightarrow> boundary t = boundary s \<or> (\<exists>h p. receiveHandler s = Some h \<and>
     boundary t = (boundary s)\<lparr>bd_posted := readStrand s @ [(h, p)]\<rparr>)"

lemma receives_message: "receives s (onMessageReceived m s)"
  by (cases "receiveHandler s") (auto simp: receives_def onMessageReceived_cases boundary_def [of "_\<lparr>readStrand := _\<rparr>"]
      boundary_def [of s])

lemma receives_read:
  "receives s (handleReadHeader m err s)" "receives s (handleReadBody m err s)"
proof -
  have c: "receiveHandler (cancelReadTimer s) = receiveHandler s" "readStrand (cancelReadTimer s) = readStrand s"
    using boundary_quiet(2) [of s] by (simp_all add: boundary_def)
  from receives_message [of "cancelReadTimer s" m] c
  have m: "receives s (readNext (onMessageReceived m (cancelReadTimer s)))" by (simp add: receives_def)
  have q: "receives s t" if "boundary t = boundary s" for t using that by (simp add: receives_def)
  show "receives s (handleReadHeader m err s)" "receives s (handleReadBody m err s)"
    by (auto simp: handleReadHeader_def handleReadBody_def Let_def m intro: q)
qed

text \<open>Every task of the socket strand.\<close>

lemma boundary_task:
  "(case t of
      RunClose \<Rightarrow> boundary (run_socket_task t s) = (boundary s)\<lparr>bd_calls := extCalls s @ handler_exts (closeHandler s)\<rparr>
    | OnHandshake None \<Rightarrow> boundary (run_socket_task t s) =
        (boundary s)\<lparr>bd_calls := extCalls s @ handler_exts (openHandler s)\<rparr>
    | OnReadHeader m err \<Rightarrow> receives s (run_socket_task t s)
    | OnReadBody m err \<Rightarrow> receives s (run_socket_task t s)
    | _ \<Rightarrow> boundary (run_socket_task t s) = boundary s)"
proof -
  have e: "extCalls t = extCalls s" "openHandler t = openHandler s" "closeHandler t = closeHandler s"
    if "boundary t = boundary s" for t
    using that by (simp_all add: boundary_def)
  show ?thesis
  proof (cases t)
    case RunClose
    let ?s = "issue SocketClose (issue SocketShutdown (s\<lparr>writeQueue := []\<rparr>))"
    from RunClose show ?thesis using e [of ?s] by (simp add: close_task_def Let_def)
  next
    case (OnHandshake err)
    let ?s = "readNext (post_timer RunTouch (s\<lparr>isConnected := True\<rparr>))"
    from OnHandshake show ?thesis using e [of ?s]
      by (cases err) (simp_all add: handleHandshake_def Let_def)
  qed (simp_all add: receives_read)
qed

section \<open>Sessions that are not handed out\<close>

text \<open>What can happen to a session that is reachable only through its own handlers: its strands run
  and its operations complete.\<close>

fun internal :: "'x event \<Rightarrow> bool" where
  "internal SocketStrand = True"
| "internal ReadStrand = True"
| "internal (TimerStrand _ _) = True"
| "internal (Complete _ _ _) = True"
| "internal (TimerDone _) = True"
| "internal _ = False"

section \<open>The calls of one step\<close>

fun external :: "'x session \<Rightarrow> 'x event \<Rightarrow> 'x list" where
  "external s SocketStrand = (case socketStrand s of
      OnHandshake None # _ \<Rightarrow> handler_exts (openHandler s)
    | RunClose # _ \<Rightarrow> handler_exts (closeHandler s)
    | _ \<Rightarrow> [])"
| "external s ReadStrand = (case readStrand s of [] \<Rightarrow> [] | (h, p) # _ \<Rightarrow> exts (h p))"
| "external s _ = []"

text \<open>The boundary of a session after a step: its handlers, the posted calls of handlers, and the calls
  outside.\<close>

definition settled_step :: "'x session \<Rightarrow> 'x list \<Rightarrow> 'x session \<Rightarrow> bool" where
  "settled_step s xs t \<longleftrightarrow> openHandler t = openHandler s \<and> closeHandler t = closeHandler s \<and>
     receiveHandler t = receiveHandler s \<and>
     (\<forall>h\<in>fst ` set (readStrand t). h \<in> fst ` set (readStrand s) \<or> receiveHandler s = Some h) \<and>
     extCalls t = extCalls s @ xs"

lemma settled_boundary:
  "boundary t = (boundary s)\<lparr>bd_calls := extCalls s @ xs\<rparr> \<Longrightarrow> settled_step s xs t"
  "boundary t = boundary s \<Longrightarrow> settled_step s [] t"
  "receives s t \<Longrightarrow> settled_step s [] t"
  by (auto simp: settled_step_def boundary_def receives_def)

lemma settled_socket:
  assumes "socketStrand s = t # ts"
  shows "settled_step s (external s SocketStrand) (run_socket_task t (s\<lparr>socketStrand := ts\<rparr>))"
proof -
  let ?u = "s\<lparr>socketStrand := ts\<rparr>"
  have u: "settled_step s xs v" if "settled_step ?u xs v" for xs v
    using that by (simp add: settled_step_def)
  note B = boundary_task [of t ?u]
  show ?thesis
  proof (cases t)
    case RunClose
    with assms B u [OF settled_boundary(1)] show ?thesis by simp
  next
    case (OnHandshake err)
    with assms B u [OF settled_boundary(1)] u [OF settled_boundary(2)] show ?thesis by (cases err) simp_all
  next
    case (OnReadHeader m err)
    with assms B u [OF settled_boundary(3)] show ?thesis by simp
  next
    case (OnReadBody m err)
    with assms B u [OF settled_boundary(3)] show ?thesis by simp
  qed (use assms B u [OF settled_boundary(2)] in \<open>simp_all del: run_socket_task.simps\<close>)
qed

lemma boundary_open: "open_session ht opt s = Inr t \<Longrightarrow> boundary t = boundary s"
  by (auto simp: open_session_def configureSocket_def split: if_splits option.splits)

lemma settled_session_step:
  assumes "session_step bo s e t" "\<forall>oh ch rh. e \<noteq> Configure oh ch rh"
  shows "settled_step s (external s e) t"
  using assms(1)
proof cases
  case (socket_strand k ts)
  with settled_socket show ?thesis by metis
next
  case (read_strand h payload ts)
  then show ?thesis
    using settled_boundary(1) [of "run_calls (h payload) (s\<lparr>readStrand := ts\<rparr>)" "s\<lparr>readStrand := ts\<rparr>"]
    by (auto simp: settled_step_def)
next
  case (open_ok ht opt)
  then show ?thesis by (simp add: settled_boundary boundary_open)
qed (use assms(2) in \<open>auto intro: settled_boundary\<close>)

section \<open>Runs of the close handler\<close>

text \<open>Handlers of which only the close handler makes the call \<open>x\<close>, and makes it at most once.\<close>

definition marks :: "'x \<Rightarrow> 'x event \<Rightarrow> bool" where
  "marks x e \<longleftrightarrow> (case e of
      Configure oh ch rh \<Rightarrow> count_list (handler_exts oh) x = 0 \<and> count_list (handler_exts ch) x \<le> 1 \<and>
        (case rh of None \<Rightarrow> True | Some h \<Rightarrow> \<forall>p. count_list (exts (h p)) x = 0)
    | _ \<Rightarrow> True)"

definition close_marked :: "'x \<Rightarrow> 'x session \<Rightarrow> bool" where
  "close_marked x s \<longleftrightarrow> marks x (Configure (openHandler s) (closeHandler s) (receiveHandler s)) \<and>
     (\<forall>h\<in>fst ` set (readStrand s). \<forall>p. count_list (exts (h p)) x = 0)"

definition runs_close_task :: "'x session \<Rightarrow> 'x event \<Rightarrow> bool" where
  "runs_close_task s e \<longleftrightarrow> e = SocketStrand \<and> (\<exists>ts. socketStrand s = RunClose # ts)"

lemma close_count_task:
  "close_count (run_socket_task t s) = close_count s + of_bool (t = RunClose)"
  by (cases t) (simp_all add: close_count_def close_task_def asyncHandshake_def asyncWrite_def
      handleHandshake_def handleReadHeader_def handleReadBody_def readNext_def asyncReadHeader_def
      asyncReadBody_def Let_def)

lemma close_count_step:
  assumes "session_step bo s e t"
  shows "close_count t = close_count s + of_bool (runs_close_task s e)"
  using assms
proof cases
  case (socket_strand k ts)
  then show ?thesis by (simp add: close_count_task runs_close_task_def) (simp add: close_count_def)
next
  case (timer_strand k ts now rnd)
  then show ?thesis by (cases k) (auto simp: close_count_def runs_close_task_def restart_timer_task_def
      cancel_timer_task_def timeout_task_def Let_def)
qed (auto simp: close_count_def runs_close_task_def open_session_def configureSocket_def split: if_splits option.splits)

lemma close_marked_external:
  "close_marked x s \<Longrightarrow> count_list (external s e) x \<le> of_bool (runs_close_task s e)"
  by (cases "(s, e)" rule: external.cases)
    (auto simp: close_marked_def marks_def runs_close_task_def split: list.splits socket_task.splits option.splits)

lemma close_marked_step:
  assumes "session_step bo s e t" "marks x e" "close_marked x s"
  shows "close_marked x t" and "count_list (extCalls t) x + close_count s \<le> count_list (extCalls s) x + close_count t"
proof -
  have "close_marked x t \<and> count_list (extCalls t) x + close_count s \<le> count_list (extCalls s) x + close_count t"
  proof (cases "\<exists>oh ch rh. e = Configure oh ch rh")
    case True
    with assms show ?thesis
      by (auto simp: session_exec_step [symmetric] close_marked_def marks_def configure_def close_count_def) fastforce
  next
    case False
    then have st: "settled_step s (external s e) t" using settled_session_step [OF assms(1)] by blast
    have "count_list (exts (h p)) x = 0" if "h \<in> fst ` set (readStrand t)" for h p
    proof -
      from st that have "h \<in> fst ` set (readStrand s) \<or> receiveHandler s = Some h"
        unfolding settled_step_def by blast
      with assms(3) show ?thesis by (auto simp only: close_marked_def marks_def event.case option.case)
    qed
    then have "close_marked x t" using st assms(3) by (simp add: settled_step_def close_marked_def)
    with st close_marked_external [OF assms(3), of e] close_count_step [OF assms(1)] show ?thesis
      by (simp add: settled_step_def)
  qed
  then show "close_marked x t" and "count_list (extCalls t) x + close_count s \<le> count_list (extCalls s) x + close_count t"
    by blast+
qed

section \<open>Properties\<close>

text \<open>The two tasks a \<open>drop\<close> of a connected session posts, run from an idle strand.\<close>

lemma drop_runs_handler:
  assumes "isConnected s" "socketStrand s = []"
  shows "\<exists>u. run (session_exec bo) s [Drop, SocketStrand, SocketStrand] = Some u \<and>
    extCalls u = extCalls s @ handler_exts (closeHandler s)"
proof -
  let ?v = "issue SocketCancel ((close s)\<lparr>socketStrand := [RunClose]\<rparr>)"
  have st: "socketStrand (close s) = [RunCancel, RunClose]"
    using assms by (simp add: close_def cancelAllPendingOperations_def cancelReadTimer_def post_socket_def
        post_timer_def Let_def)
  have b: "boundary (?v\<lparr>socketStrand := []\<rparr>) = boundary s" by simp
  have "run (session_exec bo) s [Drop, SocketStrand, SocketStrand] = Some (close_task (?v\<lparr>socketStrand := []\<rparr>))"
    using st by (simp add: drop_session_def issue_def)
  moreover have "extCalls (close_task (?v\<lparr>socketStrand := []\<rparr>)) = extCalls s @ handler_exts (closeHandler s)"
    using boundary_task [of RunClose "?v\<lparr>socketStrand := []\<rparr>"] b by (simp add: boundary_def)
  ultimately show ?thesis by blast
qed

text \<open>C21. The assignment \<open>isConnected_ = true\<close> at the start of \<open>handleHandshake\<close> revives a closed
  session.  Take any session whose close task has run while its handshake was pending.  When the
  handshake completes as aborted, which is what the close makes it do, the session is connected again,
  though its socket stays closed; \<open>open\<close> then does nothing, and a further \<open>drop\<close> runs the close handler
  again.  When the handshake completes with another error, the close handler runs again without a \<open>drop\<close>.\<close>

theorem aborted_handshake_revives:
  assumes "session_closed s" "\<not> isConnected s" "socketStrand s = []"
    and "i < length (pendingOps s)" "pendingOps s ! i = OpHandshake ht"
  shows "(\<exists>t u. run (session_exec bo) s [Complete i (Some OperationAborted) bs, SocketStrand] = Some t \<and>
      isConnected t \<and> session_closed t \<and> open_session ht' opt t = Inr t \<and>
      run (session_exec bo) t [Drop, SocketStrand, SocketStrand] = Some u \<and>
      extCalls u = extCalls s @ handler_exts (closeHandler s)) \<and>
    (e \<noteq> OperationAborted \<longrightarrow>
      (\<exists>u. run (session_exec bo) s [Complete i (Some e) bs, SocketStrand, SocketStrand, SocketStrand] = Some u \<and>
      extCalls u = extCalls s @ handler_exts (closeHandler s)))"
proof -
  let ?s = "s\<lparr>pendingOps := remove_at i (pendingOps s)\<rparr>"
  let ?t = "?s\<lparr>socketStrand := [], isConnected := True\<rparr>"
  have one: "run (session_exec bo) s [Complete i (Some err) bs, SocketStrand] =
      Some (if err = OperationAborted then ?t else close ?t)" for err
    using assms(3-5) by (simp add: post_socket_def handleHandshake_def)
  have t: "isConnected ?t" "socketStrand ?t = []" "session_closed ?t" "open_session ht' opt ?t = Inr ?t"
    using assms(1) by (simp_all add: session_closed_def open_session_def)
  have b: "boundary ?t = boundary s" by (simp add: boundary_def)
  obtain u where u: "run (session_exec bo) ?t [Drop, SocketStrand, SocketStrand] = Some u"
    "extCalls u = extCalls s @ handler_exts (closeHandler s)"
    using drop_runs_handler [OF t(1,2), of bo] b by (auto simp: boundary_def simp del: run.simps)
  then have "run (session_exec bo) (close ?t) [SocketStrand, SocketStrand] = Some u"
    by (simp add: drop_session_def)
  with one have "e \<noteq> OperationAborted \<Longrightarrow>
      run (session_exec bo) s ([Complete i (Some e) bs, SocketStrand] @ [SocketStrand, SocketStrand]) = Some u"
    by (simp only: run_append) simp
  with one [of OperationAborted] t u show ?thesis by fastforce
qed

lemma dropped_in_handshake_run:
  "\<exists>s. run (session_exec bo) Session_create [Configure None (Some [CallExt (7 :: nat)]) None, Open ClientSide None,
       SocketStrand, Drop, SocketStrand, SocketStrand] = Some s \<and> session_closed s \<and> \<not> isConnected s \<and>
     socketStrand s = [] \<and> pendingOps s = [OpHandshake ClientSide] \<and> open_count s = 1 \<and> extCalls s = [7] \<and>
     closeHandler s = Some [CallExt 7]"
  by (simp add: run_simps)

theorem aborted_handshake_revives_witness:
  "\<exists>s t u. run (session_exec LittleEndian) Session_create [Configure None (Some [CallExt (7 :: nat)]) None,
       Open ClientSide None, SocketStrand, Drop, SocketStrand, SocketStrand] = Some s \<and> open_count s = 1 \<and>
     run (session_exec LittleEndian) s [Complete 0 (Some OperationAborted) [], SocketStrand] = Some t \<and> isConnected t \<and>
     run (session_exec LittleEndian) t [Drop, SocketStrand, SocketStrand] = Some u \<and> extCalls u = [7, 7]"
proof -
  obtain s where s: "run (session_exec LittleEndian) Session_create [Configure None (Some [CallExt (7 :: nat)]) None,
      Open ClientSide None, SocketStrand, Drop, SocketStrand, SocketStrand] = Some s" "session_closed s"
    "\<not> isConnected s" "socketStrand s = []" "pendingOps s = [OpHandshake ClientSide]" "open_count s = 1"
    "extCalls s = [7]" "closeHandler s = Some [CallExt 7]"
    using dropped_in_handshake_run [of LittleEndian] by blast
  from aborted_handshake_revives [OF s(2-4), of 0 ClientSide LittleEndian "[]"] s
  show ?thesis by (simp add: handler_exts_def del: run.simps) blast
qed

end
