(* ===== verification/Sessions.thy ===== *)
theory Sessions
  imports Prelude
begin

text \<open>
  \<open>src/utils/Net/src/SessionManager.cpp\<close>: the sessions of a server, a vector that only tasks of
  \<open>sessionStrand_\<close> touch.  Every call posts a task; the locale \<open>strand_object\<close> is the contract of
  such an object, that its data is always what the posted tasks make of it in the order of the calls,
  however calls and runs of the strand interleave.  The specification \<open>members\<close> reads the registered
  sessions off the calls.  Sessions are compared by pointer, so a session is any identity.
\<close>

section \<open>Objects behind a strand\<close>

locale strand_object =
  fixes step :: "'s \<Rightarrow> 'e \<Rightarrow> 's option"
    and posts :: "'e \<Rightarrow> 't option"
    and queue :: "'s \<Rightarrow> 't list"
    and data :: "'s \<Rightarrow> 'd"
    and body :: "'t \<Rightarrow> 'd \<Rightarrow> 'd"
  assumes step_post: "posts e = Some t \<Longrightarrow> step s e = Some s' \<Longrightarrow> queue s' = queue s @ [t] \<and> data s' = data s"
    and step_run: "posts e = None \<Longrightarrow> step s e = Some s' \<Longrightarrow>
      \<exists>t. queue s = t # queue s' \<and> data s' = body t (data s)"
begin

definition posted :: "'e list \<Rightarrow> 't list" where
  "posted es = List.map_filter posts es"

lemma posted_simps [simp]:
  "posted [] = []" "posts e = Some t \<Longrightarrow> posted (e # es) = t # posted es"
  "posts e = None \<Longrightarrow> posted (e # es) = posted es"
  by (simp_all add: posted_def List.map_filter_simps)

lemma linearised:
  "run step s es = Some s' \<Longrightarrow> fold body (queue s') (data s') = fold body (queue s @ posted es) (data s)"
proof (induction es arbitrary: s)
  case (Cons e es)
  then obtain u where u: "step s e = Some u" "run step u es = Some s'" by (auto split: option.splits)
  note IH = Cons.IH [OF u(2)]
  show ?case
  proof (cases "posts e")
    case None
    with step_run [OF None u(1)] IH show ?thesis by auto
  next
    case (Some t)
    with step_post [OF Some u(1)] IH show ?thesis by simp
  qed
qed simp

lemma drained:
  "run step s es = Some s' \<Longrightarrow> queue s = [] \<Longrightarrow> queue s' = [] \<Longrightarrow> data s' = fold body (posted es) (data s)"
  using linearised [of s es s'] by simp

end

section \<open>The session manager\<close>

text \<open>A function given to \<open>forEach\<close> is the effects it has on each session.\<close>

datatype ('k, 'e) manager_task = Join 'k | Leave 'k | ForEach "'k \<Rightarrow> 'e list"

record ('k, 'e) session_manager =
  sm_strand :: "('k, 'e) manager_task list"
  sm_sessions :: "'k list"
  sm_effects :: "'e list"

definition SessionManager_create :: "('k, 'e) session_manager" where
  "SessionManager_create = \<lparr>sm_strand = [], sm_sessions = [], sm_effects = []\<rparr>"

definition sm_post :: "('k, 'e) manager_task \<Rightarrow> ('k, 'e) session_manager \<Rightarrow> ('k, 'e) session_manager" where
  "sm_post t m = m\<lparr>sm_strand := sm_strand m @ [t]\<rparr>"

definition SessionManager_join :: "'k \<Rightarrow> ('k, 'e) session_manager \<Rightarrow> ('k, 'e) session_manager" where
  "SessionManager_join k m = sm_post (Join k) m"

definition SessionManager_leave :: "'k \<Rightarrow> ('k, 'e) session_manager \<Rightarrow> ('k, 'e) session_manager" where
  "SessionManager_leave k m = sm_post (Leave k) m"

definition SessionManager_forEach :: "('k \<Rightarrow> 'e list) \<Rightarrow> ('k, 'e) session_manager \<Rightarrow>
    ('k, 'e) session_manager" where
  "SessionManager_forEach f m = sm_post (ForEach f) m"

text \<open>The posted lambdas.\<close>

fun run_manager_task :: "('k, 'e) manager_task \<Rightarrow> 'k list \<times> 'e list \<Rightarrow> 'k list \<times> 'e list" where
  "run_manager_task (Join k) (ss, xs) = (ss @ [k], xs)"
| "run_manager_task (Leave k) (ss, xs) = (erase_if (\<lambda>s. s = k) ss, xs)"
| "run_manager_task (ForEach f) (ss, xs) = (ss, xs @ concat (map f ss))"

datatype ('k, 'e) manager_event = MJoin 'k | MLeave 'k | MForEach "'k \<Rightarrow> 'e list" | MStrand

fun manager_exec :: "('k, 'e) session_manager \<Rightarrow> ('k, 'e) manager_event \<Rightarrow>
    ('k, 'e) session_manager option" where
  "manager_exec m (MJoin k) = Some (SessionManager_join k m)"
| "manager_exec m (MLeave k) = Some (SessionManager_leave k m)"
| "manager_exec m (MForEach f) = Some (SessionManager_forEach f m)"
| "manager_exec m MStrand = (case sm_strand m of
     [] \<Rightarrow> None
   | t # ts \<Rightarrow> (case run_manager_task t (sm_sessions m, sm_effects m) of
       (ss, xs) \<Rightarrow> Some (m\<lparr>sm_strand := ts, sm_sessions := ss, sm_effects := xs\<rparr>)))"

fun manager_call :: "('k, 'e) manager_event \<Rightarrow> ('k, 'e) manager_task option" where
  "manager_call (MJoin k) = Some (Join k)"
| "manager_call (MLeave k) = Some (Leave k)"
| "manager_call (MForEach f) = Some (ForEach f)"
| "manager_call MStrand = None"

lemmas manager_ops [run_simps] = SessionManager_create_def sm_post_def SessionManager_join_def
  SessionManager_leave_def SessionManager_forEach_def erase_if_def

interpretation manager: strand_object manager_exec manager_call sm_strand
  "\<lambda>m. (sm_sessions m, sm_effects m)" run_manager_task
proof
  fix e :: "('a, 'b) manager_event" and t s s'
  show "manager_call e = Some t \<Longrightarrow> manager_exec s e = Some s' \<Longrightarrow>
      sm_strand s' = sm_strand s @ [t] \<and> (sm_sessions s', sm_effects s') = (sm_sessions s, sm_effects s)"
    by (cases e) (auto simp: manager_ops)
  show "manager_call e = None \<Longrightarrow> manager_exec s e = Some s' \<Longrightarrow>
      \<exists>t. sm_strand s = t # sm_strand s' \<and>
        (sm_sessions s', sm_effects s') = run_manager_task t (sm_sessions s, sm_effects s)"
    by (cases e) (auto split: list.splits prod.splits)
qed

section \<open>The specification\<close>

text \<open>Registered are the sessions that joined and did not leave since, in the order of joining.\<close>

fun members :: "('k, 'e) manager_task list \<Rightarrow> 'k list" where
  "members [] = []"
| "members (Join k # ts) = (if Leave k \<in> set ts then members ts else k # members ts)"
| "members (t # ts) = members ts"

text \<open>Each \<open>forEach\<close> visits those registered by the calls before it.\<close>

definition visit :: "('k, 'e) manager_task list \<Rightarrow> nat \<Rightarrow> 'e list" where
  "visit ts i = (case ts ! i of ForEach f \<Rightarrow> concat (map f (members (take i ts))) | _ \<Rightarrow> [])"

definition visits :: "('k, 'e) manager_task list \<Rightarrow> 'e list" where
  "visits ts = concat (map (visit ts) [0..<length ts])"

lemma members_snoc:
  "members (ts @ [Join k]) = members ts @ [k]"
  "members (ts @ [Leave k]) = erase_if (\<lambda>s. s = k) (members ts)"
  "members (ts @ [ForEach f]) = members ts"
  by (induction ts rule: members.induct) (auto simp: erase_if_def)

lemma visits_snoc: "visits (ts @ [t]) = visits ts @
    (case t of ForEach f \<Rightarrow> concat (map f (members ts)) | _ \<Rightarrow> [])"
proof -
  have "visit (ts @ [t]) i = visit ts i" if "i < length ts" for i
    using that by (simp add: visit_def nth_append split: manager_task.split)
  then have m: "map (visit (ts @ [t])) [0..<length ts] = map (visit ts) [0..<length ts]" by simp
  have "visits (ts @ [t]) = concat (map (visit (ts @ [t])) [0..<length ts]) @ visit (ts @ [t]) (length ts)"
    by (simp add: visits_def)
  then have "visits (ts @ [t]) = visits ts @ visit (ts @ [t]) (length ts)"
    unfolding m visits_def [of ts] .
  then show ?thesis by (cases t) (simp_all add: visit_def)
qed

lemma manager_fold: "fold run_manager_task ts ([], []) = (members ts, visits ts)"
proof (induction ts rule: rev_induct)
  case (snoc t ts)
  then show ?case by (cases t) (simp_all add: members_snoc visits_snoc)
qed (simp add: visits_def)

section \<open>Properties\<close>

text \<open>C28. The session manager implements its specification: however the calls of \<open>join\<close>, \<open>leave\<close>
  and \<open>forEach\<close> and the runs of the strand interleave, once the strand is empty the vector holds
  exactly the sessions that joined and did not leave since, in the order of joining, and every
  \<open>forEach\<close> has visited, in this order, exactly those registered by the calls before it.\<close>

theorem manager_implements_members:
  assumes "run manager_exec SessionManager_create es = Some m" "sm_strand m = []"
  shows "sm_sessions m = members (manager.posted es) \<and> sm_effects m = visits (manager.posted es)"
  using manager.drained [OF assms(1) _ assms(2)] by (simp add: manager_fold SessionManager_create_def)

theorem manager_implements_members_witness:
  "\<exists>m :: (nat, nat) session_manager.
     run manager_exec SessionManager_create [MJoin 1, MJoin 2, MStrand, MForEach (\<lambda>k. [k]), MLeave 1, MStrand,
       MStrand, MStrand] = Some m \<and> sm_strand m = [] \<and> sm_sessions m = [2] \<and> sm_effects m = [1, 2]"
proof -
  let ?es = "[MJoin 1, MJoin 2, MStrand, MForEach (\<lambda>k. [k]), MLeave 1, MStrand, MStrand, MStrand]
    :: (nat, nat) manager_event list"
  have "\<exists>m. run manager_exec SessionManager_create ?es = Some m \<and> sm_strand m = []"
    by (simp add: run_simps)
  then obtain m where m: "run manager_exec SessionManager_create ?es = Some m" "sm_strand m = []" by blast
  from manager_implements_members [OF m] have "sm_sessions m = [2] \<and> sm_effects m = [1, 2]"
    by (simp add: visits_def visit_def upt_rec)
  with m show ?thesis by blast
qed

end
