(* ===== verification/Servers.thy ===== *)
theory Servers
  imports SessionCalls Sessions
begin

text \<open>
  \<open>src/utils/Net/src/Server.cpp\<close> over \<open>Session\<close> and \<open>SessionManager\<close>: the accept loop creates a
  session with the manager's \<open>join\<close> and \<open>leave\<close> as open and close handlers and opens it when a
  connection is accepted.  A session is identified by its position among the sessions created.  The
  server's environment completes accepts, reads, writes, handshakes and timers in any order; calls a
  session makes to its handlers are forwarded to the manager, and the manager's tasks close sessions.
  The TLS context and the threads are not part of the state: \<open>join_all\<close> is modelled in \<open>ThreadPools\<close>.
  Logging is left out.
\<close>

section \<open>State\<close>

datatype registration = JoinCall | LeaveCall

text \<open>A handler mapper sees its session as a \<open>SessionInterface\<close>.\<close>

datatype interface_call = IfSend buffer | IfDrop

fun interface_run :: "interface_call \<Rightarrow> 'x call" where
  "interface_run (IfSend payload) = CallSend payload"
| "interface_run IfDrop = CallDrop"

type_synonym handler_mapper = "buffer \<Rightarrow> interface_call list"

text \<open>\<open>createHandlerMapper_\<close>: \<open>None\<close> if it is not set; its result may be a null pointer, and may
  differ from call to call.\<close>

record server =
  sv_createHandlerMapper :: "(nat \<Rightarrow> handler_mapper option) option"
  sv_endpoint :: "string \<times> u16"
  sv_acceptorOpen :: bool
  sv_accepts :: "nat list"
  sv_accepted :: "(nat \<times> error_code) list"
  sv_sessions :: "registration session list"
  sv_manager :: "(nat, nat) session_manager"
  sv_work :: bool

definition Server_create :: "(nat \<Rightarrow> handler_mapper option) option \<Rightarrow> server" where
  "Server_create create = \<lparr>sv_createHandlerMapper = create, sv_endpoint = ([], 0),
     sv_acceptorOpen = False, sv_accepts = [], sv_accepted = [], sv_sessions = [],
     sv_manager = SessionManager_create, sv_work = True\<rparr>"

section \<open>Accepting\<close>

definition receive_handler_of :: "server \<Rightarrow> registration receive_handler option" where
  "receive_handler_of sv = (case sv_createHandlerMapper sv of
      None \<Rightarrow> None
    | Some create \<Rightarrow> (case create (length (sv_sessions sv)) of
        None \<Rightarrow> None
      | Some mapper \<Rightarrow> Some (\<lambda>payload. map interface_run (mapper payload))))"

definition new_session :: "registration receive_handler option \<Rightarrow> registration session" where
  "new_session rh = configure (Some [CallExt JoinCall]) (Some [CallExt LeaveCall]) rh Session_create"

definition Server_accept :: "server \<Rightarrow> server" where
  "Server_accept sv = sv\<lparr>sv_sessions := sv_sessions sv @ [new_session (receive_handler_of sv)],
     sv_accepts := sv_accepts sv @ [length (sv_sessions sv)]\<rparr>"

text \<open>The handler of an accept; \<open>opt\<close> is the outcome of setting the socket option in \<open>open\<close>, whose
  failure is an exception that leaves the handler.\<close>

definition handleAccept :: "nat \<Rightarrow> error_code \<Rightarrow> error_code \<Rightarrow> server \<Rightarrow> server \<times> asio_error option" where
  "handleAccept k err opt sv =
    (if err \<noteq> Some OperationAborted then
       (if err = None then
          (case open_session ServerSide opt (sv_sessions sv ! k) of
             Inl e \<Rightarrow> (sv, Some e)
           | Inr s \<Rightarrow> (Server_accept (sv\<lparr>sv_sessions := (sv_sessions sv)[k := s]\<rparr>), None))
        else (Server_accept sv, None))
     else (sv, None))"

section \<open>Starting and stopping\<close>

text \<open>The outcomes of the calls that \<open>start\<close> makes.  Parsing the address, setting the TLS options and
  the password callback and opening the acceptor throw; the others return an error code.\<close>

record start_env =
  se_address :: error_code
  se_options :: error_code
  se_callback :: error_code
  se_chain :: error_code
  se_key :: error_code
  se_dh :: error_code
  se_open :: error_code
  se_bind :: error_code
  se_listen :: error_code

text \<open>Setting up the TLS context; the errors of loading the certificate chain, the key and the
  Diffie-Hellman parameters are only logged.\<close>

definition tls_setup :: "start_env \<Rightarrow> asio_error option" where
  "tls_setup env = (case se_options env of
      Some e \<Rightarrow> Some e
    | None \<Rightarrow> (case se_callback env of
        Some e \<Rightarrow> Some e
      | None \<Rightarrow> (let chain_error = se_chain env; key_error = se_key env; dh_error = se_dh env in None)))"

text \<open>The \<open>int\<close> port is converted to the 16-bit port of the endpoint; an acceptor that is open
  cannot be opened again.\<close>

definition Server_start :: "string \<Rightarrow> int \<Rightarrow> start_env \<Rightarrow> server \<Rightarrow> (asio_error + bool) \<times> server" where
  "Server_start ip port env sv =
    (if ip \<noteq> [] \<and> se_address env \<noteq> None then (Inl (the (se_address env)), sv)
     else let sv1 = sv\<lparr>sv_endpoint := (ip, word_of_int port)\<rparr>
          in if tls_setup env \<noteq> None then (Inl (the (tls_setup env)), sv1)
             else if sv_acceptorOpen sv1 then (Inl (OtherError 0), sv1)
             else (case se_open env of
                 Some e \<Rightarrow> (Inl e, sv1)
               | None \<Rightarrow> (let sv2 = sv1\<lparr>sv_acceptorOpen := True\<rparr>
                   in if se_bind env \<noteq> None then (Inr False, sv2)
                      else if se_listen env \<noteq> None then (Inr False, sv2)
                      else (Inr True, Server_accept sv2))))"

text \<open>\<open>ec\<close> is the error of closing the acceptor, which overwrites that of the cancellation.\<close>

definition close_function :: "nat \<Rightarrow> nat list" where
  "close_function session = [session]"

definition Server_stop :: "error_code \<Rightarrow> server \<Rightarrow> bool \<times> server" where
  "Server_stop ec sv =
    (let sv1 = sv\<lparr>sv_accepts := [],
           sv_accepted := sv_accepted sv @ map (\<lambda>k. (k, Some OperationAborted)) (sv_accepts sv),
           sv_acceptorOpen := False\<rparr>;
         sv2 = sv1\<lparr>sv_manager := SessionManager_forEach close_function (sv_manager sv1)\<rparr>
     in (ec = None, sv2\<lparr>sv_work := False\<rparr>))"

section \<open>Sessions and the manager\<close>

fun register :: "nat \<Rightarrow> registration \<Rightarrow> (nat, nat) session_manager \<Rightarrow> (nat, nat) session_manager" where
  "register k JoinCall m = SessionManager_join k m"
| "register k LeaveCall m = SessionManager_leave k m"

definition forward :: "nat \<Rightarrow> registration list \<Rightarrow> server \<Rightarrow> server" where
  "forward k calls sv = sv\<lparr>sv_manager := fold (register k) calls (sv_manager sv)\<rparr>"

definition close_session :: "nat \<Rightarrow> server \<Rightarrow> server" where
  "close_session k sv = sv\<lparr>sv_sessions := (sv_sessions sv)[k := close (sv_sessions sv ! k)]\<rparr>"

datatype server_event =
    SvStart string int start_env
  | SvStop error_code
  | SvAccept nat error_code           \<comment> \<open>the pending accept at this position completes\<close>
  | SvHandle nat error_code           \<comment> \<open>the handler of a completed accept runs\<close>
  | SvSession nat "registration event"
  | SvManager

fun server_exec :: "byte_order \<Rightarrow> server \<Rightarrow> server_event \<Rightarrow> server option" where
  "server_exec bo sv (SvStart ip port env) = Some (snd (Server_start ip port env sv))"
| "server_exec bo sv (SvStop ec) = Some (snd (Server_stop ec sv))"
| "server_exec bo sv (SvAccept i err) = (if i < length (sv_accepts sv)
     then Some (sv\<lparr>sv_accepts := remove_at i (sv_accepts sv),
       sv_accepted := sv_accepted sv @ [(sv_accepts sv ! i, err)]\<rparr>)
     else None)"
| "server_exec bo sv (SvHandle i opt) = (if i < length (sv_accepted sv)
     then Some (case sv_accepted sv ! i of (k, err) \<Rightarrow>
       fst (handleAccept k err opt (sv\<lparr>sv_accepted := remove_at i (sv_accepted sv)\<rparr>)))
     else None)"
| "server_exec bo sv (SvSession k e) = (if k < length (sv_sessions sv) \<and> internal e
     then (case session_exec bo (sv_sessions sv ! k) e of
         None \<Rightarrow> None
       | Some s \<Rightarrow> Some (forward k (drop (length (extCalls (sv_sessions sv ! k))) (extCalls s))
           (sv\<lparr>sv_sessions := (sv_sessions sv)[k := s]\<rparr>)))
     else None)"
| "server_exec bo sv SvManager = (case manager_exec (sv_manager sv) MStrand of
     None \<Rightarrow> None
   | Some m \<Rightarrow> Some (fold close_session (drop (length (sm_effects (sv_manager sv))) (sm_effects m))
       (sv\<lparr>sv_manager := m\<rparr>)))"

definition server_init :: "(nat \<Rightarrow> handler_mapper option) option \<Rightarrow> server \<Rightarrow> bool" where
  "server_init create sv \<longleftrightarrow> sv = Server_create create"

definition server_next :: "byte_order \<Rightarrow> server \<Rightarrow> server \<Rightarrow> bool" where
  "server_next bo sv sv' \<longleftrightarrow> (\<exists>e. server_exec bo sv e = Some sv')"

lemmas server_ops [run_simps] = Server_create_def receive_handler_of_def new_session_def
  Server_accept_def handleAccept_def tls_setup_def Server_start_def close_function_def Server_stop_def forward_def
  close_session_def

text \<open>A server without certificate, key or parameters starts, and fails only in its handshakes.\<close>

lemma start_ignores_credentials:
  "Server_start ip port (env\<lparr>se_chain := c, se_key := k, se_dh := d\<rparr>) sv = Server_start ip port env sv"
proof -
  let ?env = "env\<lparr>se_chain := c, se_key := k, se_dh := d\<rparr>"
  have "tls_setup ?env = tls_setup env"
    by (cases "se_options env"; cases "se_callback env") (simp_all add: tls_setup_def)
  then show ?thesis by (cases "se_open env") (simp_all add: Server_start_def Let_def)
qed

end
