(* ===== verification/ServerSessions.thy ===== *)
theory ServerSessions
  imports Servers
begin

text \<open>
  A session in the hands of the server.  Until its handshake is handled nobody else can reach it, so
  its states are known exactly (\<open>idle\<close>, then the three stages of \<open>shaking\<close>); afterwards it is
  \<open>running\<close>.  In particular the handshake handler never finds it closed, which is what keeps the
  close handler from running twice here.
\<close>

section \<open>Phases\<close>

definition opened :: "registration receive_handler option \<Rightarrow> registration session" where
  "opened rh = (new_session rh)\<lparr>isConnected := True, issued := [SetNoDelay],
     socketStrand := [RunAsyncHandshake ServerSide]\<rparr>"

definition shaking :: "registration receive_handler option \<Rightarrow> registration session \<Rightarrow> bool" where
  "shaking rh s \<longleftrightarrow> s = opened rh \<or>
     s = (opened rh)\<lparr>socketStrand := [], pendingOps := [OpHandshake ServerSide],
       issued := [SetNoDelay, AsyncHandshake ServerSide]\<rparr> \<or>
     (\<exists>err. s = (opened rh)\<lparr>socketStrand := [OnHandshake err],
       issued := [SetNoDelay, AsyncHandshake ServerSide]\<rparr>)"

text \<open>Once running, the calls to the manager are at most one \<open>join\<close> and then one \<open>leave\<close> for every
  close task that has run.\<close>

definition wired :: "registration receive_handler option \<Rightarrow> registration session \<Rightarrow> bool" where
  "wired rh s \<longleftrightarrow> openHandler s = Some [CallExt JoinCall] \<and> closeHandler s = Some [CallExt LeaveCall] \<and>
     receiveHandler s = rh \<and> (\<forall>(h, p) \<in> set (readStrand s). rh = Some h) \<and>
     (\<exists>joins. joins \<in> {[], [JoinCall]} \<and> extCalls s = joins @ replicate (close_count s) LeaveCall)"

definition lively :: "registration session \<Rightarrow> bool" where
  "lively s \<longleftrightarrow> lf_shakes (session_life s) = 0 \<and> lf_opens (session_life s) = 1 \<and> lf_lives (session_life s) = 1"

definition running :: "registration receive_handler option \<Rightarrow> registration session \<Rightarrow> bool" where
  "running rh s \<longleftrightarrow> wired rh s \<and> lively s"

definition served :: "registration receive_handler option \<Rightarrow> registration session \<Rightarrow> bool" where
  "served rh s \<longleftrightarrow> s = new_session rh \<or> shaking rh s \<or> running rh s"

text \<open>Receive handlers of handler mappers call nothing outside their session.\<close>

definition interface_handler :: "registration receive_handler option \<Rightarrow> bool" where
  "interface_handler rh \<longleftrightarrow> (\<forall>h p. rh = Some h \<longrightarrow> exts (h p) = [])"

lemma exts_interface [simp]: "exts (map interface_run cs) = []"
proof (induction cs)
  case (Cons c cs)
  then show ?case by (cases c) simp_all
qed simp

section \<open>Counts of running sessions\<close>

lemma life_task_running:
  assumes "task_shakes t = 0"
  shows "lf_shakes (session_life (run_socket_task t s)) = lf_shakes (session_life s)"
    and "lf_opens (session_life (run_socket_task t s)) = lf_opens (session_life s)"
    and "lf_lives (session_life (run_socket_task t s)) = lf_lives (session_life s) + of_bool (t = RunClose)"
  using assms by (cases t; simp add: life_tasks)+

lemma lively_task:
  assumes "lively s" "socketStrand s = t # ts"
  shows "lively (run_socket_task t (s\<lparr>socketStrand := ts\<rparr>)) \<and> task_shakes t = 0"
proof -
  from assms have "task_shakes t = 0" unfolding lively_def life_pop [OF assms(2)] by simp
  with assms life_task_running [OF this, of "s\<lparr>socketStrand := ts\<rparr>"] show ?thesis
    unfolding lively_def life_pop [OF assms(2)] by simp
qed

lemma lively_same: "session_life t = session_life s \<Longrightarrow> lively s \<Longrightarrow> lively t"
  by (simp add: lively_def)

lemma lively_step:
  assumes "session_step bo s e t" "internal e" "lively s"
  shows "lively t"
  using assms by cases (auto dest: lively_task intro: lively_same simp: life_complete)

section \<open>Closings counted\<close>

lemma issued_reading [simp]:
  "issued (readNext s) = issued s @ [AsyncReadHeader HeaderSize]"
  "issued (asyncReadBody m s) = issued s @ [AsyncReadBody (Buffer_size (msg_payload m))]"
  "issued (asyncWrite m s) = issued s @ [AsyncWrite m]"
  "issued (asyncHandshake ht s) = issued s @ [AsyncHandshake ht]"
  by (simp_all add: readNext_def asyncReadHeader_def asyncReadBody_def asyncWrite_def asyncHandshake_def)

lemma close_count_same [simp]:
  "close_count (s\<lparr>socketStrand := ts\<rparr>) = close_count s" "close_count (s\<lparr>readStrand := rs\<rparr>) = close_count s"
  "close_count (s\<lparr>readTimerStrand := tts\<rparr>) = close_count s" "close_count (s\<lparr>timerWaits := n\<rparr>) = close_count s"
  "close_count (s\<lparr>pendingOps := ops\<rparr>) = close_count s" "close_count (close s) = close_count s"
  "close_count (run_calls cs s) = close_count s" "close_count (post_socket st s) = close_count s"
  "close_count (handleReadTimeOut err s) = close_count s"
  by (simp_all add: close_count_def)

lemma close_count_timer [simp]: "close_count (run_timer_task now rnd t s) = close_count s"
  by (cases t) (simp_all add: close_count_def restart_timer_task_def cancel_timer_task_def
      timeout_task_def Let_def)

section \<open>The wiring of running sessions\<close>

lemma boundary_eqD:
  assumes "boundary t = boundary s"
  shows "extCalls t = extCalls s" "openHandler t = openHandler s" "closeHandler t = closeHandler s"
    "receiveHandler t = receiveHandler s" "readStrand t = readStrand s"
  using assms by (simp_all add: boundary_def)

lemma wired_same: "boundary t = boundary s \<Longrightarrow> close_count t = close_count s \<Longrightarrow> wired rh s \<Longrightarrow> wired rh t"
  using boundary_eqD [of t s] by (simp add: wired_def)

lemma wired_receives:
  assumes "receives s t" "close_count t = close_count s" "wired rh s"
  shows "wired rh t"
  using assms by (auto simp: receives_def wired_def boundary_def)

lemma wired_close:
  assumes "boundary t = (boundary s)\<lparr>bd_calls := extCalls s @ handler_exts (closeHandler s)\<rparr>"
    and "close_count t = Suc (close_count s)" "wired rh s"
  shows "wired rh t"
proof -
  have b: "openHandler t = openHandler s" "closeHandler t = closeHandler s"
    "receiveHandler t = receiveHandler s" "readStrand t = readStrand s"
    "extCalls t = extCalls s @ handler_exts (closeHandler s)"
    using assms(1) by (simp_all add: boundary_def)
  from assms(3) obtain js where js: "js \<in> {[], [JoinCall]}"
    "extCalls s = js @ replicate (close_count s) LeaveCall" by (auto simp: wired_def)
  then have "extCalls t = js @ replicate (close_count t) LeaveCall"
    using b(5) assms(2,3) by (simp add: wired_def handler_exts_def replicate_append_same)
  with js(1) assms(3) b(1-4) show ?thesis unfolding wired_def by auto
qed

lemma wired_task:
  assumes "wired rh s" "task_shakes t = 0" "socketStrand s = t # ts"
  shows "wired rh (run_socket_task t (s\<lparr>socketStrand := ts\<rparr>))"
proof -
  let ?s = "s\<lparr>socketStrand := ts\<rparr>" and ?t = "run_socket_task t (s\<lparr>socketStrand := ts\<rparr>)"
  have w: "wired rh ?s" using wired_same [of ?s s] assms(1) by simp
  note b = boundary_task [of t ?s] and c = close_count_task [of t ?s]
  show ?thesis
  proof (cases t)
    case RunClose
    with b c w wired_close [of ?t ?s rh] show ?thesis by simp
  next
    case (OnReadHeader m err)
    with b c w wired_receives [of ?s ?t rh] show ?thesis by simp
  next
    case (OnReadBody m err)
    with b c w wired_receives [of ?s ?t rh] show ?thesis by simp
  qed (use b c w wired_same [of ?t ?s rh] assms(2) in simp_all)
qed

lemma wired_calls:
  assumes "wired rh s" "readStrand s = (h, p) # ts" "interface_handler rh"
  shows "wired rh (run_calls (h p) (s\<lparr>readStrand := ts\<rparr>))"
proof -
  have "exts (h p) = []" using assms by (auto simp: wired_def interface_handler_def)
  then have "boundary (run_calls (h p) (s\<lparr>readStrand := ts\<rparr>)) = boundary (s\<lparr>readStrand := ts\<rparr>)"
    by simp (simp add: boundary_def)
  moreover have "wired rh (s\<lparr>readStrand := ts\<rparr>)" using assms(1,2) by (auto simp: wired_def)
  ultimately show ?thesis using wired_same [of _ "s\<lparr>readStrand := ts\<rparr>"] by simp
qed

lemma wired_step:
  assumes "session_step bo s e t" "internal e" "wired rh s" "lively s" "interface_handler rh"
  shows "wired rh t"
  using assms(1)
proof cases
  case (socket_strand t' ts)
  with assms lively_task [OF assms(4) socket_strand(3)] show ?thesis by (simp add: wired_task)
next
  case (read_strand h p ts)
  with assms show ?thesis by (simp add: wired_calls)
next
  case (timer_done err)
  then show ?thesis using wired_same [of t s rh] assms(3) by simp
next
  case (timer_strand t' ts now rnd)
  then show ?thesis using wired_same [of t s rh] assms(3) by simp
next
  case (complete i err bs)
  then show ?thesis using wired_same [of t s rh] assms(3) by simp
qed (use assms(2) in simp_all)

lemma running_step:
  "session_step bo s e t \<Longrightarrow> internal e \<Longrightarrow> interface_handler rh \<Longrightarrow> running rh s \<Longrightarrow> running rh t"
  unfolding running_def using wired_step lively_step by blast

lemma running_close: "running rh s \<Longrightarrow> running rh (close s)"
  unfolding running_def using wired_same [of "close s" s] lively_same [of "close s" s] by simp

section \<open>From the handshake to running\<close>

lemma shaking_calls: "shaking rh s \<Longrightarrow> extCalls s = []" "extCalls (new_session rh) = []"
  by (auto simp: shaking_def opened_def new_session_def configure_def Session_create_def)

lemma new_session_step: "session_step bo (new_session rh) e t \<Longrightarrow> internal e \<Longrightarrow> False"
  by (erule session_step.cases) (auto simp: new_session_def configure_def Session_create_def)

lemma open_new: "open_session ServerSide opt (new_session rh) = Inr s \<Longrightarrow> s = opened rh"
  by (auto simp: open_session_def configureSocket_def new_session_def configure_def Session_create_def
      opened_def post_socket_def issue_def split: option.splits)

lemma handshaken_running:
  "running rh (handleHandshake err ((opened rh)\<lparr>socketStrand := [],
     issued := [SetNoDelay, AsyncHandshake ServerSide]\<rparr>))"
proof -
  let ?s = "(opened rh)\<lparr>socketStrand := [], issued := [SetNoDelay, AsyncHandshake ServerSide]\<rparr>"
  let ?t = "handleHandshake err ?s"
  have f: "extCalls ?s = []" "openHandler ?s = Some [CallExt JoinCall]" "isConnected ?s"
    "closeHandler ?s = Some [CallExt LeaveCall]" "receiveHandler ?s = rh" "readStrand ?s = []"
    "close_count ?s = 0" "session_life ?s = \<lparr>lf_opens = 1, lf_lives = 1, lf_shakes = 0, lf_reads = 0\<rparr>"
    by (simp_all add: opened_def new_session_def configure_def Session_create_def session_life_def
        close_count_def)
  have c: "close_count ?t = 0" using close_count_task [of "OnHandshake err" ?s] f(7) by simp
  have "lively ?t" using f(3,8) by (simp add: lively_def life_handleHandshake)
  moreover have "boundary ?t = (boundary ?s)\<lparr>bd_calls := if err = None then [JoinCall] else []\<rparr>"
    using boundary_task [of "OnHandshake err" ?s] f(1,2)
    by (cases err) (simp_all add: handler_exts_def, simp add: boundary_def)
  then have "wired rh ?t" using c f(2,4-6) by (auto simp: wired_def boundary_def)
  ultimately show ?thesis by (simp add: running_def)
qed

lemma shaking_step:
  assumes "session_step bo s e t" "internal e" "shaking rh s"
  shows "shaking rh t \<or> running rh t"
proof -
  consider (posted) "s = opened rh"
    | (pending) "s = (opened rh)\<lparr>socketStrand := [], pendingOps := [OpHandshake ServerSide],
       issued := [SetNoDelay, AsyncHandshake ServerSide]\<rparr>"
    | (shaken) err where "s = (opened rh)\<lparr>socketStrand := [OnHandshake err],
       issued := [SetNoDelay, AsyncHandshake ServerSide]\<rparr>"
    using assms(3) by (auto simp: shaking_def)
  then show ?thesis
  proof cases
    case posted
    then have "t = (opened rh)\<lparr>socketStrand := [], pendingOps := [OpHandshake ServerSide],
       issued := [SetNoDelay, AsyncHandshake ServerSide]\<rparr>"
      using assms(1,2) by (auto elim!: session_step.cases simp: opened_def new_session_def session_eval)
    then show ?thesis by (simp add: shaking_def)
  next
    case pending
    then have "\<exists>err. t = (opened rh)\<lparr>socketStrand := [OnHandshake err],
       issued := [SetNoDelay, AsyncHandshake ServerSide]\<rparr>"
      using assms(1,2) by (auto elim!: session_step.cases simp: opened_def new_session_def session_eval)
    then show ?thesis by (auto simp: shaking_def)
  next
    case shaken
    then have "t = handleHandshake err ((opened rh)\<lparr>socketStrand := [],
        issued := [SetNoDelay, AsyncHandshake ServerSide]\<rparr>)"
      using assms(1,2) by (auto elim!: session_step.cases simp: opened_def new_session_def
          configure_def Session_create_def)
    then show ?thesis using handshaken_running by simp
  qed
qed

lemma served_step:
  "session_step bo s e t \<Longrightarrow> internal e \<Longrightarrow> interface_handler rh \<Longrightarrow> served rh s \<Longrightarrow> served rh t"
  unfolding served_def using new_session_step shaking_step running_step by blast

end
