(* ===== verification/ServerRegistry.thy ===== *)
theory ServerRegistry
  imports ServerSessions
begin

text \<open>
  The server as a whole: what its sessions, its accept loop and the session manager keep together.
  The count of a session in the manager's vector, once all posted tasks have run, is what its own
  calls of \<open>join\<close> and \<open>leave\<close> say; with the phases of \<open>ServerSessions\<close> this makes the vector, at
  rest, the list of the sessions whose handshake succeeded and whose close handler has not run.
\<close>

section \<open>The manager at rest\<close>

definition settled :: "(nat, nat) session_manager \<Rightarrow> nat list \<times> nat list" where
  "settled m = fold run_manager_task (sm_strand m) (sm_sessions m, sm_effects m)"

fun registered_after :: "registration \<Rightarrow> nat \<Rightarrow> nat" where
  "registered_after JoinCall n = Suc n"
| "registered_after LeaveCall n = 0"

definition entries :: "registration list \<Rightarrow> nat" where
  "entries calls = fold registered_after calls 0"

lemma settled_post:
  "settled (sm_post t m) = run_manager_task t (settled m)"
  by (simp add: settled_def sm_post_def)

lemma count_erase: "count_list (erase_if (\<lambda>s. s = k) xs) j = (if j = k then 0 else count_list xs j)"
  by (induction xs) (auto simp: erase_if_def)

lemma settled_register:
  "count_list (fst (settled (register k c m))) j =
     (if j = k then registered_after c (count_list (fst (settled m)) k) else count_list (fst (settled m)) j)"
  by (cases c; cases "settled m")
    (simp_all add: SessionManager_join_def SessionManager_leave_def settled_post count_erase)

lemma settled_registers:
  "count_list (fst (settled (fold (register k) calls m))) j =
     (if j = k then fold registered_after calls (count_list (fst (settled m)) k)
      else count_list (fst (settled m)) j)"
proof (induction calls arbitrary: m)
  case (Cons c calls)
  then show ?case using settled_register [of k c m] by simp
qed simp

lemma settled_run:
  "manager_exec m MStrand = Some m' \<Longrightarrow> settled m' = settled m"
  by (auto simp: settled_def split: list.splits prod.splits)

text \<open>Sessions the manager knows, now or from a task still to run.\<close>

definition known :: "(nat, nat) session_manager \<Rightarrow> nat set" where
  "known m = set (sm_sessions m) \<union> {k. Join k \<in> set (sm_strand m)}"

definition closes_only :: "(nat, nat) session_manager \<Rightarrow> bool" where
  "closes_only m \<longleftrightarrow> (\<forall>f. ForEach f \<in> set (sm_strand m) \<longrightarrow> f = close_function)"

lemma known_registers:
  "known (fold (register k) calls m) = known m \<union> (if JoinCall \<in> set calls then {k} else {})"
proof (induction calls arbitrary: m)
  case (Cons c calls)
  have "known (register k c m) = known m \<union> (if c = JoinCall then {k} else {})"
    by (cases c) (auto simp: known_def SessionManager_join_def SessionManager_leave_def sm_post_def)
  with Cons show ?case by auto
qed simp

lemma closes_registers: "closes_only (fold (register k) calls m) = closes_only m"
proof (induction calls arbitrary: m)
  case (Cons c calls)
  have "closes_only (register k c m) = closes_only m"
    by (cases c) (auto simp: closes_only_def SessionManager_join_def SessionManager_leave_def sm_post_def)
  with Cons show ?case by simp
qed simp

lemma manager_run:
  assumes "manager_exec m MStrand = Some m'"
  obtains t ts ss xs where "sm_strand m = t # ts" "run_manager_task t (sm_sessions m, sm_effects m) = (ss, xs)"
    "m' = m\<lparr>sm_strand := ts, sm_sessions := ss, sm_effects := xs\<rparr>"
  using assms by (auto split: list.splits prod.splits)

lemma known_run:
  assumes "manager_exec m MStrand = Some m'" "closes_only m"
  shows "known m' \<subseteq> known m" "closes_only m'"
    "\<exists>new. sm_effects m' = sm_effects m @ new \<and> set new \<subseteq> known m"
proof -
  obtain t ts ss xs where m: "sm_strand m = t # ts"
    "run_manager_task t (sm_sessions m, sm_effects m) = (ss, xs)"
    "m' = m\<lparr>sm_strand := ts, sm_sessions := ss, sm_effects := xs\<rparr>" using manager_run [OF assms(1)] .
  show "closes_only m'" using assms(2) by (simp add: m(1,3) closes_only_def)
  show "known m' \<subseteq> known m" using m(1,2) by (cases t) (auto simp: m(3) known_def)
  show "\<exists>new. sm_effects m' = sm_effects m @ new \<and> set new \<subseteq> known m"
  proof (cases t)
    case (ForEach f)
    with assms(2) m(1) have f: "f = close_function" by (simp add: closes_only_def)
    have "concat (map close_function ks) = ks" for ks
      by (induction ks) (simp_all add: close_function_def)
    with m(2) ForEach f show ?thesis by (auto simp: m(3) known_def)
  qed (use m in auto)
qed

section \<open>Calls of a step\<close>

lemma calls_prefix:
  assumes "session_step bo s e t" "internal e"
  shows "\<exists>new. extCalls t = extCalls s @ new"
  using assms(1)
proof cases
  case (socket_strand t' ts)
  with boundary_task [of t' "s\<lparr>socketStrand := ts\<rparr>"] show ?thesis
    by (cases t') (auto simp: boundary_def receives_def split: option.splits)
next
  case (read_strand h p ts)
  have "boundary (run_calls (h p) (s\<lparr>readStrand := ts\<rparr>)) =
      (boundary (s\<lparr>readStrand := ts\<rparr>))\<lparr>bd_calls := extCalls s @ exts (h p)\<rparr>" by simp
  with read_strand show ?thesis by (simp add: boundary_def)
next
  case (timer_strand t' ts now rnd)
  have "boundary t = boundary s" using timer_strand by simp
  then show ?thesis by (simp add: boundary_def)
next
  case (complete i err bs)
  have "boundary t = boundary s" using complete by simp
  then show ?thesis by (simp add: boundary_def)
next
  case (timer_done err)
  have "boundary t = boundary s" using timer_done by simp
  then show ?thesis by (simp add: boundary_def)
qed (use assms(2) in simp_all)

text \<open>The calls of a served session, and their meaning for the manager.\<close>

lemma served_calls:
  assumes "served rh s"
  shows "extCalls s \<in> {[], [JoinCall], [LeaveCall], [JoinCall, LeaveCall]}" "close_count s \<le> 1"
proof -
  have "close_count s \<le> 1 \<and> extCalls s \<in> {[], [JoinCall], [LeaveCall], [JoinCall, LeaveCall]}"
    using assms unfolding served_def
  proof (elim disjE)
    assume r: "running rh s"
    then have "close_count s \<le> 1" by (auto simp: running_def lively_def session_life_def)
    then consider "close_count s = 0" | "close_count s = 1" by linarith
    then show ?thesis using r by cases (auto simp: running_def wired_def)
  qed (auto simp: shaking_def opened_def new_session_def configure_def Session_create_def close_count_def)
  then show "extCalls s \<in> {[], [JoinCall], [LeaveCall], [JoinCall, LeaveCall]}" "close_count s \<le> 1" by auto
qed

lemma entries_served: "served rh s \<Longrightarrow> entries (extCalls s) = of_bool (extCalls s = [JoinCall])"
  using served_calls [of rh s] by (auto simp: entries_def)

lemma joined_running: "served rh s \<Longrightarrow> JoinCall \<in> set (extCalls s) \<Longrightarrow> running rh s"
  unfolding served_def using shaking_calls [of rh] by (elim disjE) auto

section \<open>The invariant of the server\<close>

definition handler_for :: "(nat \<Rightarrow> handler_mapper option) option \<Rightarrow> nat \<Rightarrow> registration receive_handler option" where
  "handler_for create k = (case create of
      None \<Rightarrow> None
    | Some f \<Rightarrow> map_option (\<lambda>mapper payload. map interface_run (mapper payload)) (f k))"

lemma receive_handler_for: "receive_handler_of sv = handler_for (sv_createHandlerMapper sv) (length (sv_sessions sv))"
  by (auto simp: receive_handler_of_def handler_for_def split: option.split)

lemma interface_handler_for [simp]: "interface_handler (handler_for create k)"
  by (auto simp: interface_handler_def handler_for_def split: option.splits)

definition waiting :: "server \<Rightarrow> nat list" where
  "waiting sv = sv_accepts sv @ map fst (sv_accepted sv)"

definition sessions_ok :: "server \<Rightarrow> bool" where
  "sessions_ok sv \<longleftrightarrow> (\<forall>k<length (sv_sessions sv).
     served (handler_for (sv_createHandlerMapper sv) k) (sv_sessions sv ! k))"

definition waiting_ok :: "server \<Rightarrow> bool" where
  "waiting_ok sv \<longleftrightarrow> distinct (waiting sv) \<and> (\<forall>k\<in>set (waiting sv). k < length (sv_sessions sv) \<and>
     sv_sessions sv ! k = new_session (handler_for (sv_createHandlerMapper sv) k))"

definition manager_ok :: "server \<Rightarrow> bool" where
  "manager_ok sv \<longleftrightarrow> closes_only (sv_manager sv) \<and>
     (\<forall>k\<in>known (sv_manager sv). k < length (sv_sessions sv) \<and> JoinCall \<in> set (extCalls (sv_sessions sv ! k))) \<and>
     (\<forall>k. count_list (fst (settled (sv_manager sv))) k =
        (if k < length (sv_sessions sv) then entries (extCalls (sv_sessions sv ! k)) else 0))"

definition server_inv :: "(nat \<Rightarrow> handler_mapper option) option \<Rightarrow> server \<Rightarrow> bool" where
  "server_inv create sv \<longleftrightarrow> sv_createHandlerMapper sv = create \<and> sessions_ok sv \<and> waiting_ok sv \<and> manager_ok sv"

lemma new_session_calls [simp]: "extCalls (new_session rh) = []"
  by (simp add: new_session_def configure_def Session_create_def)

lemma entries_Nil [simp]: "entries [] = 0"
  by (simp add: entries_def)

lemma accept_inv: "server_inv create sv \<Longrightarrow> server_inv create (Server_accept sv)"
proof -
  assume inv: "server_inv create sv"
  have "sessions_ok (Server_accept sv)"
    using inv by (auto simp: server_inv_def sessions_ok_def Server_accept_def receive_handler_for nth_append
        less_Suc_eq served_def)
  moreover have "waiting_ok (Server_accept sv)"
    using inv by (auto simp: server_inv_def waiting_ok_def waiting_def Server_accept_def receive_handler_for
        nth_append less_Suc_eq)
  moreover have "manager_ok (Server_accept sv)"
    using inv by (auto simp: server_inv_def manager_ok_def Server_accept_def nth_append less_Suc_eq)
  ultimately show ?thesis using inv by (simp add: server_inv_def Server_accept_def)
qed

text \<open>Changes that touch neither the sessions nor the manager.\<close>

lemma inv_frame:
  assumes "server_inv create sv" "sv_createHandlerMapper sv' = sv_createHandlerMapper sv"
    and "sv_sessions sv' = sv_sessions sv" "sv_manager sv' = sv_manager sv"
    and "set (waiting sv') \<subseteq> set (waiting sv)" "distinct (waiting sv')"
  shows "server_inv create sv'"
  using assms by (auto simp: server_inv_def sessions_ok_def waiting_ok_def manager_ok_def)

lemma start_inv: "server_inv create sv \<Longrightarrow> server_inv create (snd (Server_start ip port env sv))"
proof -
  assume inv: "server_inv create sv"
  then have d: "distinct (waiting sv)" by (simp add: server_inv_def waiting_ok_def)
  have "server_inv create (sv\<lparr>sv_endpoint := x\<rparr>)" "server_inv create (sv\<lparr>sv_endpoint := x, sv_acceptorOpen := True\<rparr>)" for x
    by (rule inv_frame [OF inv]; use d in \<open>simp add: waiting_def\<close>)+
  then show ?thesis using inv accept_inv by (auto simp: Server_start_def Let_def split: option.split)
qed

lemma forEach_same:
  "known (SessionManager_forEach close_function m) = known m"
  "fst (settled (SessionManager_forEach close_function m)) = fst (settled m)"
  "closes_only (SessionManager_forEach close_function m) = closes_only m"
proof -
  show "known (SessionManager_forEach close_function m) = known m"
    by (auto simp: known_def SessionManager_forEach_def sm_post_def)
  show "fst (settled (SessionManager_forEach close_function m)) = fst (settled m)"
    by (cases "settled m") (simp add: SessionManager_forEach_def settled_post)
  show "closes_only (SessionManager_forEach close_function m) = closes_only m"
    by (auto simp: closes_only_def SessionManager_forEach_def sm_post_def)
qed

lemma stop_inv:
  assumes "server_inv create sv"
  shows "server_inv create (snd (Server_stop ec sv))"
proof -
  let ?sv = "snd (Server_stop ec sv)"
  have w: "mset (waiting ?sv) = mset (waiting sv)"
    by (simp add: Server_stop_def waiting_def Let_def comp_def)
  have sv: "sv_sessions ?sv = sv_sessions sv" "sv_createHandlerMapper ?sv = sv_createHandlerMapper sv"
    "sv_manager ?sv = SessionManager_forEach close_function (sv_manager sv)"
    by (simp_all add: Server_stop_def Let_def)
  from w have "set (waiting ?sv) = set (waiting sv)" "distinct (waiting ?sv) = distinct (waiting sv)"
    using mset_eq_setD mset_eq_imp_distinct_iff by blast+
  with assms show ?thesis
    by (auto simp: server_inv_def sessions_ok_def waiting_ok_def manager_ok_def sv forEach_same)
qed

lemma remove_at_set: "i < length xs \<Longrightarrow> mset xs = add_mset (xs ! i) (mset (remove_at i xs))"
  using mset_concat_remove_at [of i xs "\<lambda>x. [x]"] by (simp add: concat_map_singleton)

lemma map_remove_at: "map f (remove_at i xs) = remove_at i (map f xs)"
  by (simp add: remove_at_def take_map drop_map)

lemma accepted_inv:
  assumes "server_inv create sv" "i < length (sv_accepts sv)"
  shows "server_inv create (sv\<lparr>sv_accepts := remove_at i (sv_accepts sv),
    sv_accepted := sv_accepted sv @ [(sv_accepts sv ! i, err)]\<rparr>)"
proof -
  let ?sv = "sv\<lparr>sv_accepts := remove_at i (sv_accepts sv),
    sv_accepted := sv_accepted sv @ [(sv_accepts sv ! i, err)]\<rparr>"
  have "mset (waiting ?sv) = mset (waiting sv)"
    using remove_at_set [OF assms(2)] by (simp add: waiting_def)
  then have "set (waiting ?sv) = set (waiting sv)" "distinct (waiting ?sv) = distinct (waiting sv)"
    using mset_eq_setD mset_eq_imp_distinct_iff by blast+
  with assms(1) show ?thesis
    by (intro inv_frame [OF assms(1)]) (simp_all add: server_inv_def waiting_ok_def)
qed

text \<open>The handler takes its session out of the waiting ones, and may open it.\<close>

lemma handle_inv:
  assumes inv: "server_inv create sv" and i: "i < length (sv_accepted sv)" "sv_accepted sv ! i = (k, err)"
  defines "sv1 \<equiv> sv\<lparr>sv_accepted := remove_at i (sv_accepted sv)\<rparr>"
  shows "server_inv create (fst (handleAccept k err opt sv1))"
proof -
  have m: "mset (waiting sv) = add_mset k (mset (waiting sv1))"
    using remove_at_set [of i "map fst (sv_accepted sv)"] i
    by (simp add: waiting_def sv1_def map_remove_at)
  have d: "distinct (waiting sv)" and "k \<in> set (waiting sv)"
    using inv m by (auto simp: server_inv_def waiting_ok_def simp flip: set_mset_mset)
  then have k: "k < length (sv_sessions sv)" "sv_sessions sv ! k = new_session (handler_for create k)"
    using inv by (auto simp: server_inv_def waiting_ok_def)
  from d m have dk: "k \<notin> set (waiting sv1)" "distinct (waiting sv1)"
    by (metis distinct.simps(2) mset.simps(2) mset_eq_imp_distinct_iff)+
  have sub: "set (waiting sv1) \<subseteq> set (waiting sv)"
    using arg_cong [OF m, of set_mset] by auto
  have inv1: "server_inv create sv1"
    by (rule inv_frame [OF inv]) (use dk sub in \<open>simp_all add: sv1_def\<close>)
  have opened: "server_inv create (sv1\<lparr>sv_sessions := (sv_sessions sv1)[k := opened (handler_for create k)]\<rparr>)"
  proof -
    have c: "extCalls (opened (handler_for create k)) = []" by (simp add: opened_def)
    have s: "sv_sessions sv1 = sv_sessions sv" by (simp add: sv1_def)
    have "served (handler_for create k) (opened (handler_for create k))"
      by (simp add: served_def shaking_def)
    with inv1 dk(1) k c show ?thesis
      by (auto simp: server_inv_def sessions_ok_def waiting_ok_def manager_ok_def waiting_def s nth_list_update)
  qed
  have s1: "sv_sessions sv1 ! k = new_session (handler_for create k)" using k by (simp add: sv1_def)
  show ?thesis
    using inv1 accept_inv [OF inv1] accept_inv [OF opened] open_new [of opt "handler_for create k"]
    by (auto simp: handleAccept_def s1 split: sum.split)
qed

text \<open>A step of a session, and the calls it makes.\<close>

lemma entries_append: "entries (xs @ ys) = fold registered_after ys (entries xs)"
  by (simp add: entries_def)

lemma session_inv:
  assumes inv: "server_inv create sv" and k: "k < length (sv_sessions sv)"
    and step: "session_step bo (sv_sessions sv ! k) e s" "internal e"
  defines "new \<equiv> drop (length (extCalls (sv_sessions sv ! k))) (extCalls s)"
  shows "server_inv create (forward k new (sv\<lparr>sv_sessions := (sv_sessions sv)[k := s]\<rparr>))"
proof -
  let ?sv = "forward k new (sv\<lparr>sv_sessions := (sv_sessions sv)[k := s]\<rparr>)"
  have create: "sv_createHandlerMapper sv = create" using inv by (simp add: server_inv_def)
  have srv: "served (handler_for create k) (sv_sessions sv ! k)"
    using inv k by (auto simp: server_inv_def sessions_ok_def)
  have calls: "extCalls s = extCalls (sv_sessions sv ! k) @ new"
    using calls_prefix [OF step] by (auto simp: new_def)
  have s: "served (handler_for create k) s" using served_step [OF step _ srv] by simp
  have sv: "sv_sessions ?sv = (sv_sessions sv)[k := s]" "sv_createHandlerMapper ?sv = create"
    "waiting ?sv = waiting sv" "sv_manager ?sv = fold (register k) new (sv_manager sv)"
    by (simp_all add: forward_def waiting_def create)
  have "k \<notin> set (waiting sv)"
    using inv new_session_step [of bo _ e s] step by (auto simp: server_inv_def waiting_ok_def)
  then have "\<forall>j\<in>set (waiting sv). (sv_sessions sv)[k := s] ! j = sv_sessions sv ! j"
    by (metis nth_list_update_neq)
  then have "waiting_ok ?sv" using inv by (auto simp: server_inv_def waiting_ok_def sv create)
  moreover have "sessions_ok ?sv" using inv s k by (auto simp: server_inv_def sessions_ok_def sv create nth_list_update)
  moreover have "manager_ok ?sv"
    using inv k calls by (auto simp: server_inv_def manager_ok_def sv known_registers closes_registers
        settled_registers entries_append nth_list_update split: if_splits)
  ultimately show ?thesis by (simp add: server_inv_def sv)
qed

text \<open>The manager closes sessions it knows, which are running.\<close>

lemma close_inv_server:
  assumes inv: "server_inv create sv" and k: "k \<in> known (sv_manager sv)"
  shows "server_inv create (close_session k sv)"
proof -
  let ?s = "sv_sessions sv ! k"
  have create: "sv_createHandlerMapper sv = create" using inv by (simp add: server_inv_def)
  have k': "k < length (sv_sessions sv)" "JoinCall \<in> set (extCalls ?s)"
    using inv k by (auto simp: server_inv_def manager_ok_def)
  then have "served (handler_for create k) (close ?s)"
    using inv joined_running [of "handler_for create k" ?s] running_close [of "handler_for create k" ?s]
    by (auto simp: server_inv_def sessions_ok_def served_def)
  moreover have "extCalls (close ?s) = extCalls ?s" using boundary_quiet(4) [of ?s] by (simp add: boundary_def)
  moreover have "k \<notin> set (waiting sv)" using inv k' by (auto simp: server_inv_def waiting_ok_def)
  ultimately show ?thesis using inv k'
    by (auto simp: server_inv_def sessions_ok_def waiting_ok_def manager_ok_def waiting_def
        close_session_def create nth_list_update)
qed

lemma close_session_frame [simp]: "sv_manager (close_session k sv) = sv_manager sv"
  by (simp add: close_session_def)

lemma close_all_inv:
  "server_inv create sv \<Longrightarrow> set ks \<subseteq> known (sv_manager sv) \<Longrightarrow> server_inv create (fold close_session ks sv)"
proof (induction ks arbitrary: sv)
  case (Cons k ks)
  then show ?case using close_inv_server [of create sv k] by simp
qed simp

lemma manager_inv:
  assumes inv: "server_inv create sv" and m: "manager_exec (sv_manager sv) MStrand = Some m"
  shows "server_inv create (fold close_session (drop (length (sm_effects (sv_manager sv))) (sm_effects m))
    (sv\<lparr>sv_manager := m\<rparr>))"
proof -
  have c: "closes_only (sv_manager sv)" using inv by (simp add: server_inv_def manager_ok_def)
  note kr = known_run [OF m c]
  obtain new where new: "sm_effects m = sm_effects (sv_manager sv) @ new" "set new \<subseteq> known (sv_manager sv)"
    using kr(3) by blast
  let ?closed = "fold close_session new sv"
  have eq: "fold close_session ks (sv\<lparr>sv_manager := m\<rparr>) = (fold close_session ks sv)\<lparr>sv_manager := m\<rparr>" for ks
  proof (induction ks arbitrary: sv)
    case (Cons j ks)
    have "close_session j (sv\<lparr>sv_manager := m\<rparr>) = (close_session j sv)\<lparr>sv_manager := m\<rparr>"
      by (simp add: close_session_def)
    with Cons [of "close_session j sv"] show ?case by simp
  qed simp
  have mgr: "sv_manager (fold close_session ks sv) = sv_manager sv" for ks
    by (induction ks arbitrary: sv) simp_all
  have "server_inv create ?closed" by (rule close_all_inv [OF inv new(2)])
  then have "server_inv create (?closed\<lparr>sv_manager := m\<rparr>)"
    using kr(1,2) settled_run [OF m] mgr [of new]
    by (auto simp: server_inv_def sessions_ok_def waiting_ok_def waiting_def manager_ok_def)
  then show ?thesis by (simp only: new(1) append_eq_conv_conj eq) (simp add: eq)
qed

lemma server_inv_exec:
  assumes "server_inv create sv" "server_exec bo sv e = Some sv'"
  shows "server_inv create sv'"
proof (cases e)
  case (SvHandle i opt)
  with assms show ?thesis by (cases "sv_accepted sv ! i") (auto simp: handle_inv split: if_splits)
next
  case (SvSession k e')
  with assms show ?thesis
    by (auto simp: session_exec_step split: if_splits option.splits intro: session_inv)
next
  case SvManager
  with assms show ?thesis by (auto split: option.splits simp del: manager_exec.simps intro: manager_inv)
qed (use assms in \<open>auto simp: start_inv stop_inv accepted_inv split: if_splits\<close>)

lemma server_inv_init: "server_inv create (Server_create create)"
  by (simp add: server_inv_def sessions_ok_def waiting_ok_def waiting_def manager_ok_def Server_create_def
      SessionManager_create_def closes_only_def known_def settled_def)

interpretation server_safe: inductive_invariant "server_init create" "server_next bo" "server_inv create" for create bo
  by unfold_locales (auto simp: server_init_def server_next_def server_inv_init intro: server_inv_exec)

end
