(* ===== verification/ServerProperties.thy ===== *)
theory ServerProperties
  imports ServerRegistry
begin

text \<open>
  What the server promises: its registry at rest and the life of each of its sessions; and what one
  accept leads to.  Every session of the server is a reachable session, so what the
  theories on \<open>Session\<close> prove holds of each.
\<close>

section \<open>Sessions of the server are sessions\<close>

definition all_reachable :: "byte_order \<Rightarrow> server \<Rightarrow> bool" where
  "all_reachable bo sv \<longleftrightarrow> (\<forall>s\<in>set (sv_sessions sv). session_reachable bo s)"

lemma session_reachable_step: "session_reachable bo s \<Longrightarrow> session_step bo s e t \<Longrightarrow> session_reachable bo t"
  using reach.reach_step [of session_start "session_next bo" s t] session_next_def by blast

lemma reachable_new: "session_reachable bo (new_session rh)"
  unfolding new_session_def
  by (rule session_reachable_step [OF session_reachable_create session_step.configure])

lemma reachable_accept: "all_reachable bo sv \<Longrightarrow> all_reachable bo (Server_accept sv)"
  by (auto simp: all_reachable_def Server_accept_def reachable_new)

lemma reachable_update:
  assumes "all_reachable bo sv" "k < length (sv_sessions sv) \<Longrightarrow> session_step bo (sv_sessions sv ! k) e s"
  shows "all_reachable bo (sv\<lparr>sv_sessions := (sv_sessions sv)[k := s]\<rparr>)"
proof (cases "k < length (sv_sessions sv)")
  case True
  then have "session_reachable bo s"
    using assms session_reachable_step [of bo "sv_sessions sv ! k"] by (auto simp: all_reachable_def)
  then show ?thesis using assms(1) set_update_subset_insert [of "sv_sessions sv" k s]
    by (auto simp: all_reachable_def)
next
  case False
  then show ?thesis using assms(1) by (simp add: all_reachable_def list_update_beyond)
qed

lemma reachable_handle: "all_reachable bo sv \<Longrightarrow> all_reachable bo (fst (handleAccept k err opt sv))"
  by (auto simp: handleAccept_def reachable_accept split: sum.split
      intro!: reachable_accept reachable_update session_step.open_ok)

lemma reachable_closes: "all_reachable bo sv \<Longrightarrow> all_reachable bo (fold close_session ks sv)"
proof (induction ks arbitrary: sv)
  case (Cons k ks)
  have "session_step bo s Drop (close s)" for s :: "registration session"
    using session_step.drop [of bo s] by (simp add: drop_session_def)
  then have "all_reachable bo (close_session k sv)"
    unfolding close_session_def by (rule reachable_update [OF Cons.prems])
  then show ?case using Cons.IH by simp
qed simp

lemma reachable_exec:
  assumes "all_reachable bo sv" "server_exec bo sv e = Some sv'"
  shows "all_reachable bo sv'"
proof (cases e)
  case (SvStart ip port env)
  have "sv_sessions (snd (Server_start ip port env sv)) \<in>
      {sv_sessions sv, sv_sessions sv @ [new_session (receive_handler_of sv)]}"
    by (auto simp: Server_start_def Let_def Server_accept_def receive_handler_of_def split: option.split)
  with assms SvStart show ?thesis by (auto simp: all_reachable_def reachable_new)
next
  case (SvStop ec)
  with assms show ?thesis by (auto simp: Server_stop_def Let_def all_reachable_def)
next
  case (SvAccept i err)
  with assms show ?thesis by (auto simp: all_reachable_def split: if_splits)
next
  case (SvHandle i opt)
  have "all_reachable bo (sv\<lparr>sv_accepted := remove_at i (sv_accepted sv)\<rparr>)"
    using assms(1) by (simp add: all_reachable_def)
  with assms SvHandle reachable_handle show ?thesis by (auto split: if_splits prod.splits)
next
  case (SvSession k e')
  with assms obtain s where s: "session_step bo (sv_sessions sv ! k) e' s"
    "sv_sessions sv' = (sv_sessions sv)[k := s]"
    by (auto simp: session_exec_step forward_def split: if_splits option.splits)
  from reachable_update [OF assms(1) s(1)] s(2) show ?thesis by (simp add: all_reachable_def)
next
  case SvManager
  then obtain m ks where "sv' = fold close_session ks (sv\<lparr>sv_manager := m\<rparr>)"
    using assms(2) by (auto split: option.splits simp del: manager_exec.simps)
  then show ?thesis using reachable_closes [of bo "sv\<lparr>sv_manager := m\<rparr>"] assms(1) by (simp add: all_reachable_def)
qed

interpretation server_sessions: inductive_invariant "server_init create" "server_next bo" "all_reachable bo" for create bo
proof unfold_locales
  show "all_reachable bo sv" if "server_init create sv" for sv
    using that by (simp add: server_init_def Server_create_def all_reachable_def)
  show "all_reachable bo sv'" if "all_reachable bo sv" "server_next bo sv sv'" for sv sv'
    using that reachable_exec by (auto simp: server_next_def)
qed

section \<open>The accept loop\<close>

text \<open>Accepts pending, or completed and not yet handled.\<close>

definition accepting :: "server \<Rightarrow> nat" where
  "accepting sv = length (sv_accepts sv) + length (sv_accepted sv)"

lemma length_remove_at: "i < length xs \<Longrightarrow> length (remove_at i xs) = length xs - 1"
  by (simp add: remove_at_def)

definition accept_round :: "server_event list" where
  "accept_round = [SvAccept 0 (Some (OtherError 9)), SvHandle 0 None]"

lemma accept_round_again:
  assumes "sv_accepts sv = [k]" "sv_accepted sv = []"
  shows "\<exists>sv'. run (server_exec bo) sv (concat (replicate n accept_round)) = Some sv' \<and>
    (\<exists>k'. sv_accepts sv' = [k']) \<and> sv_accepted sv' = [] \<and>
    length (sv_sessions sv') = n + length (sv_sessions sv) \<and> sv_acceptorOpen sv' = sv_acceptorOpen sv"
  using assms
proof (induction n arbitrary: sv k)
  case (Suc n)
  obtain v where v: "run (server_exec bo) sv accept_round = Some v" "sv_accepts v = [length (sv_sessions sv)]"
    "sv_accepted v = []" "length (sv_sessions v) = Suc (length (sv_sessions sv))"
    "sv_acceptorOpen v = sv_acceptorOpen sv"
    using Suc.prems by (simp add: accept_round_def run_simps)
  from Suc.IH [OF v(2,3)] show ?case
    by (simp add: run_append v)
qed auto

lemma count_distinct: "(\<And>x. count_list xs x \<le> 1) \<Longrightarrow> distinct xs"
proof (induction xs)
  case (Cons x xs)
  have "count_list xs y \<le> 1" for y using Cons.prems [of y] by (simp split: if_splits)
  moreover have "count_list xs x = 0" using Cons.prems [of x] by simp
  ultimately show ?case using Cons.IH by (simp add: count_list_0_iff)
qed simp

section \<open>Properties\<close>

abbreviation server_reachable :: "(nat \<Rightarrow> handler_mapper option) option \<Rightarrow> byte_order \<Rightarrow> server \<Rightarrow> bool" where
  "server_reachable create bo \<equiv> reach (server_init create) (server_next bo)"

lemma server_reachable_run:
  assumes "run (server_exec bo) (Server_create create) es = Some sv"
  shows "server_reachable create bo sv"
proof (rule run_invariant [OF assms])
  show "server_reachable create bo (Server_create create)" by (rule reach.reach_init) (simp add: server_init_def)
qed (auto simp: server_next_def intro: reach.reach_step)

text \<open>C32. The registry: whatever accepts, sessions, timers and \<open>stop\<close> do, once the manager has run its
  posted tasks its vector holds, without repetition, exactly the sessions whose handshake succeeded and
  whose close handler has not run.\<close>

theorem server_registry:
  assumes "server_reachable create bo sv" "sm_strand (sv_manager sv) = []"
  shows "distinct (sm_sessions (sv_manager sv)) \<and>
    (\<forall>k. k \<in> set (sm_sessions (sv_manager sv)) \<longleftrightarrow>
      k < length (sv_sessions sv) \<and> extCalls (sv_sessions sv ! k) = [JoinCall])"
proof -
  from server_safe.reachable_inv [OF assms(1)] have inv: "sessions_ok sv" "manager_ok sv"
    by (simp_all add: server_inv_def)
  have e: "entries (extCalls (sv_sessions sv ! k)) = of_bool (extCalls (sv_sessions sv ! k) = [JoinCall])"
    if "k < length (sv_sessions sv)" for k
    using inv(1) that entries_served [of "handler_for (sv_createHandlerMapper sv) k" "sv_sessions sv ! k"]
    by (simp add: sessions_ok_def)
  let ?xs = "sm_sessions (sv_manager sv)"
  have c: "count_list ?xs k = of_bool (k < length (sv_sessions sv) \<and> extCalls (sv_sessions sv ! k) = [JoinCall])" for k
    using inv(2) assms(2) e [of k] by (simp add: manager_ok_def settled_def)
  have "count_list ?xs k \<le> 1" for k by (simp add: c)
  moreover have "k \<in> set ?xs \<longleftrightarrow> k < length (sv_sessions sv) \<and> extCalls (sv_sessions sv ! k) = [JoinCall]" for k
    using c [of k] count_list_0_iff [of ?xs k] by (metis of_bool_eq_0_iff)
  ultimately show ?thesis using count_distinct by blast
qed

text \<open>A server that has accepted one connection, and the same after a successful handshake.\<close>

definition good_start :: start_env where
  "good_start = \<lparr>se_address = None, se_options = None, se_callback = None, se_chain = None,
     se_key = None, se_dh = None, se_open = None, se_bind = None, se_listen = None\<rparr>"

definition accept_events :: "server_event list" where
  "accept_events = [SvStart [] 80 good_start, SvAccept 0 None, SvHandle 0 None, SvSession 0 SocketStrand]"

definition handshake_done :: "server_event list" where
  "handshake_done = [SvSession 0 (Complete 0 None []), SvSession 0 SocketStrand]"

lemma joined_run:
  "\<exists>sv. run (server_exec LittleEndian) (Server_create None) (accept_events @ handshake_done @ [SvManager]) = Some sv \<and>
     sm_strand (sv_manager sv) = [] \<and> length (sv_sessions sv) = 2 \<and>
     extCalls (sv_sessions sv ! 0) = [JoinCall] \<and> extCalls (sv_sessions sv ! 1) = []"
  by (simp add: run_simps good_start_def accept_events_def handshake_done_def Let_def)

theorem server_registry_witness:
  "\<exists>sv. server_reachable None LittleEndian sv \<and> set (sm_sessions (sv_manager sv)) = {0} \<and>
     length (sv_sessions sv) = 2"
proof -
  obtain sv where sv: "run (server_exec LittleEndian) (Server_create None)
      (accept_events @ handshake_done @ [SvManager]) = Some sv" "sm_strand (sv_manager sv) = []"
    "length (sv_sessions sv) = 2" "extCalls (sv_sessions sv ! 0) = [JoinCall]" "extCalls (sv_sessions sv ! 1) = []"
    using joined_run by blast
  note r = server_reachable_run [OF sv(1)]
  have "k \<in> set (sm_sessions (sv_manager sv)) \<longleftrightarrow> k = 0" for k
  proof -
    have "k < length (sv_sessions sv) \<and> extCalls (sv_sessions sv ! k) = [JoinCall] \<longleftrightarrow> k = 0"
      using sv(3-5) by (cases k) (auto simp: less_Suc_eq)
    then show ?thesis using server_registry [OF r sv(2)] by simp
  qed
  with r sv(3) show ?thesis by blast
qed

text \<open>C33. The life of a server's session: it is opened at most once, its close handler runs at most
  once (the handshake can not revive it, because nobody else can close it before), it joins at most
  once and leaves after that, and it never has two reads under way, nor two writes before its socket
  is closed.\<close>

theorem server_session_life:
  assumes "server_reachable create bo sv" "k < length (sv_sessions sv)"
  shows "open_count (sv_sessions sv ! k) \<le> 1 \<and> close_count (sv_sessions sv ! k) \<le> 1 \<and>
    extCalls (sv_sessions sv ! k) \<in> {[], [JoinCall], [LeaveCall], [JoinCall, LeaveCall]} \<and>
    reads_outstanding (sv_sessions sv ! k) \<le> 1 \<and>
    (session_closed (sv_sessions sv ! k) \<or> size (in_flight (session_view (sv_sessions sv ! k))) \<le> 1)"
proof -
  let ?s = "sv_sessions sv ! k"
  have served: "served (handler_for (sv_createHandlerMapper sv) k) ?s"
    using server_safe.reachable_inv [OF assms(1)] assms(2) by (auto simp: server_inv_def sessions_ok_def)
  then have o: "lf_opens (session_life ?s) \<le> 1"
    by (auto simp: served_def running_def lively_def shaking_def opened_def new_session_def configure_def
        Session_create_def session_life_def)
  have r: "session_reachable bo ?s"
    using server_sessions.reachable_inv [OF assms(1)] assms(2) by (simp add: all_reachable_def)
  have "open_count ?s \<le> 1" using o by (simp add: open_count_def session_life_def)
  moreover have "reads_outstanding ?s \<le> 1"
    using session_reader.reachable_inv [OF r] o by (simp add: reads_outstanding_def reader_inv_def)
  moreover have "session_closed ?s \<or> size (in_flight (session_view ?s)) \<le> 1"
    using session_writer.view_single_writer [OF r] single_writer_size by blast
  ultimately show ?thesis using served_calls [OF served] by simp
qed

theorem server_session_life_witness:
  "\<exists>sv. server_reachable None LittleEndian sv \<and> length (sv_sessions sv) = 2 \<and>
     open_count (sv_sessions sv ! 0) \<le> 1 \<and> close_count (sv_sessions sv ! 0) \<le> 1"
proof -
  obtain sv where sv: "run (server_exec LittleEndian) (Server_create None)
      (accept_events @ handshake_done @ [SvManager]) = Some sv" "length (sv_sessions sv) = 2"
    using joined_run by blast
  note r = server_reachable_run [OF sv(1)]
  from server_session_life [OF r, of 0] sv(2) r show ?thesis by auto
qed

text \<open>Handling a completed accept keeps the number of accepts under way, except
  that an aborted accept ends the loop, and so does an exception from \<open>open\<close>, which leaves the
  handler before the next \<open>accept\<close>.\<close>

lemma accept_step:
  assumes "i < length (sv_accepted sv)" "sv_accepted sv ! i = (k, err)"
    and "server_exec bo sv (SvHandle i opt) = Some sv'" "\<not> isConnected (sv_sessions sv ! k)"
  shows "accepting sv = accepting sv' +
    of_bool (err = Some OperationAborted \<or> (err = None \<and> opt \<noteq> None))"
proof -
  let ?sv = "sv\<lparr>sv_accepted := remove_at i (sv_accepted sv)\<rparr>"
  have sv': "sv' = fst (handleAccept k err opt ?sv)" using assms(1-3) by simp
  have "accepting sv = Suc (accepting ?sv)"
    using length_remove_at [OF assms(1)] assms(1) by (simp add: accepting_def)
  moreover have "accepting (Server_accept v) = Suc (accepting v)" for v
    by (simp add: accepting_def Server_accept_def)
  moreover have "accepting (?sv\<lparr>sv_sessions := ss\<rparr>) = accepting ?sv" for ss
    by (simp add: accepting_def)
  ultimately show ?thesis using assms(4)
    by (cases opt) (auto simp: sv' handleAccept_def open_session_def configureSocket_def)
qed

end
