(* ===== verification/SessionTyping.thy ===== *)
theory SessionTyping
  imports SessionStream
begin

text \<open>
  Well-typed states of a \<open>Session\<close>: what every message in the queue, in a strand, in a pending
  operation and in the log of requests looks like, given that the payloads handed to \<open>send\<close> are
  sane.  Outgoing messages are \<open>composed\<close>: a header that describes a payload of less than \<open>2 ^ 32\<close>
  bytes, and one of the three types that the receiver accepts.  An incoming message is the default
  message while its header is read, then has a payload of exactly the size its header announces.
\<close>

section \<open>Types of messages, handlers and states\<close>

definition sendable_buffer :: "buffer \<Rightarrow> bool" where
  "sendable_buffer b \<longleftrightarrow> well_sized b \<and> Buffer_size b < 2 ^ 32"

definition composed :: "message \<Rightarrow> bool" where
  "composed m \<longleftrightarrow> sendable m \<and> Message_type m \<in> {type_code Data, type_code Ping, type_code Pong}"

fun call_typed :: "'x call \<Rightarrow> bool" where
  "call_typed (CallSend p) \<longleftrightarrow> sendable_buffer p"
| "call_typed _ \<longleftrightarrow> True"

definition calls_typed :: "'x call list \<Rightarrow> bool" where
  "calls_typed cs \<longleftrightarrow> (\<forall>c\<in>set cs. call_typed c)"

definition handler_typed :: "'x call list option \<Rightarrow> bool" where
  "handler_typed h \<longleftrightarrow> (case h of None \<Rightarrow> True | Some cs \<Rightarrow> calls_typed cs)"

definition receiver_typed :: "'x receive_handler \<Rightarrow> bool" where
  "receiver_typed h \<longleftrightarrow> (\<forall>p. sendable_buffer p \<longrightarrow> calls_typed (h p))"

definition filled :: "message \<Rightarrow> bool" where
  "filled m \<longleftrightarrow> well_sized (msg_payload m) \<and>
     Buffer_size (msg_payload m) = unat (pi_size (h_pInfo (msg_header m)))"

fun task_typed :: "socket_task \<Rightarrow> bool" where
  "task_typed (RunAsyncWrite m) \<longleftrightarrow> composed m"
| "task_typed (OnWrite m _) \<longleftrightarrow> composed m"
| "task_typed (OnReadHeader m _) \<longleftrightarrow> msg_payload m = Buffer_default"
| "task_typed (OnReadBody m _) \<longleftrightarrow> filled m"
| "task_typed _ \<longleftrightarrow> True"

fun op_typed :: "asio_op \<Rightarrow> bool" where
  "op_typed (OpWrite m) \<longleftrightarrow> composed m"
| "op_typed (OpReadHeader m) \<longleftrightarrow> m = Message_default"
| "op_typed (OpReadBody m) \<longleftrightarrow> filled m"
| "op_typed (OpHandshake _) \<longleftrightarrow> True"

fun request_typed :: "asio_request \<Rightarrow> bool" where
  "request_typed (AsyncWrite m) \<longleftrightarrow> composed m"
| "request_typed (AsyncReadHeader n) \<longleftrightarrow> n = HeaderSize"
| "request_typed (AsyncReadBody n) \<longleftrightarrow> n < 2 ^ 32"
| "request_typed _ \<longleftrightarrow> True"

definition session_typed :: "'x session \<Rightarrow> bool" where
  "session_typed s \<longleftrightarrow> (\<forall>m\<in>set (writeQueue s). composed m) \<and>
     (\<forall>t\<in>set (socketStrand s). task_typed t) \<and> (\<forall>op\<in>set (pendingOps s). op_typed op) \<and>
     (\<forall>r\<in>set (issued s). request_typed r) \<and>
     (\<forall>(h, p)\<in>set (readStrand s). receiver_typed h \<and> sendable_buffer p) \<and>
     handler_typed (openHandler s) \<and> handler_typed (closeHandler s) \<and>
     (case receiveHandler s of None \<Rightarrow> True | Some h \<Rightarrow> receiver_typed h)"

text \<open>The calls of the public functions that hand sane payloads and handlers to the session.\<close>

fun event_typed :: "'x event \<Rightarrow> bool" where
  "event_typed (Configure oh ch rh) \<longleftrightarrow> handler_typed oh \<and> handler_typed ch \<and>
     (case rh of None \<Rightarrow> True | Some h \<Rightarrow> receiver_typed h)"
| "event_typed (Send p) \<longleftrightarrow> sendable_buffer p"
| "event_typed _ \<longleftrightarrow> True"

section \<open>The parts of an operation\<close>

lemma composed_create [simp]:
  "composed (Message_create Data p) \<longleftrightarrow> sendable_buffer p"
  "composed (Message_of_type Ping)" "composed (Message_of_type Pong)"
  by (auto simp: composed_def sendable_def sendable_buffer_def)

lemma filled_sendable: "filled m \<Longrightarrow> sendable_buffer (msg_payload m)"
  using unat_bound [of "pi_size (h_pInfo (msg_header m))"] by (simp add: filled_def sendable_buffer_def)

lemma typed_frame [simp]:
  "session_typed (s\<lparr>isConnected := b\<rparr>) = session_typed s"
  "session_typed (s\<lparr>lastTimeRead := l\<rparr>) = session_typed s"
  "session_typed (s\<lparr>timerWaits := n\<rparr>) = session_typed s"
  "session_typed (s\<lparr>readTimerStrand := ts\<rparr>) = session_typed s"
  "session_typed (s\<lparr>extCalls := xs\<rparr>) = session_typed s"
  "session_typed (post_timer t s) = session_typed s"
  by (simp_all add: session_typed_def post_timer_def)

lemma typed_post [simp]:
  "session_typed (post_socket t s) \<longleftrightarrow> session_typed s \<and> task_typed t"
  "session_typed (start_op op s) \<longleftrightarrow> session_typed s \<and> op_typed op"
  "session_typed (issue r s) \<longleftrightarrow> session_typed s \<and> request_typed r"
  "session_typed (post_read (h, p) s) \<longleftrightarrow> session_typed s \<and> receiver_typed h \<and> sendable_buffer p"
  by (auto simp: session_typed_def post_socket_def start_op_def issue_def post_read_def)

lemma typed_quiet [simp]:
  "session_typed (cancelAllPendingOperations s) = session_typed s"
  "session_typed (cancelReadTimer s) = session_typed s"
  "session_typed (restartReadTimer s) = session_typed s"
  "session_typed (close s) = session_typed s" "session_typed (drop_session s) = session_typed s"
  "session_typed (handleReadTimeOut err s) = session_typed s"
  "session_typed (asyncHandshake ht s) = session_typed s"
  "session_typed (asyncWrite m s) \<longleftrightarrow> session_typed s \<and> composed m"
  "session_typed (readNext s) = session_typed s"
  by (auto simp: cancelAllPendingOperations_def cancelReadTimer_def restartReadTimer_def close_def
      drop_session_def handleReadTimeOut_def asyncHandshake_def asyncWrite_def readNext_def
      asyncReadHeader_def Let_def)

lemma typed_queueD: "session_typed s \<Longrightarrow> writeQueue s = m # q \<Longrightarrow> composed m"
  by (simp add: session_typed_def)

lemma typed_queue: "session_typed s \<Longrightarrow> \<forall>m\<in>set q. composed m \<Longrightarrow> session_typed (s\<lparr>writeQueue := q\<rparr>)"
  by (simp add: session_typed_def)

lemma typed_writeNext: "session_typed s \<Longrightarrow> session_typed (writeNext s)"
  by (auto simp: writeNext_def dest: typed_queueD split: list.split)

lemma typed_send_message:
  assumes "session_typed s" "composed m"
  shows "session_typed (send_message m s)"
proof (cases "writeQueue s")
  case Nil
  with assms show ?thesis
    by (simp add: send_message_def) (intro typed_writeNext typed_queue, simp_all)
next
  case (Cons c r)
  then have "\<forall>x\<in>set (c # r @ [m]). composed x" using assms by (simp add: session_typed_def)
  with Cons assms(1) show ?thesis by (simp add: send_message_def typed_queue)
qed

lemma typed_sends [simp, intro]:
  "session_typed s \<Longrightarrow> sendable_buffer p \<Longrightarrow> session_typed (send p s)"
  "session_typed s \<Longrightarrow> session_typed (ping s)" "session_typed s \<Longrightarrow> session_typed (pong s)"
  by (simp_all add: send_def ping_def pong_def typed_send_message)

lemma typed_run_calls: "session_typed s \<Longrightarrow> calls_typed cs \<Longrightarrow> session_typed (run_calls cs s)"
proof (induction cs arbitrary: s)
  case (Cons c cs)
  have "session_typed (run_call c s)" using Cons.prems by (cases c) (auto simp: calls_typed_def)
  with Cons show ?case by (simp add: calls_typed_def)
qed simp

lemma typed_run_handler: "session_typed s \<Longrightarrow> handler_typed h \<Longrightarrow> session_typed (run_handler h s)"
  by (cases h) (simp_all add: run_handler_def handler_typed_def typed_run_calls)

lemma typed_handlers:
  "session_typed s \<Longrightarrow> handler_typed (openHandler s)"
  "session_typed s \<Longrightarrow> handler_typed (closeHandler s)"
  "session_typed s \<Longrightarrow> receiveHandler s = Some h \<Longrightarrow> receiver_typed h"
  by (auto simp: session_typed_def)

lemma typed_handleWrite: "session_typed s \<Longrightarrow> session_typed (handleWrite m err s)"
proof -
  assume typed: "session_typed s"
  then have "session_typed (s\<lparr>writeQueue := tl (writeQueue s)\<rparr>)"
    by (intro typed_queue) (cases "writeQueue s"; simp add: session_typed_def)+
  with typed show ?thesis by (simp add: handleWrite_def typed_writeNext Let_def)
qed

lemma typed_received:
  "session_typed s \<Longrightarrow> sendable_buffer (msg_payload m) \<Longrightarrow> session_typed (onMessageReceived m s)"
  by (auto simp: onMessageReceived_def handleMessage_def Let_def dest: typed_handlers(3) split: option.split)

lemma typed_handleReadHeader:
  assumes "session_typed s" "msg_payload m = Buffer_default"
  shows "session_typed (handleReadHeader m err s)"
proof -
  have "filled (fitToSize m)" by (simp add: filled_def fitToSize_def)
  moreover from filled_sendable [OF this]
  have "Buffer_size (msg_payload (fitToSize m)) < 2 ^ 32" by (simp add: sendable_buffer_def)
  moreover have "sendable_buffer (msg_payload m)" by (simp add: assms(2) sendable_buffer_def)
  ultimately show ?thesis using assms(1)
    by (simp add: handleReadHeader_def asyncReadBody_def typed_received Let_def)
qed

lemma typed_handleReadBody:
  "session_typed s \<Longrightarrow> filled m \<Longrightarrow> session_typed (handleReadBody m err s)"
  by (simp add: handleReadBody_def typed_received filled_sendable Let_def)

lemma typed_handleHandshake: "session_typed s \<Longrightarrow> session_typed (handleHandshake err s)"
  by (simp add: handleHandshake_def typed_run_handler typed_handlers Let_def)

lemma typed_close_task: "session_typed s \<Longrightarrow> session_typed (close_task s)"
proof -
  assume "session_typed s"
  then have t: "session_typed (issue SocketClose (issue SocketShutdown (s\<lparr>writeQueue := []\<rparr>)))"
    by (simp add: typed_queue)
  show ?thesis by (simp add: close_task_def Let_def typed_run_handler [OF t typed_handlers(2) [OF t]])
qed

section \<open>Steps\<close>

lemma typed_pop:
  "session_typed s \<Longrightarrow> socketStrand s = t # ts \<Longrightarrow> session_typed (s\<lparr>socketStrand := ts\<rparr>) \<and> task_typed t"
  by (simp add: session_typed_def)

lemma typed_task: "session_typed s \<Longrightarrow> task_typed t \<Longrightarrow> session_typed (run_socket_task t s)"
  by (cases t) (simp_all add: typed_close_task typed_handleHandshake typed_handleReadHeader
      typed_handleReadBody typed_handleWrite)

lemma typed_timer: "session_typed s \<Longrightarrow> session_typed (run_timer_task now rnd t s)"
  by (cases t) (simp_all add: restart_timer_task_def cancel_timer_task_def timeout_task_def Let_def)

lemma typed_completion: "op_typed op \<Longrightarrow> task_typed (completion bo op err bs)"
  by (cases op) (auto simp: read_into_header_def read_into_body_def filled_def Message_default_def)

lemma typed_open: "open_session ht opt s = Inr t \<Longrightarrow> session_typed s \<Longrightarrow> session_typed t"
  by (auto simp: open_session_def configureSocket_def split: if_splits option.splits)

lemma set_remove_at: "set (remove_at i xs) \<subseteq> set xs"
  by (auto simp: remove_at_def dest: in_set_takeD in_set_dropD)

lemma typed_step: "session_step bo s e t \<Longrightarrow> event_typed e \<Longrightarrow> session_typed s \<Longrightarrow> session_typed t"
proof (induction rule: session_step.induct)
  case (configure s oh ch rh)
  then show ?case by (simp add: session_typed_def configure_def)
next
  case (socket_strand s t ts)
  then show ?case using typed_task typed_pop by blast
next
  case (read_strand s h payload ts)
  then have "session_typed (s\<lparr>readStrand := ts\<rparr>)" "receiver_typed h" "sendable_buffer payload"
    by (simp_all add: session_typed_def)
  then show ?case by (simp add: typed_run_calls receiver_typed_def)
next
  case (complete i s err bs)
  have "session_typed (s\<lparr>pendingOps := remove_at i (pendingOps s)\<rparr>)"
    using complete set_remove_at [of i "pendingOps s"] by (auto simp: session_typed_def)
  moreover have "op_typed (pendingOps s ! i)" using complete by (simp add: session_typed_def)
  ultimately show ?case by (simp add: typed_completion)
qed (simp_all add: typed_open typed_timer)

definition session_next_typed :: "byte_order \<Rightarrow> 'x session \<Rightarrow> 'x session \<Rightarrow> bool" where
  "session_next_typed bo s t \<longleftrightarrow> (\<exists>e. session_step bo s e t \<and> event_typed e)"

lemma typed_create: "session_typed Session_create"
  by (simp add: session_typed_def Session_create_def handler_typed_def)

interpretation session_types:
  inductive_invariant session_start "session_next_typed bo" session_typed for bo
  by unfold_locales (auto simp: session_start_def session_next_typed_def typed_create intro: typed_step)

lemma typed_reachable_run:
  assumes "run (session_exec bo) Session_create es = Some t" "\<forall>e\<in>set es. event_typed e"
  shows "reach session_start (session_next_typed bo) t"
proof (rule run_invariant [OF assms(1)])
  show "reach session_start (session_next_typed bo) Session_create"
    by (simp add: reach.reach_init session_start_def)
next
  fix s e s'
  assume "e \<in> set es" "session_exec bo s e = Some s'"
  with assms(2) have "session_next_typed bo s s'"
    by (auto simp: session_next_typed_def session_exec_step)
  then show "reach session_start (session_next_typed bo) s \<Longrightarrow> reach session_start (session_next_typed bo) s'"
    by (rule reach.reach_step [rotated])
qed

section \<open>Properties\<close>

text \<open>C7. Types: if every payload that the program and its handlers pass to \<open>send\<close> is inside its
  vector and shorter than \<open>2 ^ 32\<close> bytes, then every message that is ever given to the socket is
  one the receiver accepts (its header describes its payload, its type is data, ping or pong), every
  header read asks for 12 bytes and every body read for fewer than \<open>2 ^ 32\<close>, and every payload that
  reaches the receive handler is inside its vector and shorter than \<open>2 ^ 32\<close> bytes again.\<close>

theorem session_well_typed:
  assumes "reach session_start (session_next_typed bo) s"
  shows "(\<forall>m. AsyncWrite m \<in> set (issued s) \<longrightarrow> described m \<and> well_sized (msg_payload m) \<and>
        Buffer_size (msg_payload m) < 2 ^ 32 \<and>
        Message_type m \<in> {type_code Data, type_code Ping, type_code Pong}) \<and>
    (\<forall>n. AsyncReadHeader n \<in> set (issued s) \<longrightarrow> n = 12) \<and>
    (\<forall>n. AsyncReadBody n \<in> set (issued s) \<longrightarrow> n < 2 ^ 32) \<and>
    (\<forall>h p. (h, p) \<in> set (readStrand s) \<longrightarrow> well_sized p \<and> Buffer_size p < 2 ^ 32)"
proof -
  have typed: "session_typed s" by (rule session_types.reachable_inv [OF assms])
  then have "request_typed r" if "r \<in> set (issued s)" for r using that by (simp add: session_typed_def)
  from this [of "AsyncWrite _"] this [of "AsyncReadHeader _"] this [of "AsyncReadBody _"] typed
  show ?thesis
    by (auto simp: session_typed_def composed_def sendable_def sendable_buffer_def HeaderSize_def)
qed

lemma typed_sample_run:
  "\<exists>s. run (session_exec bo) Session_create [Send (Buffer_create 3), SocketStrand] = Some s \<and>
     AsyncWrite (Message_create Data (Buffer_create 3)) \<in> set (issued s)"
  by (simp add: run_simps)

theorem session_well_typed_witness:
  "\<exists>s::nat session. reach session_start (session_next_typed BigEndian) s \<and>
     AsyncWrite (Message_create Data (Buffer_create 3)) \<in> set (issued s) \<and>
     described (Message_create Data (Buffer_create 3))"
proof -
  obtain s :: "nat session" where s: "run (session_exec BigEndian) Session_create
      [Send (Buffer_create 3), SocketStrand] = Some s"
    "AsyncWrite (Message_create Data (Buffer_create 3)) \<in> set (issued s)"
    using typed_sample_run by blast
  have "\<forall>e\<in>set [Send (Buffer_create 3), SocketStrand :: nat event]. event_typed e"
    by (simp add: sendable_buffer_def)
  note r = typed_reachable_run [OF s(1) this]
  from session_well_typed [OF r] r s(2) show ?thesis by blast
qed

end
