(* ===== verification/SessionReading.thy ===== *)
theory SessionReading
  imports SessionTyping SessionCalls
begin

text \<open>
  The read side of \<open>Session\<close> in every interleaving.  \<open>SessionStream\<close> drives a session through a
  stream in one particular order; here reads complete, strands run, handlers send, drop and cancel,
  timers fire and threads call the session in any order at all.  An endpoint is a session with two
  histories: the bytes its reads have taken from the stream, and the payloads its receive handler
  has been called with.  The invariant relates both to \<open>parse_frames\<close>; it holds as long as the
  session is opened once and a read without an error has filled its buffer.
\<close>

section \<open>Parsing a stream that grows\<close>

fun resume :: "byte_order \<Rightarrow> outcome \<Rightarrow> byte list \<Rightarrow> (u16 \<times> byte list) list \<times> outcome" where
  "resume bo (NeedHeader r) bs = parse_frames bo (r @ bs)"
| "resume bo (NeedBody h r) bs = parse_frames bo (header_bytes bo h @ r @ bs)"
| "resume bo (Rejected r) bs = ([], Rejected (r @ bs))"

lemma parse_frames_append:
  "parse_frames bo (xs @ bs) =
     (fst (parse_frames bo xs) @ fst (resume bo (snd (parse_frames bo xs)) bs),
      snd (resume bo (snd (parse_frames bo xs)) bs))"
proof (induction bo xs rule: parse_frames.induct)
  case (1 bo xs)
  define hdr where "hdr = header_of_bytes bo (take HeaderSize xs)"
  define r where "r = drop HeaderSize xs"
  define n where "n = unat (pi_size (h_pInfo hdr))"
  show ?case
  proof (cases "length xs < HeaderSize")
    case True
    then show ?thesis by (simp add: parse_frames.simps [of bo xs])
  next
    case False
    note IH = "1.IH" [OF False hdr_def r_def refl n_def]
    have hdr': "header_of_bytes bo (take HeaderSize (xs @ bs)) = hdr"
      "drop HeaderSize (xs @ bs) = r @ bs" "\<not> length (xs @ bs) < HeaderSize"
      using False by (simp_all add: hdr_def r_def)
    have whole: "header_bytes bo hdr @ r @ bs = xs @ bs"
      using False by (simp add: hdr_def r_def header.enc_dec)
    note P = parse_frames.simps [of bo xs, folded hdr_def r_def, unfolded Let_def, folded n_def]
    note Q = parse_frames.simps [of bo "xs @ bs", unfolded hdr' Let_def, folded n_def]
    consider (crc) "h_crc hdr \<noteq> 0" | (empty) "h_crc hdr = 0" "n = 0"
      | (wait) "h_crc hdr = 0" "n \<noteq> 0" "length r < n"
      | (bad) "h_crc hdr = 0" "n \<noteq> 0" "\<not> length r < n" "pi_crc (h_pInfo hdr) \<noteq> 0"
      | (ok) "h_crc hdr = 0" "n \<noteq> 0" "\<not> length r < n" "pi_crc (h_pInfo hdr) = 0" by blast
    then show ?thesis
    proof cases
      case wait
      then show ?thesis using False by (simp add: P whole)
    next
      case empty
      with IH(1) False show ?thesis by (simp add: P Q split: prod.split)
    next
      case ok
      with IH(2) False show ?thesis by (simp add: P Q split: prod.split)
    qed (use False in \<open>simp_all add: P Q\<close>)
  qed
qed

lemma prefix_parse_frames: "prefix (fst (parse_frames bo xs)) (fst (parse_frames bo (xs @ bs)))"
  by (simp add: parse_frames_append)

lemma parse_NeedBody:
  "snd (parse_frames bo xs) = NeedBody h r \<Longrightarrow>
     h_crc h = 0 \<and> pi_size (h_pInfo h) \<noteq> 0 \<and> length r < unat (pi_size (h_pInfo h))"
proof (induction bo xs rule: parse_frames.induct)
  case (1 bo xs)
  define hdr where "hdr = header_of_bytes bo (take HeaderSize xs)"
  define r0 where "r0 = drop HeaderSize xs"
  define n where "n = unat (pi_size (h_pInfo hdr))"
  note P = parse_frames.simps [of bo xs, folded hdr_def r0_def, unfolded Let_def, folded n_def]
  show ?case
  proof (cases "length xs < HeaderSize")
    case True
    with "1.prems" show ?thesis by (simp add: P)
  next
    case False
    note IH = "1.IH" [OF False hdr_def r0_def refl n_def]
    from False "1.prems" IH show ?thesis
      by (auto simp: P n_def split: if_splits prod.splits)
  qed
qed

text \<open>One header, one payload.\<close>

lemma parse_header:
  assumes "parse_frames bo xs = (ms, NeedHeader [])" "length bs = HeaderSize"
    and "h = header_of_bytes bo bs"
  shows "parse_frames bo (xs @ bs) =
    (if h_crc h \<noteq> 0 then (ms, Rejected [])
     else if pi_size (h_pInfo h) = 0 then (ms @ [(pi_type (h_pInfo h), [])], NeedHeader [])
     else (ms, NeedBody h []))"
proof -
  have "take HeaderSize bs = bs" "drop HeaderSize bs = []" using assms(2) by simp_all
  with assms(2,3) have "parse_frames bo bs = (if h_crc h \<noteq> 0 then ([], Rejected [])
     else if pi_size (h_pInfo h) = 0 then ([(pi_type (h_pInfo h), [])], NeedHeader [])
     else ([], NeedBody h []))"
    by (subst parse_frames.simps) (auto simp: Let_def parse_Nil unat_eq_0)
  with assms(1) show ?thesis by (simp add: parse_frames_append)
qed

lemma parse_body:
  assumes "parse_frames bo xs = (ms, NeedBody h [])" "length bs = unat (pi_size (h_pInfo h))"
  shows "parse_frames bo (xs @ bs) = (if pi_crc (h_pInfo h) \<noteq> 0 then (ms, Rejected [])
    else (ms @ [(pi_type (h_pInfo h), bs)], NeedHeader []))"
proof -
  have h: "h_crc h = 0" "unat (pi_size (h_pInfo h)) \<noteq> 0"
    using parse_NeedBody [of bo xs h "[]"] assms(1) by (simp_all add: unat_eq_0)
  have "parse_frames bo (header_bytes bo h @ bs) = (if pi_crc (h_pInfo h) \<noteq> 0 then ([], Rejected [])
    else ([(pi_type (h_pInfo h), bs)], NeedHeader []))"
    using h assms(2) by (subst parse_frames.simps) (simp add: Let_def header.dec_enc parse_Nil)
  with assms(1) show ?thesis by (simp add: parse_frames_append)
qed

section \<open>The read under way\<close>

datatype read_phase =
    AtHeader message               \<comment> \<open>a header is being read\<close>
  | AtBody message                 \<comment> \<open>a payload is being read\<close>
  | GotHeader message error_code   \<comment> \<open>the handler of the header waits in the strand\<close>
  | GotBody message error_code

fun task_phase :: "socket_task \<Rightarrow> read_phase list" where
  "task_phase (OnReadHeader m err) = [GotHeader m err]"
| "task_phase (OnReadBody m err) = [GotBody m err]"
| "task_phase _ = []"

fun op_phase :: "asio_op \<Rightarrow> read_phase list" where
  "op_phase (OpReadHeader m) = [AtHeader m]"
| "op_phase (OpReadBody m) = [AtBody m]"
| "op_phase _ = []"

definition read_phases :: "'x session \<Rightarrow> read_phase multiset" where
  "read_phases s = mset (concat (map task_phase (socketStrand s))) + mset (concat (map op_phase (pendingOps s)))"

lemma size_read_phases: "size (read_phases s) = lf_reads (session_life s)"
proof -
  have "length (concat (map task_phase ts)) = sum_list (map task_reads ts)" for ts
  proof (induction ts)
    case (Cons t ts)
    then show ?case by (cases t) simp_all
  qed simp
  moreover have "length (concat (map op_phase ops)) = sum_list (map op_reads ops)" for ops
  proof (induction ops)
    case (Cons op ops)
    then show ?case by (cases op) simp_all
  qed simp
  ultimately show ?thesis by (simp add: read_phases_def session_life_def)
qed

text \<open>A calm operation leaves the read, the payloads on their way to the handler and the handler
  alone, and does not connect the session.\<close>

definition calm :: "'x session \<Rightarrow> 'x session \<Rightarrow> bool" where
  "calm s t \<longleftrightarrow> read_phases t = read_phases s \<and> readStrand t = readStrand s \<and>
     receiveHandler t = receiveHandler s \<and> (isConnected t \<longrightarrow> isConnected s)"

lemma calm_refl [simp]: "calm s s"
  by (simp add: calm_def)

lemma calm_trans [trans]: "calm s t \<Longrightarrow> calm t u \<Longrightarrow> calm s u"
  by (simp add: calm_def)

lemma calm_frame [simp]:
  "calm s (t\<lparr>lastTimeRead := l\<rparr>) = calm s t" "calm s (t\<lparr>writeQueue := q\<rparr>) = calm s t"
  "calm s (t\<lparr>timerWaits := n\<rparr>) = calm s t" "calm s (t\<lparr>readTimerStrand := ts\<rparr>) = calm s t"
  "calm s (t\<lparr>extCalls := xs\<rparr>) = calm s t" "calm s (post_timer tt t) = calm s t"
  "calm s (issue r t) = calm s t"
  by (simp_all add: calm_def read_phases_def post_timer_def issue_def)

lemma calm_post [simp]:
  "task_phase k = [] \<Longrightarrow> calm s (post_socket k t) = calm s t"
  "op_phase op = [] \<Longrightarrow> calm s (start_op op t) = calm s t"
  by (simp_all add: calm_def read_phases_def post_socket_def start_op_def)

lemma calm_disconnect: "calm s t \<Longrightarrow> calm s (t\<lparr>isConnected := False\<rparr>)"
  by (simp add: calm_def read_phases_def)

lemma calm_quiet [simp]:
  "calm s (cancelAllPendingOperations t) = calm s t" "calm s (cancelReadTimer t) = calm s t"
  "calm s (restartReadTimer t) = calm s t" "calm s (writeNext t) = calm s t"
  "calm s (send_message m t) = calm s t" "calm s (send p t) = calm s t"
  "calm s (ping t) = calm s t" "calm s (pong t) = calm s t"
  "calm s (asyncHandshake ht t) = calm s t" "calm s (asyncWrite m t) = calm s t"
  "calm s (handleReadTimeOut err t) = calm s t"
  by (simp_all add: cancelAllPendingOperations_def cancelReadTimer_def restartReadTimer_def
      writeNext_def send_message_def send_def ping_def pong_def asyncHandshake_def asyncWrite_def
      handleReadTimeOut_def Let_def split: list.split)

lemma calm_close: "calm s (close s)" "calm s (drop_session s)"
  by (simp_all add: drop_session_def close_def Let_def calm_disconnect)

lemma calm_handleWrite: "calm s (handleWrite m err s)"
  using calm_trans [OF _ calm_close(1), of s "s\<lparr>writeQueue := tl (writeQueue s)\<rparr>"] calm_close(1) [of s]
  by (simp add: handleWrite_def Let_def)

lemma calm_run_calls: "calm s (run_calls cs s)"
proof (induction cs arbitrary: s)
  case (Cons c cs)
  have "calm s (run_call c s)" by (cases c) (simp_all add: calm_close)
  from calm_trans [OF this Cons] show ?case by simp
qed simp

lemma calm_run_handler: "calm s (run_handler h s)"
  by (cases h) (simp_all add: run_handler_def calm_run_calls)

lemma calm_close_task: "calm s (close_task s)"
proof -
  have "calm s (issue SocketClose (issue SocketShutdown (s\<lparr>writeQueue := []\<rparr>)))" by simp
  from calm_trans [OF this calm_run_handler] show ?thesis by (simp add: close_task_def Let_def)
qed

lemma calm_timer: "calm s (run_timer_task now rnd t s)"
  by (cases t) (simp_all add: restart_timer_task_def cancel_timer_task_def timeout_task_def
      calm_close Let_def)

lemma calm_socket_task:
  "task_phase t = [] \<Longrightarrow> (\<forall>err. t \<noteq> OnHandshake err) \<Longrightarrow> calm s (run_socket_task t s)"
  by (cases t) (simp_all add: calm_close_task calm_handleWrite)

section \<open>What the handler has seen of the stream\<close>

definition data_payloads :: "(u16 \<times> byte list) list \<Rightarrow> buffer list" where
  "data_payloads ms = map (\<lambda>m. received_buffer (snd m)) (filter (\<lambda>m. fst m = type_code Data) ms)"

lemma data_payloads_append [simp]:
  "data_payloads [] = []" "data_payloads (ms @ ns) = data_payloads ms @ data_payloads ns"
  by (simp_all add: data_payloads_def)

lemma prefix_data_payloads: "prefix ms ns \<Longrightarrow> prefix (data_payloads ms) (data_payloads ns)"
  by (auto simp: prefix_def)

text \<open>The payloads handed to the handler or on their way to it, against the messages read: all of
  them while the session is connected.\<close>

definition caught_up :: "bool \<Rightarrow> buffer list \<Rightarrow> (u16 \<times> byte list) list \<Rightarrow> bool" where
  "caught_up c q ms \<longleftrightarrow> prefix q (data_payloads ms) \<and> (c \<longrightarrow> q = data_payloads ms)"

fun phase_ok :: "byte_order \<Rightarrow> bool \<Rightarrow> buffer list \<Rightarrow> byte list \<Rightarrow> read_phase \<Rightarrow> bool" where
  "phase_ok bo c q rd (AtHeader m) \<longleftrightarrow> m = Message_default \<and>
     (\<exists>ms. parse_frames bo rd = (ms, NeedHeader []) \<and> caught_up c q ms)"
| "phase_ok bo c q rd (AtBody m) \<longleftrightarrow>
     msg_payload m = Buffer_create (unat (pi_size (h_pInfo (msg_header m)))) \<and>
     (\<exists>ms. parse_frames bo rd = (ms, NeedBody (msg_header m) []) \<and> caught_up c q ms)"
| "phase_ok bo c q rd (GotHeader m err) \<longleftrightarrow> (err = None \<longrightarrow>
     (\<exists>xs ms bs. rd = xs @ bs \<and> parse_frames bo xs = (ms, NeedHeader []) \<and> caught_up c q ms \<and>
        length bs = HeaderSize \<and> m = read_into_header bo bs Message_default))"
| "phase_ok bo c q rd (GotBody m err) \<longleftrightarrow> (err = None \<longrightarrow>
     (\<exists>xs ms bs. rd = xs @ bs \<and> parse_frames bo xs = (ms, NeedBody (msg_header m) []) \<and> caught_up c q ms \<and>
        length bs = unat (pi_size (h_pInfo (msg_header m))) \<and> msg_payload m = received_buffer bs))"

lemma phase_ok_mono: "phase_ok bo c q rd ph \<Longrightarrow> (c' \<longrightarrow> c) \<Longrightarrow> phase_ok bo c' q rd ph"
  by (cases ph) (fastforce simp: caught_up_def)+

definition offered :: "'x session \<Rightarrow> buffer list \<Rightarrow> buffer list" where
  "offered s got = got @ map snd (readStrand s)"

definition reader_ok :: "byte_order \<Rightarrow> 'x session \<Rightarrow> byte list \<Rightarrow> buffer list \<Rightarrow> bool" where
  "reader_ok bo s rd got \<longleftrightarrow> receiveHandler s \<noteq> None \<and>
     prefix (offered s got) (data_payloads (fst (parse_frames bo rd))) \<and>
     lf_opens (session_life s) \<le> 1 \<and> size (read_phases s) + lf_shakes (session_life s) \<le> lf_opens (session_life s) \<and>
     (read_phases s = {#} \<longrightarrow> rd = [] \<or> lf_shakes (session_life s) < lf_opens (session_life s)) \<and>
     (\<forall>ph. read_phases s = {#ph#} \<longrightarrow> phase_ok bo (isConnected s) (offered s got) rd ph)"

lemma reader_ok_calm:
  assumes "reader_ok bo s rd got" "calm s t" "lf_opens (session_life t) = lf_opens (session_life s)"
    and "lf_shakes (session_life t) = lf_shakes (session_life s)"
  shows "reader_ok bo t rd got"
  using assms phase_ok_mono [of bo "isConnected s" _ rd _ "isConnected t"]
  unfolding reader_ok_def calm_def offered_def by simp

text \<open>Once its read has ended without another one being started, a session reads no more.\<close>

lemma reader_ok_ended:
  assumes "receiveHandler s \<noteq> None" "prefix (offered s got) (data_payloads (fst (parse_frames bo rd)))"
    and "lf_opens (session_life s) = 1" "lf_shakes (session_life s) = 0" "read_phases s = {#}"
  shows "reader_ok bo s rd got"
  using assms by (simp add: reader_ok_def)

lemma reader_ok_reads:
  assumes "receiveHandler s \<noteq> None" "lf_opens (session_life s) = 1" "lf_shakes (session_life s) = 0"
    and "read_phases s = {#ph#}" "phase_ok bo (isConnected s) (offered s got) rd ph"
    and "prefix (offered s got) (data_payloads (fst (parse_frames bo rd)))"
  shows "reader_ok bo s rd got"
  using assms by (simp add: reader_ok_def)

section \<open>Handling what was read\<close>

lemma phases_next [simp]:
  "read_phases (readNext s) = add_mset (AtHeader Message_default) (read_phases s)"
  "read_phases (asyncReadBody m s) = add_mset (AtBody m) (read_phases s)"
  "isConnected (readNext s) = isConnected s" "isConnected (asyncReadBody m s) = isConnected s"
  "receiveHandler (readNext s) = receiveHandler s" "receiveHandler (asyncReadBody m s) = receiveHandler s"
  by (simp_all add: read_phases_def readNext_def asyncReadHeader_def asyncReadBody_def
      restartReadTimer_def post_timer_def start_op_def issue_def)

lemma calm_eq:
  "calm s t \<Longrightarrow> read_phases t = read_phases s" "calm s t \<Longrightarrow> readStrand t = readStrand s"
  "calm s t \<Longrightarrow> receiveHandler t = receiveHandler s"
  by (simp_all add: calm_def)

lemma received_effect:
  assumes "receiveHandler s = Some h"
  shows "read_phases (onMessageReceived m s) = read_phases s"
    and "receiveHandler (onMessageReceived m s) = Some h"
    and "isConnected (onMessageReceived m s) = isConnected s"
    and "readStrand (onMessageReceived m s) = readStrand s @
      (if Message_type m = type_code Data \<and> isConnected s then [(h, msg_payload m)] else [])"
proof -
  have c: "calm s (send_message (Message_of_type Pong) s)" by simp
  have i: "isConnected (send_message (Message_of_type Pong) s) = isConnected s"
    by (auto simp: send_message_def writeNext_def post_socket_def Let_def split: list.split)
  show "read_phases (onMessageReceived m s) = read_phases s"
    using calm_eq(1) [OF c] assms by (auto simp: onMessageReceived_cases read_phases_def)
  show "receiveHandler (onMessageReceived m s) = Some h"
    using calm_eq(3) [OF c] assms by (simp add: onMessageReceived_cases)
  show "isConnected (onMessageReceived m s) = isConnected s"
    using i assms by (simp add: onMessageReceived_cases)
  show "readStrand (onMessageReceived m s) = readStrand s @
      (if Message_type m = type_code Data \<and> isConnected s then [(h, msg_payload m)] else [])"
    using calm_eq(2) [OF c] assms by (auto simp: onMessageReceived_cases)
qed

text \<open>A message that has been read completely and is handed on.\<close>

lemma reader_ok_received:
  assumes "receiveHandler s \<noteq> None" "lf_opens (session_life s) = 1" "lf_shakes (session_life s) = 0"
    and "read_phases s = {#}" "msg_payload m = received_buffer bs" "caught_up (isConnected s) (offered s got) ms"
    and "parse_frames bo rd = (ms @ [(Message_type m, bs)], NeedHeader [])"
  shows "reader_ok bo (readNext (onMessageReceived m s)) rd got"
proof -
  obtain h where h: "receiveHandler s = Some h" using assms(1) by blast
  note e = received_effect [OF h, of m]
  let ?t = "readNext (onMessageReceived m s)"
  have q: "offered ?t got = offered s got @
      (if Message_type m = type_code Data \<and> isConnected s then [received_buffer bs] else [])"
    using assms(5) e(4) by (simp add: offered_def)
  have c: "caught_up (isConnected s) (offered ?t got) (ms @ [(Message_type m, bs)])"
    using assms(6) unfolding q by (auto simp: caught_up_def data_payloads_def)
  show ?thesis
    by (rule reader_ok_reads [where ph = "AtHeader Message_default"])
      (use e assms c in \<open>auto simp: caught_up_def\<close>)
qed

lemma reader_ok_header:
  assumes "receiveHandler s \<noteq> None" "lf_opens (session_life s) = 1" "lf_shakes (session_life s) = 0"
    and "read_phases s = {#}" "phase_ok bo (isConnected s) (offered s got) rd (GotHeader m err)"
    and "prefix (offered s got) (data_payloads (fst (parse_frames bo rd)))"
  shows "reader_ok bo (handleReadHeader m err s) rd got"
proof -
  have ended: "reader_ok bo s rd got" by (rule reader_ok_ended) (use assms in simp_all)
  have stops: "reader_ok bo (close (cancelReadTimer s)) rd got" "reader_ok bo (cancelReadTimer s) rd got"
    by (rule reader_ok_calm [OF ended]; simp add: calm_trans [OF _ calm_close(1)])+
  show ?thesis
  proof (cases "err = None \<and> h_crc (msg_header m) = 0")
    case False
    then show ?thesis using stops by (auto simp: handleReadHeader_def verifyHeader_def Let_def)
  next
    case True
    then obtain xs ms bs where x: "rd = xs @ bs" "parse_frames bo xs = (ms, NeedHeader [])"
      "caught_up (isConnected s) (offered s got) ms" "length bs = HeaderSize"
      "m = read_into_header bo bs Message_default" using assms(5) by auto
    have m: "msg_header m = header_of_bytes bo bs" "msg_payload m = received_buffer []"
      using x(4,5) by (simp_all add: read_into_header_def receive_header_full Message_default_def
          received_buffer_def buffer_defs)
    note P = parse_header [OF x(2,4) m(1), folded x(1)]
    let ?s = "cancelReadTimer s"
    have s: "calm s ?s" "isConnected ?s = isConnected s" "session_life ?s = session_life s"
      by (simp_all, simp add: cancelReadTimer_def post_timer_def)
    then have o: "offered ?s got = offered s got" by (simp add: calm_def offered_def)
    show ?thesis
    proof (cases "pi_size (h_pInfo (msg_header m)) = 0")
      case empty: True
      have "reader_ok bo (readNext (onMessageReceived m ?s)) rd got"
        by (rule reader_ok_received [where bs = "[]" and ms = ms])
          (use s o P m x(3) assms(1-4) True empty in \<open>simp_all add: calm_eq [OF s(1)] Message_type_def\<close>)
      with True empty show ?thesis by (simp add: handleReadHeader_def verifyHeader_def isEmpty_def Let_def)
    next
      case False
      have fit: "msg_header (fitToSize m) = msg_header m"
        "msg_payload (fitToSize m) = Buffer_create (unat (pi_size (h_pInfo (msg_header m))))"
        using m(2) by (simp_all add: fitToSize_def received_buffer_def buffer_defs vector_resize_def Let_def)
      have "reader_ok bo (asyncReadBody (fitToSize m) ?s) rd got"
        by (rule reader_ok_reads [where ph = "AtBody (fitToSize m)"])
          (use s o P fit x(3) assms(1-4,6) True False in
            \<open>simp_all add: calm_eq [OF s(1)] offered_def [of "asyncReadBody _ _"] offered_def [symmetric]\<close>)
      with True False show ?thesis by (simp add: handleReadHeader_def verifyHeader_def isEmpty_def Let_def)
    qed
  qed
qed

lemma reader_ok_body:
  assumes "receiveHandler s \<noteq> None" "lf_opens (session_life s) = 1" "lf_shakes (session_life s) = 0"
    and "read_phases s = {#}" "phase_ok bo (isConnected s) (offered s got) rd (GotBody m err)"
    and "prefix (offered s got) (data_payloads (fst (parse_frames bo rd)))"
  shows "reader_ok bo (handleReadBody m err s) rd got"
proof -
  have ended: "reader_ok bo s rd got" by (rule reader_ok_ended) (use assms in simp_all)
  have stops: "reader_ok bo (close (cancelReadTimer s)) rd got" "reader_ok bo (cancelReadTimer s) rd got"
    by (rule reader_ok_calm [OF ended]; simp add: calm_trans [OF _ calm_close(1)])+
  show ?thesis
  proof (cases "err = None \<and> pi_crc (h_pInfo (msg_header m)) = 0")
    case False
    then show ?thesis using stops by (auto simp: handleReadBody_def verifyBody_def Let_def)
  next
    case True
    then obtain xs ms bs where x: "rd = xs @ bs" "parse_frames bo xs = (ms, NeedBody (msg_header m) [])"
      "caught_up (isConnected s) (offered s got) ms" "length bs = unat (pi_size (h_pInfo (msg_header m)))"
      "msg_payload m = received_buffer bs" using assms(5) by auto
    note P = parse_body [OF x(2,4), folded x(1)]
    let ?s = "cancelReadTimer s"
    have s: "calm s ?s" "isConnected ?s = isConnected s" "session_life ?s = session_life s"
      by (simp_all, simp add: cancelReadTimer_def post_timer_def)
    then have o: "offered ?s got = offered s got" by (simp add: calm_def offered_def)
    have "reader_ok bo (readNext (onMessageReceived m ?s)) rd got"
      by (rule reader_ok_received [where bs = bs and ms = ms])
        (use s o P x(3,5) assms(1-4) True in \<open>simp_all add: calm_eq [OF s(1)] Message_type_def\<close>)
    with True show ?thesis by (simp add: handleReadBody_def verifyBody_def Let_def)
  qed
qed

section \<open>Every task and every event\<close>

lemma phases_pop: "socketStrand s = t # ts \<Longrightarrow>
    read_phases s = mset (task_phase t) + read_phases (s\<lparr>socketStrand := ts\<rparr>)"
  by (simp add: read_phases_def)

lemma offered_pop [simp]: "offered (s\<lparr>socketStrand := ts\<rparr>) got = offered s got"
  by (simp add: offered_def)

lemma reader_ok_handshake:
  assumes "receiveHandler s \<noteq> None" "lf_opens (session_life s) = 1" "lf_shakes (session_life s) = 0"
    and "read_phases s = {#}" "offered s got = []"
  shows "reader_ok bo (handleHandshake err s) [] got"
proof -
  let ?s = "s\<lparr>isConnected := True\<rparr>"
  have s: "read_phases ?s = {#}" "offered ?s got = []" "receiveHandler ?s \<noteq> None"
    "lf_opens (session_life ?s) = 1" "lf_shakes (session_life ?s) = 0"
    using assms by (simp_all add: read_phases_def offered_def life_connect)
  have ended: "reader_ok bo ?s [] got" by (rule reader_ok_ended) (use s in simp_all)
  show ?thesis
  proof (cases "err = None")
    case False
    have "reader_ok bo (close ?s) [] got" by (rule reader_ok_calm [OF ended calm_close(1)]) simp_all
    with ended False show ?thesis by (cases err) (simp_all add: handleHandshake_def Let_def)
  next
    case True
    let ?t = "readNext (post_timer RunTouch ?s)"
    have c: "calm ?s (post_timer RunTouch ?s)" by simp
    have "reader_ok bo ?t [] got"
      by (rule reader_ok_reads [where ph = "AtHeader Message_default"])
        (use s c in \<open>simp_all add: calm_eq [OF c] offered_def parse_Nil caught_up_def\<close>)
    from reader_ok_calm [OF this calm_run_handler, of "openHandler ?t"] True show ?thesis
      by (simp add: handleHandshake_def Let_def)
  qed
qed

text \<open>A task that handles a read or the handshake is the only activity of the reader.\<close>

lemma reader_alone:
  assumes "reader_ok bo s rd got" "socketStrand s = t # ts" "length (task_phase t) + task_shakes t = 1"
  defines "u \<equiv> s\<lparr>socketStrand := ts\<rparr>"
  shows "lf_opens (session_life u) = 1" "lf_shakes (session_life u) = 0" "read_phases u = {#}"
proof -
  have "lf_opens (session_life s) = lf_opens (session_life u)"
    "lf_shakes (session_life s) = task_shakes t + lf_shakes (session_life u)"
    "size (read_phases s) = length (task_phase t) + size (read_phases u)"
    unfolding u_def using life_pop [OF assms(2)] phases_pop [OF assms(2)] by simp_all
  moreover have "size (read_phases s) + lf_shakes (session_life s) \<le> lf_opens (session_life s)"
    "lf_opens (session_life s) \<le> 1" using assms(1) by (simp_all add: reader_ok_def)
  ultimately have "lf_opens (session_life u) = 1 \<and> lf_shakes (session_life u) = 0 \<and> size (read_phases u) = 0"
    using assms(3) by linarith
  then show "lf_opens (session_life u) = 1" "lf_shakes (session_life u) = 0" "read_phases u = {#}" by simp_all
qed

lemma reader_ok_quiet:
  assumes "reader_ok bo s rd got" "socketStrand s = t # ts"
    and "task_phase t = []" "\<forall>err. t \<noteq> OnHandshake err"
  shows "reader_ok bo (run_socket_task t (s\<lparr>socketStrand := ts\<rparr>)) rd got"
proof (rule reader_ok_calm [OF assms(1)])
  let ?u = "s\<lparr>socketStrand := ts\<rparr>"
  note life = life_pop [OF assms(2)]
  have "calm s ?u" using phases_pop [OF assms(2)] assms(3) by (simp add: calm_def)
  then show "calm s (run_socket_task t ?u)" by (rule calm_trans) (rule calm_socket_task [OF assms(3,4)])
  show "lf_opens (session_life (run_socket_task t ?u)) = lf_opens (session_life s)"
    using life_task_opens [of t ?u] life by simp
  show "lf_shakes (session_life (run_socket_task t ?u)) = lf_shakes (session_life s)"
    using life_task_shakes [of t ?u] life assms(3,4) by (cases t) simp_all
qed

lemma reader_ok_task:
  assumes "reader_ok bo s rd got" "socketStrand s = t # ts"
  shows "reader_ok bo (run_socket_task t (s\<lparr>socketStrand := ts\<rparr>)) rd got"
proof -
  let ?u = "s\<lparr>socketStrand := ts\<rparr>"
  note ph = phases_pop [OF assms(2)] and alone = reader_alone [OF assms]
  have u: "receiveHandler ?u \<noteq> None" using assms(1) by (simp add: reader_ok_def)
  have pre: "prefix (offered ?u got) (data_payloads (fst (parse_frames bo rd)))"
    using assms(1) by (simp add: reader_ok_def)
  show ?thesis
  proof (cases t)
    case (OnHandshake err)
    then have n: "lf_opens (session_life ?u) = 1" "lf_shakes (session_life ?u) = 0" "read_phases ?u = {#}"
      using alone by simp_all
    with OnHandshake assms(1) ph life_pop [OF assms(2)] have rd: "rd = []" by (simp add: reader_ok_def)
    then have "offered ?u got = []" using assms(1) by (simp add: reader_ok_def parse_Nil)
    from reader_ok_handshake [OF u n this, of bo err] OnHandshake rd show ?thesis by simp
  next
    case (OnReadHeader m err)
    then have n: "lf_opens (session_life ?u) = 1" "lf_shakes (session_life ?u) = 0" "read_phases ?u = {#}"
      using alone by simp_all
    have "read_phases s = {#GotHeader m err#}" using ph n(3) OnReadHeader by simp
    with assms(1) have "phase_ok bo (isConnected ?u) (offered ?u got) rd (GotHeader m err)"
      by (simp add: reader_ok_def del: phase_ok.simps)
    from reader_ok_header [OF u n this pre] OnReadHeader show ?thesis by simp
  next
    case (OnReadBody m err)
    then have n: "lf_opens (session_life ?u) = 1" "lf_shakes (session_life ?u) = 0" "read_phases ?u = {#}"
      using alone by simp_all
    have "read_phases s = {#GotBody m err#}" using ph n(3) OnReadBody by simp
    with assms(1) have "phase_ok bo (isConnected ?u) (offered ?u got) rd (GotBody m err)"
      by (simp add: reader_ok_def del: phase_ok.simps)
    from reader_ok_body [OF u n this pre] OnReadBody show ?thesis by simp
  qed (use reader_ok_quiet [OF assms] in simp_all)
qed

text \<open>The completion of a read: its bytes leave the stream.\<close>

fun read_size :: "asio_op \<Rightarrow> nat option" where
  "read_size (OpReadHeader m) = Some HeaderSize"
| "read_size (OpReadBody m) = Some (Buffer_size (msg_payload m))"
| "read_size _ = None"

lemma op_phase_read_size: "op_phase op = [] \<longleftrightarrow> read_size op = None"
  by (cases op) simp_all

lemma phases_complete:
  assumes "i < length (pendingOps s)"
  shows "read_phases s = mset (op_phase (pendingOps s ! i)) +
      read_phases (s\<lparr>pendingOps := remove_at i (pendingOps s)\<rparr>)"
  using mset_concat_remove_at [OF assms, of op_phase] by (simp add: read_phases_def)

lemma phases_post: "read_phases (post_socket t s) = mset (task_phase t) + read_phases s"
  by (simp add: read_phases_def post_socket_def)

lemma phase_ok_complete:
  assumes "op_phase op = [ph]" "phase_ok bo c q rd ph" "err = None \<Longrightarrow> read_size op = Some (length bs)"
  shows "\<exists>ph'. task_phase (completion bo op err bs) = [ph'] \<and> phase_ok bo c q (rd @ bs) ph'"
proof (cases op)
  case (OpReadHeader m)
  with assms(1,2) obtain ms where m: "m = Message_default" "parse_frames bo rd = (ms, NeedHeader [])"
    "caught_up c q ms" by auto
  with assms(3) OpReadHeader have "phase_ok bo c q (rd @ bs) (GotHeader (read_into_header bo bs m) err)"
    unfolding phase_ok.simps by (intro impI exI [of _ rd] exI [of _ ms] exI [of _ bs]) auto
  with OpReadHeader show ?thesis by simp
next
  case (OpReadBody m)
  with assms(1,2) have "phase_ok bo c q rd (AtBody m)" by simp
  then obtain ms where m: "msg_payload m = Buffer_create (unat (pi_size (h_pInfo (msg_header m))))"
    "parse_frames bo rd = (ms, NeedBody (msg_header m) [])" "caught_up c q ms" by auto
  have "msg_payload (read_into_body bs m) = received_buffer bs"
    if "length bs = unat (pi_size (h_pInfo (msg_header m)))"
    using that m(1) by (simp add: read_into_body_def received_buffer_def buffer_defs overlay_full)
  moreover have "msg_header (read_into_body bs m) = msg_header m" by (simp add: read_into_body_def)
  ultimately have "phase_ok bo c q (rd @ bs) (GotBody (read_into_body bs m) err)"
    using assms(3) OpReadBody m unfolding phase_ok.simps
    by (intro impI exI [of _ rd] exI [of _ ms] exI [of _ bs]) auto
  with OpReadBody show ?thesis by simp
qed (use assms(1) in simp_all)

lemma prefix_parse_data:
  "prefix q (data_payloads (fst (parse_frames bo rd))) \<Longrightarrow> prefix q (data_payloads (fst (parse_frames bo (rd @ bs))))"
  using prefix_data_payloads [OF prefix_parse_frames] prefix_order.order_trans by blast

lemma reader_ok_complete:
  assumes "reader_ok bo s rd got" "i < length (pendingOps s)"
    and "err = None \<Longrightarrow> read_size (pendingOps s ! i) \<in> {None, Some (length bs)}"
  shows "reader_ok bo (post_socket (completion bo (pendingOps s ! i) err bs)
      (s\<lparr>pendingOps := remove_at i (pendingOps s)\<rparr>))
    (if read_size (pendingOps s ! i) = None then rd else rd @ bs) got"
proof -
  let ?op = "pendingOps s ! i"
  let ?u = "s\<lparr>pendingOps := remove_at i (pendingOps s)\<rparr>" and ?k = "completion bo ?op err bs"
  note ph = phases_complete [OF assms(2)] and life = life_complete [OF assms(2), of bo err bs]
  show ?thesis
  proof (cases "read_size ?op")
    case None
    then have "calm s (post_socket ?k ?u)"
      using ph by (cases ?op) (simp_all add: calm_def phases_post, simp_all add: post_socket_def)
    from reader_ok_calm [OF assms(1) this] life None show ?thesis by simp
  next
    case (Some n)
    then obtain p where p: "op_phase ?op = [p]" by (cases ?op) auto
    have "size (read_phases s) \<le> 1" using assms(1) unfolding reader_ok_def by linarith
    with p ph have one: "read_phases s = {#p#}" "read_phases ?u = {#}" by simp_all
    then have ok: "phase_ok bo (isConnected s) (offered s got) rd p" using assms(1) by (simp add: reader_ok_def)
    have "err = None \<Longrightarrow> read_size ?op = Some (length bs)" using assms(3) Some by auto
    from phase_ok_complete [OF p ok this] obtain p' where p': "task_phase ?k = [p']"
      "phase_ok bo (isConnected s) (offered s got) (rd @ bs) p'" by blast
    have o: "offered (post_socket ?k ?u) got = offered s got" "isConnected (post_socket ?k ?u) = isConnected s"
      by (simp_all add: offered_def post_socket_def)
    have n: "lf_opens (session_life s) = 1" "lf_shakes (session_life s) = 0"
      using assms(1) one(1) by (auto simp: reader_ok_def)
    have "reader_ok bo (post_socket ?k ?u) (rd @ bs) got"
      by (rule reader_ok_reads [where ph = p'])
        (use assms(1) p' o n life one in
          \<open>simp_all add: reader_ok_def phases_post prefix_parse_data, simp add: post_socket_def\<close>)
    with Some show ?thesis by simp
  qed
qed

end
