(* ===== verification/Endpoints.thy ===== *)
theory Endpoints
  imports SessionReading
begin

text \<open>
  An endpoint of a connection: a \<open>Session\<close> configured with a receive handler, with the bytes its
  reads have taken from the stream and the payloads its handler has been called with.  Its events
  are all those of the session, in any order, within what the program and asio do: a session is
  opened at most once and not reconfigured (\<open>Client::request\<close> and \<open>Server::accept\<close> configure a new
  session before they open it), and a read that completes without an error has filled its buffer
  (the contract of \<open>boost::asio::async_read\<close>).
\<close>

section \<open>State and events\<close>

record 'x endpoint =
  ep_session :: "'x session"
  ep_read :: "byte list"
  ep_got :: "buffer list"

definition endpoint_create :: "'x call list option \<Rightarrow> 'x call list option \<Rightarrow> 'x receive_handler \<Rightarrow> 'x endpoint" where
  "endpoint_create oh ch h =
     \<lparr>ep_session = configure oh ch (Some h) Session_create, ep_read = [], ep_got = []\<rparr>"

fun admissible :: "'x session \<Rightarrow> 'x event \<Rightarrow> bool" where
  "admissible s (Configure oh ch rh) \<longleftrightarrow> False"
| "admissible s (Open ht opt) \<longleftrightarrow> open_count s = 0"
| "admissible s (Complete i None bs) \<longleftrightarrow> i < length (pendingOps s) \<and>
     (case read_size (pendingOps s ! i) of None \<Rightarrow> True | Some n \<Rightarrow> length bs = n)"
| "admissible s _ \<longleftrightarrow> True"

fun taken :: "'x session \<Rightarrow> 'x event \<Rightarrow> byte list" where
  "taken s (Complete i err bs) = (if i < length (pendingOps s) \<and> read_size (pendingOps s ! i) \<noteq> None
     then bs else [])"
| "taken s _ = []"

fun handed :: "'x session \<Rightarrow> 'x event \<Rightarrow> buffer list" where
  "handed s ReadStrand = (case readStrand s of [] \<Rightarrow> [] | (h, p) # _ \<Rightarrow> [p])"
| "handed s _ = []"

definition endpoint_exec :: "byte_order \<Rightarrow> 'x endpoint \<Rightarrow> 'x event \<Rightarrow> 'x endpoint option" where
  "endpoint_exec bo p e = (if admissible (ep_session p) e
     then map_option (\<lambda>s. \<lparr>ep_session = s, ep_read = ep_read p @ taken (ep_session p) e,
       ep_got = ep_got p @ handed (ep_session p) e\<rparr>) (session_exec bo (ep_session p) e)
     else None)"

definition endpoint_init :: "'x endpoint \<Rightarrow> bool" where
  "endpoint_init p \<longleftrightarrow> (\<exists>oh ch h. p = endpoint_create oh ch h)"

definition endpoint_next :: "byte_order \<Rightarrow> 'x endpoint \<Rightarrow> 'x endpoint \<Rightarrow> bool" where
  "endpoint_next bo p q \<longleftrightarrow> (\<exists>e. endpoint_exec bo p e = Some q)"

lemma endpoint_execD:
  assumes "endpoint_exec bo p e = Some q"
  shows "admissible (ep_session p) e" "session_step bo (ep_session p) e (ep_session q)"
    "ep_read q = ep_read p @ taken (ep_session p) e" "ep_got q = ep_got p @ handed (ep_session p) e"
  using assms by (auto simp: endpoint_exec_def session_exec_step split: if_splits)

section \<open>The invariant\<close>

definition endpoint_ok :: "byte_order \<Rightarrow> 'x endpoint \<Rightarrow> bool" where
  "endpoint_ok bo p \<longleftrightarrow> reader_ok bo (ep_session p) (ep_read p) (ep_got p)"

lemma endpoint_ok_create: "endpoint_ok bo (endpoint_create oh ch h)"
  by (simp add: endpoint_ok_def endpoint_create_def reader_ok_def offered_def configure_def
      Session_create_def parse_Nil read_phases_def session_life_def)

lemma reader_ok_open:
  assumes "reader_ok bo s rd got" "open_count s = 0" "open_session ht opt s = Inr t"
  shows "reader_ok bo t rd got"
proof -
  have opens: "lf_opens (session_life s) = 0" using assms(2) by (simp add: open_count_def session_life_def)
  with assms(1) have none: "read_phases s = {#}" "rd = []" "lf_shakes (session_life s) = 0"
    by (auto simp: reader_ok_def)
  have "t = s \<or> read_phases t = {#} \<and> offered t got = offered s got \<and> receiveHandler t = receiveHandler s"
    using assms(3) none(1)
    by (auto simp: open_session_def configureSocket_def read_phases_def offered_def post_socket_def
        issue_def split: if_splits option.splits)
  with life_open [OF assms(3)] assms(1) none opens show ?thesis by (auto simp: reader_ok_def)
qed

lemma reader_ok_step:
  assumes "reader_ok bo s rd got" "session_step bo s e t" "admissible s e"
  shows "reader_ok bo t (rd @ taken s e) (got @ handed s e)"
  using assms(2)
proof cases
  case (open_ok ht opt)
  then show ?thesis using assms(1,3) reader_ok_open by simp
next
  case (socket_strand k ts)
  then show ?thesis using reader_ok_task [OF assms(1)] by simp
next
  case (read_strand h p ts)
  let ?s = "s\<lparr>readStrand := ts\<rparr>"
  have "reader_ok bo ?s rd (got @ [p])"
    using assms(1) read_strand by (simp add: reader_ok_def offered_def read_phases_def)
  from reader_ok_calm [OF this calm_run_calls] read_strand show ?thesis by simp
next
  case (timer_strand k ts now rnd)
  have c: "calm s (s\<lparr>readTimerStrand := ts\<rparr>)" by simp
  from reader_ok_calm [OF assms(1) calm_trans [OF c calm_timer]] timer_strand show ?thesis by simp
next
  case (complete i err bs)
  then have "err = None \<Longrightarrow> read_size (pendingOps s ! i) \<in> {None, Some (length bs)}"
    using assms(3) by (cases "read_size (pendingOps s ! i)") simp_all
  from reader_ok_complete [OF assms(1) complete(3) this] complete show ?thesis by auto
qed (use assms(1,3) in \<open>auto intro!: reader_ok_calm [OF assms(1)] simp: calm_close\<close>)

interpretation endpoint: inductive_invariant endpoint_init "endpoint_next bo" "endpoint_ok bo" for bo
proof unfold_locales
  show "endpoint_ok bo p" if "endpoint_init p" for p :: "'x endpoint"
    using that by (auto simp: endpoint_init_def endpoint_ok_create)
  show "endpoint_ok bo q" if "endpoint_ok bo p" "endpoint_next bo p q" for p q :: "'x endpoint"
  proof -
    from that(2) obtain e where "endpoint_exec bo p e = Some q" by (auto simp: endpoint_next_def)
    note D = endpoint_execD [OF this]
    from reader_ok_step [OF that(1) [unfolded endpoint_ok_def] D(2,1)] D(3,4) show ?thesis
      by (simp add: endpoint_ok_def)
  qed
qed

section \<open>Properties\<close>

text \<open>C3. \<open>Session\<close> refines \<open>parse_frames\<close> in every interleaving: whatever threads, handlers,
  timers and failing operations do, the payloads that the receive handler has been called with,
  followed by those on their way to it, are a prefix of the data payloads of the messages in the
  bytes the session has read; and as long as it is connected and waits for a header, they are all of
  them, and every message of these bytes has been handled.\<close>

theorem session_reads_refine_parse:
  assumes "reach endpoint_init (endpoint_next bo) p"
  shows "prefix (offered (ep_session p) (ep_got p)) (data_payloads (fst (parse_frames bo (ep_read p)))) \<and>
    (isConnected (ep_session p) \<and> OpReadHeader m \<in> set (pendingOps (ep_session p)) \<longrightarrow>
       offered (ep_session p) (ep_got p) = data_payloads (fst (parse_frames bo (ep_read p))) \<and>
       snd (parse_frames bo (ep_read p)) = NeedHeader [])"
proof -
  let ?s = "ep_session p"
  have ok: "reader_ok bo ?s (ep_read p) (ep_got p)"
    using endpoint.reachable_inv [OF assms] by (simp add: endpoint_ok_def)
  have "phase_ok bo (isConnected ?s) (offered ?s (ep_got p)) (ep_read p) (AtHeader m)"
    if "OpReadHeader m \<in> set (pendingOps ?s)"
  proof -
    have mem: "AtHeader m \<in># read_phases ?s" using that by (force simp: read_phases_def)
    have "size (read_phases ?s) \<le> 1" using ok unfolding reader_ok_def by linarith
    with mem have "read_phases ?s = {#AtHeader m#}"
      by (metis One_nat_def le_Suc_eq le_zero_eq multi_member_split size_0 size_add_mset
          size_eq_0_iff_empty nat.inject not_less_eq_eq)
    with ok show ?thesis by (simp add: reader_ok_def)
  qed
  with ok show ?thesis by (auto simp: reader_ok_def caught_up_def)
qed

text \<open>A server's endpoint to which an empty data message has been sent.\<close>

lemma endpoint_reachable_run:
  assumes "run (endpoint_exec bo) (endpoint_create oh ch h) es = Some p"
  shows "reach endpoint_init (endpoint_next bo) p"
  using assms
proof (rule run_invariant)
  show "reach endpoint_init (endpoint_next bo) (endpoint_create oh ch h)"
    by (rule reach.reach_init) (auto simp: endpoint_init_def)
qed (auto simp: endpoint_next_def intro: reach.reach_step)

lemmas endpoint_eval [run_simps] = endpoint_exec_def endpoint_create_def

definition greeted_events :: "'x event list" where
  "greeted_events = handshake_events ServerSide @
     [Complete 0 None (header_bytes LittleEndian (Header_create Data)), SocketStrand]"

lemma greeted_run:
  "\<exists>p :: nat endpoint. run (endpoint_exec LittleEndian) (endpoint_create None None (\<lambda>_. [])) greeted_events = Some p \<and>
     isConnected (ep_session p) \<and> OpReadHeader Message_default \<in> set (pendingOps (ep_session p)) \<and>
     ep_read p = header_bytes LittleEndian (Header_create Data) \<and>
     offered (ep_session p) (ep_got p) = [Buffer_default]"
  by (simp add: greeted_events_def run_simps read_into_header_def receive_header_bytes header.enc_width
      verifyHeader_def isEmpty_def offered_def)

theorem session_reads_refine_parse_witness:
  "\<exists>p :: nat endpoint. reach endpoint_init (endpoint_next LittleEndian) p \<and>
     [Buffer_default] = data_payloads (fst (parse_frames LittleEndian (ep_read p))) \<and>
     ep_read p = header_bytes LittleEndian (Header_create Data)"
proof -
  obtain p :: "nat endpoint" where p: "run (endpoint_exec LittleEndian) (endpoint_create None None (\<lambda>_. []))
      greeted_events = Some p" "isConnected (ep_session p)"
    "OpReadHeader Message_default \<in> set (pendingOps (ep_session p))"
    "ep_read p = header_bytes LittleEndian (Header_create Data)"
    "offered (ep_session p) (ep_got p) = [Buffer_default]"
    using greeted_run by blast
  note r = endpoint_reachable_run [OF p(1)]
  from session_reads_refine_parse [OF r, of Message_default] p r show ?thesis by metis
qed

end
