(* ===== verification/Connections.thy ===== *)
theory Connections
  imports Endpoints
begin

text \<open>
  Two sessions at the two ends of one connection.  Between them is what the code relies on of the
  TLS stream and of \<open>boost::asio::async_write\<close>: the bytes of an issued write go into the stream one
  after the other, in portions of any size; the write completes without an error only when all of
  them have gone, and with an error at any time, the rest being lost; the bytes arrive in the order in
  which they went in.  Both sessions run all their events in any order.  The link remembers its past:
  whether a write has failed before any byte of it was sent, so that a whole frame is missing, or with a
  part of its frame sent; whether it has a gap, because another write was issued after either; and
  whether it is torn, because another write was issued behind a part of a frame or over another write.
\<close>

section \<open>State\<close>

record link =
  lk_unsent :: "byte list"     \<comment> \<open>of the writes issued, not yet in the stream\<close>
  lk_transit :: "byte list"    \<comment> \<open>in the stream, not yet read\<close>
  lk_begun :: bool             \<comment> \<open>the first bytes of the write under way are in the stream\<close>
  lk_lost :: bool              \<comment> \<open>a write failed with nothing of its frame sent\<close>
  lk_cut :: bool               \<comment> \<open>a write failed with a part of its frame sent\<close>
  lk_gap :: bool               \<comment> \<open>a write was issued after one that failed\<close>
  lk_torn :: bool              \<comment> \<open>a write was issued behind a part of a frame\<close>

definition link_create :: link where
  "link_create = \<lparr>lk_unsent = [], lk_transit = [], lk_begun = False, lk_lost = False, lk_cut = False,
     lk_gap = False, lk_torn = False\<rparr>"

record ('x, 'y) connection =
  cn_left :: "'x endpoint"
  cn_right :: "'y endpoint"
  cn_out :: link               \<comment> \<open>from left to right\<close>
  cn_back :: link              \<comment> \<open>from right to left\<close>

section \<open>Events\<close>

definition writes :: "'x session \<Rightarrow> message list" where
  "writes s = concat (map request_write (issued s))"

definition writing :: "'x session \<Rightarrow> bool" where
  "writing s \<longleftrightarrow> list_ex (\<lambda>op. op_write op \<noteq> []) (pendingOps s)"

fun write_result :: "'x session \<Rightarrow> 'x event \<Rightarrow> error_code option" where
  "write_result s (Complete i err bs) = (if i < length (pendingOps s) \<and> op_write (pendingOps s ! i) \<noteq> []
     then Some err else None)"
| "write_result s _ = None"

definition fail_write :: "link \<Rightarrow> link" where
  "fail_write lk = (if lk_unsent lk = [] then lk
     else if lk_begun lk then lk\<lparr>lk_unsent := [], lk_cut := True\<rparr>
     else lk\<lparr>lk_unsent := [], lk_lost := True\<rparr>)"

definition start_write :: "byte_order \<Rightarrow> bool \<Rightarrow> message list \<Rightarrow> link \<Rightarrow> link" where
  "start_write bo overlap ms lk = lk\<lparr>lk_unsent := lk_unsent lk @ concat (map (frame_bytes bo) ms),
     lk_begun := False, lk_gap := lk_gap lk \<or> lk_lost lk \<or> lk_cut lk \<or> overlap,
     lk_torn := lk_torn lk \<or> lk_cut lk \<or> overlap\<rparr>"

text \<open>A step of the session \<open>s\<close> to \<open>t\<close> by the event \<open>e\<close>: what it does to its outgoing link.  A closed
  socket takes no more bytes.\<close>

definition link_after :: "byte_order \<Rightarrow> 'x session \<Rightarrow> 'x event \<Rightarrow> 'x session \<Rightarrow> link \<Rightarrow> link" where
  "link_after bo s e t lk =
    (let lk1 = (case write_result s e of Some (Some err) \<Rightarrow> fail_write lk | _ \<Rightarrow> lk);
         ms = drop (length (writes s)) (writes t)
     in if ms = [] \<or> session_closed s then lk1 else start_write bo (writing s) ms lk1)"

definition peer_exec :: "byte_order \<Rightarrow> 'x endpoint \<Rightarrow> link \<Rightarrow> link \<Rightarrow> 'x event \<Rightarrow> ('x endpoint \<times> link \<times> link) option" where
  "peer_exec bo p out inn e =
    (let s = ep_session p; bs = taken s e
     in if take (length bs) (lk_transit inn) = bs \<and> (write_result s e = Some None \<longrightarrow> lk_unsent out = [])
        then (case endpoint_exec bo p e of
            None \<Rightarrow> None
          | Some q \<Rightarrow> Some (q, link_after bo s e (ep_session q) out,
              inn\<lparr>lk_transit := drop (length bs) (lk_transit inn)\<rparr>))
        else None)"

definition transfer :: "nat \<Rightarrow> link \<Rightarrow> link" where
  "transfer k lk = lk\<lparr>lk_unsent := drop k (lk_unsent lk), lk_transit := lk_transit lk @ take k (lk_unsent lk),
     lk_begun := lk_begun lk \<or> take k (lk_unsent lk) \<noteq> []\<rparr>"

datatype ('x, 'y) connection_event =
    AtLeft "'x event" | AtRight "'y event" | SendOut nat | SendBack nat

fun connection_exec :: "byte_order \<Rightarrow> ('x, 'y) connection \<Rightarrow> ('x, 'y) connection_event \<Rightarrow>
    ('x, 'y) connection option" where
  "connection_exec bo c (AtLeft e) = (case peer_exec bo (cn_left c) (cn_out c) (cn_back c) e of
      None \<Rightarrow> None
    | Some (p, out, inn) \<Rightarrow> Some (c\<lparr>cn_left := p, cn_out := out, cn_back := inn\<rparr>))"
| "connection_exec bo c (AtRight e) = (case peer_exec bo (cn_right c) (cn_back c) (cn_out c) e of
      None \<Rightarrow> None
    | Some (p, out, inn) \<Rightarrow> Some (c\<lparr>cn_right := p, cn_back := out, cn_out := inn\<rparr>))"
| "connection_exec bo c (SendOut k) = (if session_closed (ep_session (cn_left c)) then None
     else Some (c\<lparr>cn_out := transfer k (cn_out c)\<rparr>))"
| "connection_exec bo c (SendBack k) = (if session_closed (ep_session (cn_right c)) then None
     else Some (c\<lparr>cn_back := transfer k (cn_back c)\<rparr>))"

fun connection_typed :: "('x, 'y) connection_event \<Rightarrow> bool" where
  "connection_typed (AtLeft e) \<longleftrightarrow> event_typed e"
| "connection_typed (AtRight e) \<longleftrightarrow> event_typed e"
| "connection_typed _ \<longleftrightarrow> True"

definition typed_endpoint :: "'x endpoint \<Rightarrow> bool" where
  "typed_endpoint p \<longleftrightarrow> (\<exists>oh ch h. p = endpoint_create oh ch h \<and> handler_typed oh \<and> handler_typed ch \<and>
     receiver_typed h)"

definition connection_init :: "('x, 'y) connection \<Rightarrow> bool" where
  "connection_init c \<longleftrightarrow> typed_endpoint (cn_left c) \<and> typed_endpoint (cn_right c) \<and>
     cn_out c = link_create \<and> cn_back c = link_create"

definition connection_next :: "byte_order \<Rightarrow> ('x, 'y) connection \<Rightarrow> ('x, 'y) connection \<Rightarrow> bool" where
  "connection_next bo c d \<longleftrightarrow> (\<exists>e. connection_typed e \<and> connection_exec bo c e = Some d)"

section \<open>The writes of a session\<close>

lemma writes_issue [simp]: "writes (issue r s) = writes s @ request_write r"
  by (simp add: writes_def)

lemma writes_same: "issued t = issued s \<Longrightarrow> writes t = writes s"
  by (simp add: writes_def)

lemma writes_quiet [simp]:
  "writes (s\<lparr>isConnected := b\<rparr>) = writes s" "writes (s\<lparr>writeQueue := q\<rparr>) = writes s"
  "writes (s\<lparr>socketStrand := ts\<rparr>) = writes s" "writes (s\<lparr>readTimerStrand := us\<rparr>) = writes s"
  "writes (s\<lparr>timerWaits := n\<rparr>) = writes s" "writes (s\<lparr>lastTimeRead := l\<rparr>) = writes s"
  "writes (start_op op s) = writes s" "writes (post_timer k s) = writes s"
  "writes (cancelReadTimer s) = writes s" "writes (restartReadTimer s) = writes s"
  "writes (close s) = writes s" "writes (ping s) = writes s" "writes (run_handler hn s) = writes s"
  "writes (onMessageReceived m s) = writes s" "writes (handleWrite m err s) = writes s"
  by (rule writes_same, simp)+

lemma writes_task: "writes (run_socket_task t s) = writes s @ task_posted t"
  by (cases t) (simp_all add: asyncHandshake_def close_task_def asyncWrite_def handleHandshake_def
      handleReadHeader_def handleReadBody_def readNext_def asyncReadHeader_def asyncReadBody_def Let_def)

lemma writes_timer: "writes (run_timer_task now rnd t s) = writes s"
  by (cases t) (simp_all add: restart_timer_task_def cancel_timer_task_def timeout_task_def Let_def)

lemma writes_open: "open_session ht opt s = Inr t \<Longrightarrow> writes t = writes s"
  by (auto simp: open_session_def configureSocket_def split: if_splits option.splits)
    (simp add: writes_def)

lemma writes_step:
  assumes "session_step bo s e t"
  shows "writes t = writes s \<or> (\<exists>m ts. socketStrand s = RunAsyncWrite m # ts \<and> writes t = writes s @ [m])"
  using assms
proof cases
  case (socket_strand k ts)
  then show ?thesis by (cases k) (simp_all add: writes_task del: run_socket_task.simps)
next
  case (timer_strand k ts now rnd)
  then show ?thesis by (simp add: writes_timer)
next
  case (open_ok ht opt)
  then show ?thesis by (simp add: writes_open)
qed (simp_all add: writes_def)

text \<open>An open session never starts a write while another one is under way.\<close>

lemma no_overlap:
  assumes "session_reachable bo s" "\<not> session_closed s" "socketStrand s = RunAsyncWrite m # ts"
  shows "\<not> writing s"
proof -
  have "m \<in># wr_posted (session_view s)" using assms(3) by (simp add: session_view_def)
  with single_writerD(2) [OF session_writer.view_single_writer [OF assms(1,2)]]
  have "wr_active (session_view s) = {#}" by blast
  then show ?thesis by (auto simp: session_view_def writing_def list_ex_iff)
qed

text \<open>A write stays under way until it completes.\<close>

lemma pending_frame [simp]:
  "pendingOps (configure oh ch rh s) = pendingOps s" "pendingOps (post_socket t s) = pendingOps s"
  "pendingOps (post_read r s) = pendingOps s" "pendingOps (post_timer k s) = pendingOps s"
  "pendingOps (issue q s) = pendingOps s" "pendingOps (start_op op s) = pendingOps s @ [op]"
  "pendingOps (cancelAllPendingOperations s) = pendingOps s" "pendingOps (cancelReadTimer s) = pendingOps s"
  "pendingOps (restartReadTimer s) = pendingOps s" "pendingOps (close s) = pendingOps s"
  "pendingOps (drop_session s) = pendingOps s" "pendingOps (writeNext s) = pendingOps s"
  "pendingOps (send_message m s) = pendingOps s" "pendingOps (send p s) = pendingOps s"
  "pendingOps (ping s) = pendingOps s" "pendingOps (pong s) = pendingOps s"
  "pendingOps (handleMessage m s) = pendingOps s" "pendingOps (onMessageReceived m s) = pendingOps s"
  "pendingOps (handleWrite m err s) = pendingOps s" "pendingOps (handleReadTimeOut err s) = pendingOps s"
  by (simp_all add: session_ops Let_def split: option.split list.split)

lemma pending_calls [simp]: "pendingOps (run_calls cs s) = pendingOps s" "pendingOps (run_handler h s) = pendingOps s"
proof -
  show calls: "pendingOps (run_calls cs s) = pendingOps s" for cs
  proof (induction cs arbitrary: s)
    case (Cons c cs)
    have "pendingOps (run_call c s) = pendingOps s" by (cases c) simp_all
    with Cons show ?case by simp
  qed simp
  show "pendingOps (run_handler h s) = pendingOps s" by (cases h) (simp_all add: run_handler_def calls)
qed

lemma pending_task: "prefix (pendingOps s) (pendingOps (run_socket_task t s))"
  by (cases t) (simp_all add: asyncHandshake_def close_task_def asyncWrite_def handleHandshake_def
      handleReadHeader_def handleReadBody_def readNext_def asyncReadHeader_def asyncReadBody_def Let_def)

lemma writing_step:
  assumes "session_step bo s e t" "writing s" "write_result s e = None"
  shows "writing t"
proof -
  have mono: "writing t" if "prefix (pendingOps s) (pendingOps t)"
    using that assms(2) by (auto simp: writing_def list_ex_iff prefix_def)
  from assms(1) show ?thesis
  proof cases
    case (socket_strand k ts)
    from pending_task [of "s\<lparr>socketStrand := ts\<rparr>" k] socket_strand show ?thesis by (intro mono) simp
  next
    case (timer_strand k ts now rnd)
    then show ?thesis by (intro mono, cases k)
      (simp_all add: restart_timer_task_def cancel_timer_task_def timeout_task_def Let_def)
  next
    case (open_ok ht opt)
    then show ?thesis
      by (intro mono) (auto simp: open_session_def configureSocket_def split: if_splits option.splits)
  next
    case (complete i err bs)
    from assms(2) obtain op where j: "op \<in> set (pendingOps s)" "op_write op \<noteq> []"
      by (auto simp: writing_def list_ex_iff)
    moreover have "op_write (pendingOps s ! i) = []" using assms(3) complete by (simp split: if_splits)
    moreover have "set (pendingOps s) = insert (pendingOps s ! i) (set (remove_at i (pendingOps s)))"
      using arg_cong [OF id_take_nth_drop [OF complete(3)], of set] by (simp add: remove_at_def)
    ultimately have "op \<in> set (remove_at i (pendingOps s))" by auto
    with j(2) complete show ?thesis by (auto simp: writing_def list_ex_iff)
  qed (use assms(2) in \<open>simp_all add: writing_def\<close>)
qed

lemma writing_started: "writing (asyncWrite m s)"
  by (simp add: asyncWrite_def writing_def)

section \<open>One direction\<close>

text \<open>The frames \<open>ms\<close> that have gone into the stream, will go there, or went in part: the bytes read, those in
  the stream and those still to go into it are all of their bytes, but for the rest of the last one when
  its write was cut off.\<close>

definition carried :: "byte_order \<Rightarrow> 'x session \<Rightarrow> link \<Rightarrow> byte list \<Rightarrow> message list \<Rightarrow> byte list \<Rightarrow> bool" where
  "carried bo s lk rd ms rest \<longleftrightarrow> subseq ms (writes s) \<and>
     concat (map (frame_bytes bo) ms) = rd @ lk_transit lk @ lk_unsent lk @ rest \<and>
     (rest \<noteq> [] \<longrightarrow> lk_cut lk) \<and> (lk_cut lk \<longrightarrow> lk_unsent lk = []) \<and>
     (lk_unsent lk \<noteq> [] \<and> \<not> lk_begun lk \<longrightarrow> ms \<noteq> [] \<and> lk_unsent lk = frame_bytes bo (last ms)) \<and>
     (\<not> lk_gap lk \<longrightarrow> prefix ms (writes s) \<and> (lk_lost lk \<or> lk_cut lk \<or> session_closed s \<or> ms = writes s))"

definition direction_ok :: "byte_order \<Rightarrow> 'x session \<Rightarrow> link \<Rightarrow> byte list \<Rightarrow> bool" where
  "direction_ok bo s lk rd \<longleftrightarrow> session_reachable bo s \<and> session_typed s \<and>
     (lk_torn lk \<longrightarrow> lk_cut lk \<and> lk_gap lk) \<and> (lk_gap lk \<longrightarrow> lk_lost lk \<or> lk_cut lk) \<and>
     (lk_unsent lk \<noteq> [] \<longrightarrow> writing s \<or> session_closed s) \<and>
     (\<not> lk_torn lk \<longrightarrow> (\<exists>ms rest. carried bo s lk rd ms rest))"

lemma direction_ok_transfer:
  assumes "direction_ok bo s lk rd"
  shows "direction_ok bo s (transfer k lk) rd"
proof -
  have flags: "lk_lost (transfer k lk) = lk_lost lk" "lk_torn (transfer k lk) = lk_torn lk"
    "lk_cut (transfer k lk) = lk_cut lk" "lk_gap (transfer k lk) = lk_gap lk"
    by (simp_all add: transfer_def)
  have same: "lk_transit (transfer k lk) @ lk_unsent (transfer k lk) @ ys = lk_transit lk @ lk_unsent lk @ ys" for ys
    by (simp add: transfer_def)
  have "carried bo s (transfer k lk) rd ms rest" if "carried bo s lk rd ms rest" for ms rest
    using that unfolding carried_def flags same by (auto simp: transfer_def)
  moreover have "lk_unsent (transfer k lk) \<noteq> [] \<longrightarrow> lk_unsent lk \<noteq> []" by (auto simp: transfer_def)
  ultimately show ?thesis using assms unfolding direction_ok_def flags by blast
qed

lemma direction_ok_read:
  assumes "direction_ok bo s lk rd" "take (length bs) (lk_transit lk) = bs"
  shows "direction_ok bo s (lk\<lparr>lk_transit := drop (length bs) (lk_transit lk)\<rparr>) (rd @ bs)"
proof -
  have "lk_transit lk = bs @ drop (length bs) (lk_transit lk)"
    using append_take_drop_id [of "length bs" "lk_transit lk"] assms(2) by simp
  then have "rd @ lk_transit lk @ ys = rd @ bs @ drop (length bs) (lk_transit lk) @ ys" for ys
    by (metis append.assoc)
  with assms(1) show ?thesis by (simp add: direction_ok_def carried_def)
qed

text \<open>A write that fails before anything of it was sent takes its whole frame off the end.\<close>

lemma carried_fail:
  assumes "carried bo s lk rd ms rest" "lk_unsent lk \<noteq> []"
  shows "\<exists>ms rest. carried bo s (fail_write lk) rd ms rest"
proof (cases "lk_begun lk")
  case True
  with assms show ?thesis
    by (intro exI [of _ ms] exI [of _ "lk_unsent lk @ rest"]) (auto simp: carried_def fail_write_def)
next
  case False
  with assms have ms: "ms \<noteq> []" "lk_unsent lk = frame_bytes bo (last ms)" "rest = []"
    by (auto simp: carried_def)
  then have split: "ms = butlast ms @ [last ms]" by simp
  have "concat (map (frame_bytes bo) ms) = concat (map (frame_bytes bo) (butlast ms)) @ lk_unsent lk"
    by (subst split) (simp add: ms(2))
  moreover have "subseq (butlast ms) ms" "prefix (butlast ms) ms"
    using split by (metis prefixI prefix_imp_subseq)+
  ultimately have "carried bo s (fail_write lk) rd (butlast ms) []"
    using assms False ms(3) subseq_order.trans [of "butlast ms" ms "writes s"]
      prefix_order.trans [of "butlast ms" ms "writes s"]
    by (simp add: carried_def fail_write_def)
  then show ?thesis by blast
qed

lemma direction_ok_fail:
  assumes "direction_ok bo s lk rd"
  shows "direction_ok bo s (fail_write lk) rd"
proof (cases "lk_unsent lk = []")
  case True
  with assms show ?thesis by (simp add: fail_write_def)
next
  case False
  have "lk_torn (fail_write lk) = lk_torn lk" "lk_gap (fail_write lk) = lk_gap lk"
    "lk_cut lk \<Longrightarrow> lk_cut (fail_write lk)" "lk_lost lk \<Longrightarrow> lk_lost (fail_write lk)" "lk_unsent (fail_write lk) = []"
    by (simp_all add: fail_write_def)
  with assms carried_fail [OF _ False] show ?thesis by (auto simp: direction_ok_def)
qed

text \<open>A step of the writer, when the write that it completes has been taken off the link.\<close>

lemma direction_ok_step:
  assumes ok: "direction_ok bo s lk rd" and step: "session_step bo s e t" "event_typed e"
    and w: "write_result s e = None \<or> lk_unsent lk = []"
    and lk': "lk' = (let ms = drop (length (writes s)) (writes t)
       in if ms = [] \<or> session_closed s then lk else start_write bo (writing s) ms lk)"
  shows "direction_ok bo t lk' rd"
proof -
  have t: "session_reachable bo t" "session_typed t"
    using ok step reach.reach_step [of session_start "session_next bo" s t] typed_step
    by (auto simp: direction_ok_def session_next_def)
  note closed = closed_step [OF step(1)]
  have still: "lk_unsent lk \<noteq> [] \<longrightarrow> writing t \<or> session_closed t"
    using ok w writing_step [OF step(1)] closed by (auto simp: direction_ok_def)
  have more: "carried bo t lk rd ms rest" if "carried bo s lk rd ms rest" "prefix (writes s) (writes t)"
    "session_closed s \<or> writes t = writes s" for ms rest
    using that closed subseq_order.trans [of ms "writes s" "writes t"] prefix_order.trans [of ms "writes s" "writes t"]
    by (auto simp: carried_def)
  from writes_step [OF step(1)] show ?thesis
  proof (elim disjE exE conjE)
    assume "writes t = writes s"
    with ok t still more show ?thesis by (fastforce simp: lk' direction_ok_def)
  next
    fix m ts assume m: "socketStrand s = RunAsyncWrite m # ts" "writes t = writes s @ [m]"
    show ?thesis
    proof (cases "session_closed s")
      case True
      with ok t still more m show ?thesis by (fastforce simp: lk' direction_ok_def)
    next
      case False
      have "session_reachable bo s" using ok by (simp add: direction_ok_def)
      from no_overlap [OF this False m(1)] have idle: "\<not> writing s" .
      then have none: "lk_unsent lk = []" using ok False by (auto simp: direction_ok_def)
      have l: "lk' = start_write bo False [m] lk" using m(2) False idle by (simp add: lk')
      have "e = SocketStrand"
        using step(1)
      proof cases
        case (timer_strand k us now rnd)
        with m(2) show ?thesis by (simp add: writes_timer)
      next
        case (open_ok ht opt)
        with m(2) show ?thesis by (simp add: writes_open)
      qed (use m(2) in \<open>simp_all add: writes_def\<close>)
      then have "writing t" using step(1) m(1) by (auto simp: session_step_Socket writing_started)
      moreover have "carried bo t lk' rd (ms @ [m]) rest" if "carried bo s lk rd ms rest" "\<not> lk_torn lk'" for ms rest
      proof -
        have "subseq (ms @ [m]) (writes s @ [m])" using that(1) by (simp add: carried_def)
        with that none False show ?thesis by (auto simp: l carried_def start_write_def m(2))
      qed
      ultimately show ?thesis using ok t by (fastforce simp: l direction_ok_def start_write_def)
    qed
  qed
qed

lemma direction_ok_after:
  assumes "direction_ok bo s lk rd" "session_step bo s e t" "event_typed e"
    and "write_result s e = Some None \<longrightarrow> lk_unsent lk = []"
  shows "direction_ok bo t (link_after bo s e t lk) rd"
proof -
  define lk1 where "lk1 = (case write_result s e of Some (Some err) \<Rightarrow> fail_write lk | _ \<Rightarrow> lk)"
  have "direction_ok bo s lk1 rd"
    using assms(1) by (auto simp: lk1_def direction_ok_fail split: option.split)
  moreover have "write_result s e = None \<or> lk_unsent lk1 = []"
    using assms(4) by (auto simp: lk1_def fail_write_def split: option.splits)
  ultimately show ?thesis
    by (rule direction_ok_step [OF _ assms(2,3)]) (simp add: link_after_def lk1_def)
qed

lemma data_payloads_frames: "data_payloads (map frame_of ms) =
    map (\<lambda>m. received_buffer (Buffer_view (msg_payload m))) (filter (\<lambda>m. Message_type m = type_code Data) ms)"
  by (induction ms) (simp_all add: data_payloads_def frame_of_def)

lemma writes_sendable: "session_typed s \<Longrightarrow> \<forall>m\<in>set (writes s). sendable m"
proof
  fix m assume "session_typed s" "m \<in> set (writes s)"
  then obtain r where "m \<in> set (request_write r)" "request_typed r"
    by (auto simp: session_typed_def writes_def)
  then show "sendable m" by (cases r) (simp_all add: composed_def)
qed

text \<open>What a session has read of an intact link parses to messages that were written.\<close>

lemma direction_ok_messages:
  assumes "direction_ok bo s lk rd" "\<not> lk_torn lk"
  shows "subseq (fst (parse_frames bo rd)) (map frame_of (writes s))"
    and "\<not> lk_gap lk \<Longrightarrow> prefix (fst (parse_frames bo rd)) (map frame_of (writes s))"
proof -
  obtain ms rest where c: "carried bo s lk rd ms rest" using assms by (auto simp: direction_ok_def)
  then obtain rest' where rest: "concat (map (frame_bytes bo) ms) = rd @ rest'" by (auto simp: carried_def)
  have "set ms \<subseteq> set (writes s)" using c set_nths_subset by (fastforce simp: carried_def subseq_conv_nths)
  then have "\<forall>m\<in>set ms. sendable m" using assms(1) writes_sendable by (auto simp: direction_ok_def)
  from parse_frames_concat [OF this, of bo "[]"]
  have "fst (parse_frames bo (rd @ rest')) = map frame_of ms" by (simp add: rest parse_Nil)
  then have p: "prefix (fst (parse_frames bo rd)) (map frame_of ms)" using prefix_parse_frames [of bo rd rest'] by simp
  show "subseq (fst (parse_frames bo rd)) (map frame_of (writes s))"
    using subseq_order.trans [OF prefix_imp_subseq [OF p] subseq_map] c by (auto simp: carried_def)
  show "prefix (fst (parse_frames bo rd)) (map frame_of (writes s))" if "\<not> lk_gap lk"
    using prefix_order.trans [OF p map_mono_prefix] c that by (auto simp: carried_def)
qed

section \<open>Both directions\<close>

definition connection_ok :: "byte_order \<Rightarrow> ('x, 'y) connection \<Rightarrow> bool" where
  "connection_ok bo c \<longleftrightarrow> endpoint_ok bo (cn_left c) \<and> endpoint_ok bo (cn_right c) \<and>
     direction_ok bo (ep_session (cn_left c)) (cn_out c) (ep_read (cn_right c)) \<and>
     direction_ok bo (ep_session (cn_right c)) (cn_back c) (ep_read (cn_left c))"

lemma peer_step:
  assumes "peer_exec bo p out inn e = Some (q, out', inn')" "event_typed e" "endpoint_ok bo p"
    and "direction_ok bo (ep_session p) out rd" "direction_ok bo s inn (ep_read p)"
  shows "endpoint_ok bo q \<and> direction_ok bo (ep_session q) out' rd \<and> direction_ok bo s inn' (ep_read q)"
proof -
  let ?bs = "taken (ep_session p) e"
  from assms(1) have e: "take (length ?bs) (lk_transit inn) = ?bs" "endpoint_exec bo p e = Some q"
    "out' = link_after bo (ep_session p) e (ep_session q) out"
    "inn' = inn\<lparr>lk_transit := drop (length ?bs) (lk_transit inn)\<rparr>"
    "write_result (ep_session p) e = Some None \<longrightarrow> lk_unsent out = []"
    by (auto simp: peer_exec_def Let_def split: if_splits option.splits)
  note D = endpoint_execD [OF e(2)]
  have "endpoint_ok bo q" using endpoint.inv_next [OF assms(3)] e(2) by (auto simp: endpoint_next_def)
  with direction_ok_after [OF assms(4) D(2) assms(2) e(5)] direction_ok_read [OF assms(5) e(1)] D(3) e(3,4)
  show ?thesis by simp
qed

lemma direction_ok_create:
  assumes "typed_endpoint p"
  shows "endpoint_ok bo p \<and> ep_read p = [] \<and> direction_ok bo (ep_session p) link_create []"
proof -
  obtain oh ch h where p: "p = endpoint_create oh ch h" "handler_typed oh" "handler_typed ch" "receiver_typed h"
    using assms by (auto simp: typed_endpoint_def)
  let ?s = "configure oh ch (Some h) Session_create"
  have "session_next bo Session_create ?s" by (auto simp: session_next_def intro: session_step.configure)
  from reach.reach_step [OF session_reachable_create this]
  have "session_reachable bo ?s" .
  moreover have "session_typed ?s" using p by (simp add: session_typed_def configure_def Session_create_def)
  moreover have "writes ?s = []" by (simp add: writes_def configure_def Session_create_def)
  ultimately show ?thesis
    by (simp add: p(1) endpoint_ok_create) (auto simp: endpoint_create_def direction_ok_def carried_def link_create_def)
qed

interpretation connection: inductive_invariant connection_init "connection_next bo" "connection_ok bo" for bo
proof unfold_locales
  show "connection_ok bo c" if "connection_init c" for c :: "('x, 'y) connection"
    using that direction_ok_create [of "cn_left c" bo] direction_ok_create [of "cn_right c" bo]
    by (simp add: connection_init_def connection_ok_def)
  show "connection_ok bo d" if "connection_ok bo c" "connection_next bo c d" for c d :: "('x, 'y) connection"
  proof -
    from that(2) obtain e where e: "connection_typed e" "connection_exec bo c e = Some d"
      by (auto simp: connection_next_def)
    show ?thesis
    proof (cases e)
      case (AtLeft e')
      with e obtain q out' inn' where q: "peer_exec bo (cn_left c) (cn_out c) (cn_back c) e' = Some (q, out', inn')"
        "d = c\<lparr>cn_left := q, cn_out := out', cn_back := inn'\<rparr>" "event_typed e'"
        by (auto split: option.splits)
      from that(1) peer_step [OF q(1,3)] have "endpoint_ok bo q \<and>
          direction_ok bo (ep_session q) out' (ep_read (cn_right c)) \<and>
          direction_ok bo (ep_session (cn_right c)) inn' (ep_read q)"
        unfolding connection_ok_def by blast
      with that(1) q(2) show ?thesis by (simp add: connection_ok_def)
    next
      case (AtRight e')
      with e obtain q out' inn' where q: "peer_exec bo (cn_right c) (cn_back c) (cn_out c) e' = Some (q, out', inn')"
        "d = c\<lparr>cn_right := q, cn_back := out', cn_out := inn'\<rparr>" "event_typed e'"
        by (auto split: option.splits)
      from that(1) peer_step [OF q(1,3)] have "endpoint_ok bo q \<and>
          direction_ok bo (ep_session q) out' (ep_read (cn_left c)) \<and>
          direction_ok bo (ep_session (cn_left c)) inn' (ep_read q)"
        unfolding connection_ok_def by blast
      with that(1) q(2) show ?thesis by (simp add: connection_ok_def)
    next
      case (SendOut k)
      with e that(1) show ?thesis by (auto simp: connection_ok_def direction_ok_transfer split: if_splits)
    next
      case (SendBack k)
      with e that(1) show ?thesis by (auto simp: connection_ok_def direction_ok_transfer split: if_splits)
    qed
  qed
qed

section \<open>Properties\<close>

definition data_sent :: "'x session \<Rightarrow> buffer list" where
  "data_sent s = map (\<lambda>m. received_buffer (Buffer_view (msg_payload m)))
     (filter (\<lambda>m. Message_type m = type_code Data) (writes s))"

lemma subseq_data_payloads: "subseq ms ns \<Longrightarrow> subseq (data_payloads ms) (data_payloads ns)"
  unfolding data_payloads_def by (intro subseq_map subseq_filter)

lemma direction_delivers:
  assumes "endpoint_ok bo p" "direction_ok bo s lk (ep_read p)"
  shows "\<not> lk_gap lk \<Longrightarrow> prefix (ep_got p) (data_sent s)" and "\<not> lk_torn lk \<Longrightarrow> subseq (ep_got p) (data_sent s)"
    and "lk_torn lk \<Longrightarrow> lk_cut lk" and "lk_gap lk \<Longrightarrow> lk_lost lk \<or> lk_cut lk"
proof -
  show "lk_torn lk \<Longrightarrow> lk_cut lk" "lk_gap lk \<Longrightarrow> lk_lost lk \<or> lk_cut lk" using assms(2) by (auto simp: direction_ok_def)
  have "prefix (ep_got p) (offered (ep_session p) (ep_got p))" by (simp add: offered_def)
  also have "prefix \<dots> (data_payloads (fst (parse_frames bo (ep_read p))))"
    using assms(1) by (simp add: endpoint_ok_def reader_ok_def)
  finally have got: "prefix (ep_got p) (data_payloads (fst (parse_frames bo (ep_read p))))" .
  show "subseq (ep_got p) (data_sent s)" if "\<not> lk_torn lk"
    using subseq_order.trans [OF prefix_imp_subseq [OF got] subseq_data_payloads [OF direction_ok_messages(1) [OF assms(2) that]]]
    by (simp add: data_payloads_frames data_sent_def)
  show "prefix (ep_got p) (data_sent s)" if "\<not> lk_gap lk"
  proof -
    have "\<not> lk_torn lk" using assms(2) that by (auto simp: direction_ok_def)
    from prefix_order.trans [OF got prefix_data_payloads [OF direction_ok_messages(2) [OF assms(2) this that]]]
    show ?thesis by (simp add: data_payloads_frames data_sent_def)
  qed
qed

text \<open>Sample connections: both ends without open and close handlers, the left one a client; payloads
  of four bytes.\<close>

lemma connection_reachable_run:
  assumes "run (connection_exec bo) c es = Some d" "connection_init c" "\<forall>e\<in>set es. connection_typed e"
  shows "reach connection_init (connection_next bo) d"
proof (rule run_invariant [OF assms(1)])
  show "reach connection_init (connection_next bo) c" using assms(2) by (rule reach.reach_init)
next
  fix c e c'
  assume "e \<in> set es" "connection_exec bo c e = Some c'"
  with assms(3) have "connection_next bo c c'" by (auto simp: connection_next_def)
  then show "reach connection_init (connection_next bo) c \<Longrightarrow> reach connection_init (connection_next bo) c'"
    by (rule reach.reach_step [rotated])
qed

definition four_bytes :: "byte list \<Rightarrow> buffer" where
  "four_bytes bs = \<lparr>buf_data = bs, buf_size = 4, buf_busy = False\<rparr>"

definition data_header :: "byte list" where
  "data_header = [0, 0, 0, 0, 0, 0, 4, 0, 0, 0, 1, 0]"

definition fresh_connection :: "(nat, nat) connection" where
  "fresh_connection = \<lparr>cn_left = endpoint_create None None (\<lambda>_. []), cn_right = endpoint_create None None (\<lambda>_. []),
     cn_out = link_create, cn_back = link_create\<rparr>"

definition connect_both :: "(nat, nat) connection_event list" where
  "connect_both = map AtLeft (handshake_events ClientSide) @ map AtRight (handshake_events ServerSide)"

definition send_four :: "byte list \<Rightarrow> (nat, nat) connection_event list" where
  "send_four bs = [AtLeft (Send (four_bytes bs)), AtLeft SocketStrand]"

definition receive_four :: "byte list \<Rightarrow> (nat, nat) connection_event list" where
  "receive_four bs = [AtRight (Complete 0 None data_header), AtRight SocketStrand,
     AtRight (Complete 0 None bs), AtRight SocketStrand, AtRight ReadStrand]"

lemmas connection_eval [run_simps] = peer_exec_def link_after_def link_create_def writes_def writing_def
  fail_write_def start_write_def transfer_def fresh_connection_def connect_both_def send_four_def
  receive_four_def data_sent_def

lemmas frame_eval = header_bytes_def word_bytes_def in_order_def frame_bytes_def buffer_defs four_bytes_def
  data_header_def read_into_header_def receive_header_full header_of_bytes_def bytes_word_def
  read_into_body_def overlay_def verifyHeader_def verifyBody_def isEmpty_def fitToSize_def
  vector_resize_def received_buffer_def Let_def

lemma fresh_connection_init: "connection_init fresh_connection"
  unfolding connection_init_def typed_endpoint_def fresh_connection_def
  by (auto simp: handler_typed_def receiver_typed_def calls_typed_def
      intro!: exI [of _ None] exI [of _ "\<lambda>_. []"])

lemma sendable_four [simp]: "length bs = 4 \<Longrightarrow> sendable_buffer (four_bytes bs)"
  by (simp add: sendable_buffer_def four_bytes_def well_sized_def buffer_defs)

text \<open>C2. End to end: two sessions connected by a stream, in every interleaving of their threads, timers,
  handlers, failing operations and of the bytes between them, each given to send well-sized payloads of
  less than \<open>2 ^ 32\<close> bytes.  As long as no write was issued after one that failed, the payloads with
  which one side's receive handler has been called are a prefix of the data messages the other side has
  written, unchanged and in order, in both directions.  If only writes have failed of which nothing had
  been sent, they are still a subsequence of them: messages are missing, but none is changed, doubled or
  out of order.  And a frame is torn only after a write failed with a part of its frame sent, never by
  two overlapping writes.\<close>

theorem connection_delivers_in_order:
  assumes "reach connection_init (connection_next bo) c"
  shows "(\<not> lk_gap (cn_out c) \<longrightarrow> prefix (ep_got (cn_right c)) (data_sent (ep_session (cn_left c)))) \<and>
    (\<not> lk_gap (cn_back c) \<longrightarrow> prefix (ep_got (cn_left c)) (data_sent (ep_session (cn_right c)))) \<and>
    (\<not> lk_torn (cn_out c) \<longrightarrow> subseq (ep_got (cn_right c)) (data_sent (ep_session (cn_left c)))) \<and>
    (\<not> lk_torn (cn_back c) \<longrightarrow> subseq (ep_got (cn_left c)) (data_sent (ep_session (cn_right c)))) \<and>
    (lk_torn (cn_out c) \<longrightarrow> lk_cut (cn_out c)) \<and> (lk_torn (cn_back c) \<longrightarrow> lk_cut (cn_back c)) \<and>
    (lk_gap (cn_out c) \<longrightarrow> lk_lost (cn_out c) \<or> lk_cut (cn_out c)) \<and>
    (lk_gap (cn_back c) \<longrightarrow> lk_lost (cn_back c) \<or> lk_cut (cn_back c))"
proof -
  have ok: "endpoint_ok bo (cn_left c)" "endpoint_ok bo (cn_right c)"
    "direction_ok bo (ep_session (cn_left c)) (cn_out c) (ep_read (cn_right c))"
    "direction_ok bo (ep_session (cn_right c)) (cn_back c) (ep_read (cn_left c))"
    using connection.reachable_inv [OF assms] by (simp_all add: connection_ok_def)
  from direction_delivers [OF ok(2,3)] direction_delivers [OF ok(1,4)] show ?thesis by blast
qed

lemma delivered_run:
  "\<exists>c. run (connection_exec LittleEndian) fresh_connection
       (connect_both @ send_four [1, 2, 3, 4] @ [SendOut 16] @ receive_four [1, 2, 3, 4]) = Some c \<and>
     ep_got (cn_right c) = [four_bytes [1, 2, 3, 4]] \<and> \<not> lk_gap (cn_out c)"
  by (simp add: run_simps frame_eval)

theorem connection_delivers_in_order_witness:
  "\<exists>c. reach connection_init (connection_next LittleEndian) c \<and>
     ep_got (cn_right (c :: (nat, nat) connection)) = [four_bytes [1, 2, 3, 4]] \<and>
     prefix [four_bytes [1, 2, 3, 4]] (data_sent (ep_session (cn_left c)))"
proof -
  let ?es = "connect_both @ send_four [1, 2, 3, 4] @ [SendOut 16] @ receive_four [1, 2, 3, 4]"
  obtain c where c: "run (connection_exec LittleEndian) fresh_connection ?es = Some c"
    "ep_got (cn_right c) = [four_bytes [1, 2, 3, 4]]" "\<not> lk_gap (cn_out c)"
    using delivered_run by blast
  have "\<forall>e\<in>set ?es. connection_typed e"
    by (simp add: connect_both_def handshake_events_def send_four_def receive_four_def)
  note r = connection_reachable_run [OF c(1) fresh_connection_init this]
  from connection_delivers_in_order [OF r] c(2,3) r show ?thesis by metis
qed

end
