(* ===== verification/Senders.thy ===== *)
theory Senders
  imports Connections
begin

text \<open>
  What a session writes comes from what it was given.  A step of a session hands payloads to \<open>send\<close>
  (\<open>given\<close>): by a call from outside, by the open handler after a handshake, by the close handler, and
  by the receive handler.  In every interleaving, whether writes fail and whether the session has been
  closed, the data messages it has written, those posted and those still waiting are a subsequence of
  these payloads: no payload is written twice, none overtakes another, and nothing is made up.
\<close>

section \<open>What is handed to send\<close>

fun call_sends :: "'x call \<Rightarrow> buffer list" where
  "call_sends (CallSend p) = [p]"
| "call_sends _ = []"

definition sends :: "'x call list \<Rightarrow> buffer list" where
  "sends cs = concat (map call_sends cs)"

definition handler_sends :: "'x call list option \<Rightarrow> buffer list" where
  "handler_sends h = (case h of None \<Rightarrow> [] | Some cs \<Rightarrow> sends cs)"

fun given :: "'x session \<Rightarrow> 'x event \<Rightarrow> buffer list" where
  "given s (Send p) = [p]"
| "given s SocketStrand = (case socketStrand s of
      OnHandshake None # _ \<Rightarrow> handler_sends (openHandler s)
    | RunClose # _ \<Rightarrow> handler_sends (closeHandler s)
    | _ \<Rightarrow> [])"
| "given s ReadStrand = (case readStrand s of [] \<Rightarrow> [] | (h, p) # _ \<Rightarrow> sends (h p))"
| "given s _ = []"

lemma sends_simps [simp]: "sends [] = []" "sends (c # cs) = call_sends c @ sends cs"
  by (simp_all add: sends_def)

section \<open>What is on its way\<close>

text \<open>The head of the queue is being written or was, so only what stands behind it still has to come.\<close>

definition outgoing :: "'x session \<Rightarrow> message list" where
  "outgoing s = filter (\<lambda>m. Message_type m = type_code Data)
     (writes s @ concat (map task_posted (socketStrand s)) @ tl (writeQueue s))"

text \<open>An operation adds at most the messages of some payloads, in their order and behind the others.\<close>

definition adds :: "buffer list \<Rightarrow> 'x session \<Rightarrow> 'x session \<Rightarrow> bool" where
  "adds ps s t \<longleftrightarrow> subseq (outgoing t) (outgoing s @ map (Message_create Data) ps)"

lemma adds_trans: "adds ps s t \<Longrightarrow> adds qs t u \<Longrightarrow> adds (ps @ qs) s u"
  unfolding adds_def
  by (rule subseq_order.trans [of _ "outgoing t @ map (Message_create Data) qs"])
    (simp_all add: list_emb_append_mono flip: append_assoc)

lemma adds_after: "adds [] s t \<Longrightarrow> adds qs t u \<Longrightarrow> adds qs s u"
  using adds_trans [of "[]"] by fastforce

lemma adds_before: "adds ps s t \<Longrightarrow> adds [] t u \<Longrightarrow> adds ps s u"
  using adds_trans [of ps s t "[]"] by simp

lemma adds_same: "outgoing t = outgoing s \<Longrightarrow> adds ps s t"
  by (simp add: adds_def list_emb_prefix)

lemma outgoing_frame [simp]:
  "outgoing (s\<lparr>isConnected := b\<rparr>) = outgoing s" "outgoing (s\<lparr>lastTimeRead := l\<rparr>) = outgoing s"
  "outgoing (s\<lparr>timerWaits := n\<rparr>) = outgoing s" "outgoing (s\<lparr>readStrand := rs\<rparr>) = outgoing s"
  "outgoing (s\<lparr>readTimerStrand := ts\<rparr>) = outgoing s" "outgoing (s\<lparr>extCalls := xs\<rparr>) = outgoing s"
  "outgoing (s\<lparr>pendingOps := ops\<rparr>) = outgoing s" "outgoing (configure oh ch rh s) = outgoing s"
  "outgoing (post_read r s) = outgoing s" "outgoing (post_timer k s) = outgoing s"
  "outgoing (start_op op s) = outgoing s"
  "task_posted t = [] \<Longrightarrow> outgoing (post_socket t s) = outgoing s"
  "request_write q = [] \<Longrightarrow> outgoing (issue q s) = outgoing s"
  by (simp_all add: outgoing_def writes_def configure_def post_read_def post_timer_def start_op_def
      post_socket_def issue_def)

lemma outgoing_quiet [simp]:
  "outgoing (cancelAllPendingOperations s) = outgoing s" "outgoing (cancelReadTimer s) = outgoing s"
  "outgoing (restartReadTimer s) = outgoing s" "outgoing (close s) = outgoing s"
  "outgoing (drop_session s) = outgoing s" "outgoing (readNext s) = outgoing s"
  "outgoing (asyncReadBody m s) = outgoing s" "outgoing (asyncHandshake ht s) = outgoing s"
  "outgoing (handleMessage m s) = outgoing s" "outgoing (handleReadTimeOut err s) = outgoing s"
  by (simp_all add: cancelAllPendingOperations_def cancelReadTimer_def restartReadTimer_def close_def
      drop_session_def readNext_def asyncReadHeader_def asyncReadBody_def asyncHandshake_def
      handleMessage_def handleReadTimeOut_def Let_def split: option.split)

lemma outgoing_open: "open_session ht opt s = Inr t \<Longrightarrow> outgoing t = outgoing s"
  by (auto simp: open_session_def configureSocket_def split: if_splits option.splits)

section \<open>Operations that write\<close>

lemma outgoing_send_message:
  "Message_type m = type_code Data \<or> is_control m \<Longrightarrow> outgoing (send_message m s) =
     outgoing s @ (if Message_type m = type_code Data then [m] else [])"
  by (cases "writeQueue s") (auto simp: outgoing_def send_message_def writeNext_def post_socket_def
      writes_def is_control_def Let_def)

lemma outgoing_sends [simp]:
  "outgoing (send p s) = outgoing s @ [Message_create Data p]"
  "outgoing (ping s) = outgoing s" "outgoing (pong s) = outgoing s"
  by (simp_all add: send_def ping_def pong_def outgoing_send_message is_control_def)

lemma outgoing_received [simp]: "outgoing (onMessageReceived m s) = outgoing s"
  by (simp add: onMessageReceived_def Let_def)

lemma adds_run_calls: "adds (sends cs) s (run_calls cs s)"
proof (induction cs arbitrary: s)
  case (Cons c cs)
  have "adds (call_sends c) s (run_call c s)" by (cases c) (simp_all add: adds_def)
  from adds_trans [OF this Cons] show ?case by simp
qed (simp add: adds_def)

lemma adds_run_handler: "adds (handler_sends h) s (run_handler h s)"
  by (cases h) (simp_all add: run_handler_def handler_sends_def adds_run_calls adds_same)

text \<open>A finished write takes the head off the queue, and the next one is posted.\<close>

lemma adds_pop: "adds [] s (writeNext (s\<lparr>writeQueue := tl (writeQueue s)\<rparr>))"
  "adds [] s (s\<lparr>writeQueue := tl (writeQueue s)\<rparr>)" "adds [] s (s\<lparr>writeQueue := []\<rparr>)"
proof -
  show "adds [] s (writeNext (s\<lparr>writeQueue := tl (writeQueue s)\<rparr>))"
    by (cases "tl (writeQueue s)") (simp_all add: adds_def outgoing_def writeNext_def post_socket_def writes_def)
  show "adds [] s (s\<lparr>writeQueue := tl (writeQueue s)\<rparr>)" "adds [] s (s\<lparr>writeQueue := []\<rparr>)"
    by (auto simp: adds_def outgoing_def writes_def intro!: list_emb_append_mono subseq_filter)
qed

lemma adds_handleWrite: "adds [] s (handleWrite m err s)"
  using adds_pop(1,2) [of s] adds_pop(2) [of s, THEN adds_before, of "close (s\<lparr>writeQueue := tl (writeQueue s)\<rparr>)"]
  by (cases "writeQueue s") (auto simp: handleWrite_def adds_same writeNext_def Let_def)

lemma adds_close_task: "adds (handler_sends (closeHandler s)) s (close_task s)"
proof -
  have "adds [] s (issue SocketClose (issue SocketShutdown (s\<lparr>writeQueue := []\<rparr>)))"
    using adds_pop(3) [of s] by (simp add: adds_def)
  from adds_after [OF this adds_run_handler] show ?thesis by (simp add: close_task_def issue_def Let_def)
qed

lemma adds_handshake:
  "adds (if err = None then handler_sends (openHandler s) else []) s (handleHandshake err s)"
proof (cases err)
  case None
  let ?t = "readNext (post_timer RunTouch (s\<lparr>isConnected := True\<rparr>))"
  have "adds [] s ?t" by (rule adds_same) simp
  moreover have "openHandler ?t = openHandler s"
    by (simp add: readNext_def asyncReadHeader_def restartReadTimer_def post_timer_def
        start_op_def issue_def)
  ultimately show ?thesis using adds_after [of s ?t, OF _ adds_run_handler] None
    by (simp add: handleHandshake_def Let_def)
next
  case (Some e)
  then show ?thesis by (simp add: handleHandshake_def adds_same Let_def)
qed

section \<open>Every step\<close>

lemma adds_task:
  assumes "socketStrand s = t # ts"
  shows "adds (given s SocketStrand) s (run_socket_task t (s\<lparr>socketStrand := ts\<rparr>))"
proof -
  let ?u = "s\<lparr>socketStrand := ts\<rparr>"
  have pop: "adds [] s ?u" if "task_posted t = []"
    using assms that by (intro adds_same) (simp add: outgoing_def writes_def)
  show ?thesis
  proof (cases t)
    case (RunAsyncWrite m)
    with assms show ?thesis by (intro adds_same) (simp add: asyncWrite_def outgoing_def, simp add: start_op_def issue_def)
  next
    case RunClose
    with adds_after [OF pop adds_close_task] assms show ?thesis by simp
  next
    case (OnHandshake err)
    with adds_after [OF pop adds_handshake, of err] assms show ?thesis by (cases err) simp_all
  next
    case (OnWrite m err)
    with adds_after [OF pop adds_handleWrite] assms show ?thesis by simp
  next
    case (OnReadHeader m err)
    with pop assms show ?thesis by (auto simp: handleReadHeader_def adds_def Let_def)
  next
    case (OnReadBody m err)
    with pop assms show ?thesis by (auto simp: handleReadBody_def adds_def Let_def)
  qed (use pop assms in \<open>simp_all add: adds_def\<close>)
qed

lemma outgoing_timer: "outgoing (run_timer_task now rnd t s) = outgoing s"
  by (cases t) (simp_all add: restart_timer_task_def cancel_timer_task_def timeout_task_def Let_def)

lemma adds_step:
  assumes "session_step bo s e t"
  shows "adds (given s e) s t"
  using assms
proof cases
  case (socket_strand k ts)
  with adds_task show ?thesis by metis
next
  case (read_strand h payload ts)
  have "adds [] s (s\<lparr>readStrand := ts\<rparr>)" by (simp add: adds_same)
  from adds_after [OF this adds_run_calls] read_strand show ?thesis by simp
next
  case (complete i err bs)
  have "task_posted (completion bo (pendingOps s ! i) err bs) = []" by (cases "pendingOps s ! i") simp_all
  with complete show ?thesis by (simp add: adds_same)
next
  case (timer_strand k ts now rnd)
  then show ?thesis by (simp add: adds_same outgoing_timer)
qed (auto simp: adds_same outgoing_open adds_def)

text \<open>So whatever a session has been given over its life bounds what it has written.\<close>

definition wrote_given :: "'x session \<Rightarrow> buffer list \<Rightarrow> bool" where
  "wrote_given s ps \<longleftrightarrow> subseq (outgoing s) (map (Message_create Data) ps)"

lemma wrote_given_step:
  assumes "wrote_given s ps" "session_step bo s e t"
  shows "wrote_given t (ps @ given s e)"
proof -
  have "subseq (outgoing t) (outgoing s @ map (Message_create Data) (given s e))"
    using adds_step [OF assms(2)] by (simp add: adds_def)
  also have "subseq \<dots> (map (Message_create Data) (ps @ given s e))"
    using assms(1) by (simp add: wrote_given_def list_emb_append_mono)
  finally show ?thesis by (simp add: wrote_given_def)
qed

lemma wrote_given_create: "wrote_given (configure oh ch rh Session_create) []"
  by (simp add: wrote_given_def outgoing_def writes_def configure_def Session_create_def)

lemma wrote_given_sent:
  assumes "wrote_given s ps"
  shows "subseq (data_sent s) (map (\<lambda>p. received_buffer (Buffer_view p)) ps)"
proof -
  have "subseq (filter (\<lambda>m. Message_type m = type_code Data) (writes s)) (map (Message_create Data) ps)"
    using assms unfolding wrote_given_def outgoing_def
    by (rule subseq_order.trans [rotated]) (simp add: list_emb_prefix)
  from subseq_map [OF this, of "\<lambda>m. received_buffer (Buffer_view (msg_payload m))"]
  show ?thesis by (simp add: data_sent_def comp_def)
qed

end
