(* ===== verification/EndpointCalls.thy ===== *)
theory EndpointCalls
  imports Senders
begin

text \<open>
  An endpoint with fixed handlers: after \<open>configure\<close> the handlers of a session do not change, the read
  strand holds calls of its receive handler only, and what a step calls outside and what it gives to
  \<open>send\<close> is read off the handlers.  So over its life an endpoint has called outside and sent what its
  receive handler does for the payloads it got, beside what its open and close handlers do.
\<close>

section \<open>Over the life of an endpoint\<close>

definition serves :: "'x call list option \<Rightarrow> 'x call list option \<Rightarrow> 'x receive_handler \<Rightarrow> 'x session \<Rightarrow> bool" where
  "serves oh ch h s \<longleftrightarrow> openHandler s = oh \<and> closeHandler s = ch \<and> receiveHandler s = Some h \<and>
     (\<forall>h'\<in>fst ` set (readStrand s). h' = h)"

lemma serves_create: "serves oh ch h (ep_session (endpoint_create oh ch h))"
  by (simp add: serves_def endpoint_create_def configure_def Session_create_def)

lemma not_configure: "admissible s e \<Longrightarrow> e \<noteq> Configure oh ch rh"
  by auto

lemma serves_step:
  assumes "serves oh ch h s" "session_step bo s e t" "admissible s e"
  shows "serves oh ch h t" and "extCalls t = extCalls s @ external s e"
  using settled_session_step [OF assms(2)] assms(1,3)
  by (auto simp: serves_def settled_step_def dest: not_configure)

lemma serves_external:
  assumes "serves oh ch h s" "handler_exts oh = []" "handler_exts ch = []"
  shows "external s e = concat (map (\<lambda>p. exts (h p)) (handed s e))"
  using assms by (cases "(s, e)" rule: external.cases)
    (auto simp: serves_def split: list.splits socket_task.splits option.splits)

lemma serves_given:
  assumes "serves oh ch h s" "handler_sends oh = []" "handler_sends ch = []" "\<forall>p. e \<noteq> Send p"
  shows "given s e = concat (map (\<lambda>p. sends (h p)) (handed s e))"
  using assms by (cases "(s, e)" rule: given.cases)
    (auto simp: serves_def split: list.splits socket_task.splits option.splits)

lemma serves_opening:
  assumes "serves oh ch h s" "handler_sends ch = []" "\<forall>p. sends (h p) = []" "\<forall>p. e \<noteq> Send p"
  shows "given s e = (case (e, socketStrand s) of (SocketStrand, OnHandshake None # _) \<Rightarrow> handler_sends oh | _ \<Rightarrow> [])"
  using assms by (cases "(s, e)" rule: given.cases)
    (auto simp: serves_def split: list.splits socket_task.splits option.splits)

end
