(* ===== verification/SessionRest.thy ===== *)
theory SessionRest
  imports EndpointCalls
begin

text \<open>
  How a \<open>Session\<close> comes to rest.  Handlers, tasks and waits hold a shared pointer to their session, so it
  can be released only when none of them is left.  Once the socket is closed asio ends every operation
  on it with an error; the events that are left then are the winding ones.  Each has its price in
  further steps, and \<open>unrest\<close> adds up the prices of all that is outstanding, so that it bounds the
  number of steps to come; only a wait of the read timer that expires undisturbed adds to it.
\<close>

section \<open>Winding events\<close>

fun winding :: "'x event \<Rightarrow> bool" where
  "winding SocketStrand \<longleftrightarrow> True"
| "winding ReadStrand \<longleftrightarrow> True"
| "winding (TimerStrand now rnd) \<longleftrightarrow> True"
| "winding (Complete i err bs) \<longleftrightarrow> err \<noteq> None"
| "winding (TimerDone err) \<longleftrightarrow> True"
| "winding e \<longleftrightarrow> False"

fun expiry :: "'x event \<Rightarrow> bool" where
  "expiry (TimerDone err) \<longleftrightarrow> err \<noteq> Some OperationAborted"
| "expiry e \<longleftrightarrow> False"

definition at_rest :: "'x session \<Rightarrow> bool" where
  "at_rest s \<longleftrightarrow> socketStrand s = [] \<and> readStrand s = [] \<and> readTimerStrand s = [] \<and> pendingOps s = [] \<and> timerWaits s = 0"

section \<open>Prices\<close>

text \<open>A call of a handler: a message may have to be written, a \<open>drop\<close> posts two tasks.  \<open>w\<close> is the price
  of a call outside: nothing for the session by itself, and what it costs the rest of the program for
  a session among others.\<close>

fun call_price :: "nat \<Rightarrow> 'x call \<Rightarrow> nat" where
  "call_price w (CallSend p) = 5"
| "call_price w CallDrop = 2"
| "call_price w CallCancel = 1"
| "call_price w (CallExt x) = w"

definition calls_price :: "nat \<Rightarrow> 'x call list \<Rightarrow> nat" where
  "calls_price w cs = sum_list (map (call_price w) cs)"

definition handler_price :: "nat \<Rightarrow> 'x call list option \<Rightarrow> nat" where
  "handler_price w h = (case h of None \<Rightarrow> 0 | Some cs \<Rightarrow> calls_price w cs)"

definition read_price :: "nat \<Rightarrow> 'x receive_handler \<times> buffer \<Rightarrow> nat" where
  "read_price w r = Suc (calls_price w (fst r (snd r)))"

text \<open>What a session's handlers cost: its close task, its open handler, and a message received.\<close>

record bill =
  bl_ext :: nat
  bl_close :: nat
  bl_open :: nat
  bl_receive :: "message \<Rightarrow> nat"

definition bill_of :: "nat \<Rightarrow> 'x session \<Rightarrow> bill" where
  "bill_of w s = \<lparr>bl_ext = w, bl_close = Suc (handler_price w (closeHandler s)),
     bl_open = handler_price w (openHandler s),
     bl_receive = (\<lambda>m. case receiveHandler s of None \<Rightarrow> 0 | Some h \<Rightarrow> read_price w (h, msg_payload m))\<rparr>"

fun task_price :: "bill \<Rightarrow> socket_task \<Rightarrow> nat" where
  "task_price b (RunAsyncHandshake ht) = 5 + bl_close b"
| "task_price b RunCancel = 1"
| "task_price b RunClose = bl_close b"
| "task_price b (RunAsyncWrite m) = 5"
| "task_price b (OnHandshake err) = (if err = None then 9 + bl_close b + bl_open b else 3 + bl_close b)"
| "task_price b (OnReadHeader m err) = (if err = None then 14 + bl_receive b m else 4)"
| "task_price b (OnReadBody m err) = (if err = None then 14 + bl_receive b m else 4)"
| "task_price b (OnWrite m err) = (if err = None then 6 else 3)"

fun op_price :: "bill \<Rightarrow> asio_op \<Rightarrow> nat" where
  "op_price b (OpHandshake ht) = 4 + bl_close b"
| "op_price b (OpReadHeader m) = 5"
| "op_price b (OpReadBody m) = 5"
| "op_price b (OpWrite m) = 4"

fun timer_price :: "timer_task \<Rightarrow> nat" where
  "timer_price RunTouch = 1"
| "timer_price RunCancelTimer = 1"
| "timer_price RunRestart = 2"
| "timer_price RunTimeOut = 8"

text \<open>A connected session may still be closed; the calls outside are counted when they have been made.\<close>

definition unrest_by :: "bill \<Rightarrow> 'x session \<Rightarrow> nat" where
  "unrest_by b s = sum_list (map (task_price b) (socketStrand s)) + sum_list (map (read_price (bl_ext b)) (readStrand s)) +
     sum_list (map timer_price (readTimerStrand s)) + sum_list (map (op_price b) (pendingOps s)) + timerWaits s +
     of_bool (isConnected s) * bl_close b + bl_ext b * length (extCalls s)"

definition unrest_at :: "nat \<Rightarrow> 'x session \<Rightarrow> nat" where
  "unrest_at w s = unrest_by (bill_of w s) s"

definition unrest :: "'x session \<Rightarrow> nat" where
  "unrest s = unrest_at 0 s"

section \<open>Operations\<close>

lemma unrest_frame [simp]:
  "unrest_by b (s\<lparr>lastTimeRead := l\<rparr>) = unrest_by b s" "unrest_by b (s\<lparr>writeQueue := q\<rparr>) = unrest_by b s"
  "unrest_by b (s\<lparr>extCalls := extCalls s @ xs\<rparr>) = unrest_by b s + bl_ext b * length xs" "unrest_by b (issue r s) = unrest_by b s"
  "unrest_by b (post_socket t s) = unrest_by b s + task_price b t"
  "unrest_by b (post_timer tt s) = unrest_by b s + timer_price tt"
  "unrest_by b (post_read rt s) = unrest_by b s + read_price (bl_ext b) rt"
  "unrest_by b (start_op op s) = unrest_by b s + op_price b op"
  by (simp_all add: unrest_by_def issue_def post_socket_def post_timer_def post_read_def start_op_def distrib_left)

lemma bill_frame [simp]:
  "bl_ext (bill_of w s) = w"
  "bill_of w (s\<lparr>isConnected := c\<rparr>) = bill_of w s" "bill_of w (s\<lparr>lastTimeRead := l\<rparr>) = bill_of w s"
  "bill_of w (s\<lparr>writeQueue := q\<rparr>) = bill_of w s" "bill_of w (s\<lparr>socketStrand := ts\<rparr>) = bill_of w s"
  "bill_of w (s\<lparr>readStrand := rs\<rparr>) = bill_of w s" "bill_of w (s\<lparr>readTimerStrand := tts\<rparr>) = bill_of w s"
  "bill_of w (s\<lparr>pendingOps := ops\<rparr>) = bill_of w s" "bill_of w (s\<lparr>timerWaits := n\<rparr>) = bill_of w s"
  "bill_of w (issue r s) = bill_of w s" "bill_of w (post_timer tt s) = bill_of w s"
  by (simp_all add: bill_of_def issue_def post_timer_def)

lemma unrest_connected: "unrest_by b (s\<lparr>isConnected := True\<rparr>) \<le> unrest_by b s + bl_close b"
  by (simp add: unrest_by_def)

lemma unrest_quiet [simp]:
  "unrest_by b (cancelAllPendingOperations s) = unrest_by b s + 1"
  "unrest_by b (cancelReadTimer s) = unrest_by b s + 1" "unrest_by b (restartReadTimer s) = unrest_by b s + 2"
  "unrest_by b (readNext s) = unrest_by b s + 7" "unrest_by b (asyncReadBody m s) = unrest_by b s + 7"
  "unrest_by b (asyncHandshake ht s) = unrest_by b s + (4 + bl_close b)"
  "unrest_by b (asyncWrite m s) = unrest_by b s + 4"
  by (simp_all add: cancelAllPendingOperations_def cancelReadTimer_def restartReadTimer_def readNext_def
      asyncReadHeader_def asyncReadBody_def asyncHandshake_def asyncWrite_def)

lemma unrest_close [simp]: "unrest_by b (close s) = unrest_by b s + 2" "unrest_by b (drop_session s) = unrest_by b s + 2"
proof -
  show "unrest_by b (close s) = unrest_by b s + 2"
    by (cases "isConnected s") (simp_all add: close_def Let_def cancelAllPendingOperations_def cancelReadTimer_def,
        simp_all add: unrest_by_def post_socket_def post_timer_def)
  then show "unrest_by b (drop_session s) = unrest_by b s + 2" by (simp add: drop_session_def)
qed

lemma unrest_writeNext: "unrest_by b (writeNext s) \<le> unrest_by b s + 5"
  by (simp add: writeNext_def split: list.split)

lemma unrest_send_message: "unrest_by b (send_message m s) \<le> unrest_by b s + 5"
  using unrest_writeNext [of b "s\<lparr>writeQueue := [m]\<rparr>"] by (simp add: send_message_def Let_def)

lemma unrest_sends:
  "unrest_by b (send p s) \<le> unrest_by b s + 5" "unrest_by b (ping s) \<le> unrest_by b s + 5"
  "unrest_by b (pong s) \<le> unrest_by b s + 5"
  by (simp_all add: send_def ping_def pong_def unrest_send_message)

lemma unrest_handleWrite: "unrest_by b (handleWrite m err s) < unrest_by b s + task_price b (OnWrite m err)"
  using unrest_writeNext [of b "s\<lparr>writeQueue := tl (writeQueue s)\<rparr>"] unrest_writeNext [of b s]
  by (auto simp: handleWrite_def Let_def)

lemma unrest_run_calls: "unrest_by b (run_calls cs s) \<le> unrest_by b s + calls_price (bl_ext b) cs"
proof (induction cs arbitrary: s)
  case (Cons c cs)
  have "unrest_by b (run_call c s) \<le> unrest_by b s + call_price (bl_ext b) c"
    by (cases c) (simp_all add: unrest_sends)
  with Cons [of "run_call c s"] show ?case by (simp add: calls_price_def)
qed (simp add: calls_price_def)

lemma unrest_run_handler: "unrest_by b (run_handler h s) \<le> unrest_by b s + handler_price (bl_ext b) h"
  by (cases h) (simp_all add: run_handler_def handler_price_def unrest_run_calls)

section \<open>Tasks\<close>

lemma unrest_close_task: "unrest_by (bill_of w s) (close_task s) < unrest_by (bill_of w s) s + bl_close (bill_of w s)"
proof -
  let ?s = "issue SocketClose (issue SocketShutdown (s\<lparr>writeQueue := []\<rparr>))"
  have "closeHandler ?s = closeHandler s" by (simp add: issue_def)
  with unrest_run_handler [of "bill_of w s" "closeHandler ?s" ?s] show ?thesis
    by (simp add: close_task_def Let_def) (simp add: bill_of_def)
qed

lemma unrest_received: "unrest_by (bill_of w s) (onMessageReceived m s) \<le> unrest_by (bill_of w s) s + 5 + bl_receive (bill_of w s) m"
proof -
  have "unrest_by (bill_of w s) (handleMessage m s) \<le> unrest_by (bill_of w s) s + bl_receive (bill_of w s) m"
    by (cases "receiveHandler s") (simp_all add: handleMessage_def, simp add: bill_of_def)
  with unrest_sends(3) [of "bill_of w s" s] show ?thesis
    by (simp add: onMessageReceived_def Let_def)
qed

lemma unrest_reads:
  "unrest_by (bill_of w s) (handleReadHeader m err s) < unrest_by (bill_of w s) s + task_price (bill_of w s) (OnReadHeader m err)"
  "unrest_by (bill_of w s) (handleReadBody m err s) < unrest_by (bill_of w s) s + task_price (bill_of w s) (OnReadBody m err)"
proof -
  have c: "bill_of w (cancelReadTimer s) = bill_of w s" by (simp add: cancelReadTimer_def)
  from unrest_received [of w "cancelReadTimer s" m] show
    "unrest_by (bill_of w s) (handleReadHeader m err s) < unrest_by (bill_of w s) s + task_price (bill_of w s) (OnReadHeader m err)"
    "unrest_by (bill_of w s) (handleReadBody m err s) < unrest_by (bill_of w s) s + task_price (bill_of w s) (OnReadBody m err)"
    by (auto simp: handleReadHeader_def handleReadBody_def Let_def c)
qed

lemma unrest_handshake:
  "unrest_by (bill_of w s) (handleHandshake err s) < unrest_by (bill_of w s) s + task_price (bill_of w s) (OnHandshake err)"
proof (cases "err = None")
  case True
  let ?s = "readNext (post_timer RunTouch (s\<lparr>isConnected := True\<rparr>))"
  have "openHandler ?s = openHandler s"
    using boundary_quiet(10) [of "post_timer RunTouch (s\<lparr>isConnected := True\<rparr>)"]
    by (simp add: boundary_def post_timer_def)
  moreover have "bl_open (bill_of w s) = handler_price w (openHandler s)" by (simp add: bill_of_def)
  ultimately show ?thesis
    using True unrest_run_handler [of "bill_of w s" "openHandler ?s" ?s] unrest_connected [of "bill_of w s" s]
    by (simp add: handleHandshake_def Let_def)
next
  case False
  with unrest_connected [of "bill_of w s" s] show ?thesis
    by (auto simp: handleHandshake_def Let_def)
qed

lemma unrest_task:
  assumes "socketStrand s = t # ts"
  shows "unrest_by (bill_of w s) (run_socket_task t (s\<lparr>socketStrand := ts\<rparr>)) < unrest_at w s"
proof -
  let ?s = "s\<lparr>socketStrand := ts\<rparr>"
  have "unrest_at w s = unrest_by (bill_of w s) ?s + task_price (bill_of w s) t"
    by (simp add: unrest_at_def) (simp add: unrest_by_def assms)
  moreover have "unrest_by (bill_of w ?s) (run_socket_task t ?s) < unrest_by (bill_of w ?s) ?s + task_price (bill_of w ?s) t"
    using unrest_close_task [of w ?s] unrest_reads [of w ?s] unrest_handshake [of w ?s] unrest_handleWrite
    by (cases t) (simp_all del: task_price.simps(5-8))
  ultimately show ?thesis by simp
qed

lemma unrest_timer_task:
  assumes "readTimerStrand s = t # ts"
  shows "unrest_by (bill_of w s) (run_timer_task now rnd t (s\<lparr>readTimerStrand := ts\<rparr>)) < unrest_at w s"
proof -
  let ?s = "s\<lparr>readTimerStrand := ts\<rparr>"
  have "unrest_at w s = unrest_by (bill_of w s) ?s + timer_price t"
    by (simp add: unrest_at_def) (simp add: unrest_by_def assms)
  moreover have "unrest_by b (u\<lparr>timerWaits := Suc (timerWaits u)\<rparr>) = Suc (unrest_by b u)" for b and u :: "'a session"
    by (simp add: unrest_by_def)
  ultimately show ?thesis
    using unrest_sends(2) [of "bill_of w s" ?s]
    by (cases t) (simp_all add: restart_timer_task_def cancel_timer_task_def timeout_task_def Let_def)
qed

section \<open>Every event\<close>

lemma unrest_complete:
  assumes "i < length (pendingOps s)"
  shows "unrest_by b (post_socket (completion bo (pendingOps s ! i) (Some e) bs)
    (s\<lparr>pendingOps := remove_at i (pendingOps s)\<rparr>)) < unrest_by b s"
  using sum_list_remove_at [OF assms, of "op_price b"]
  by (cases "pendingOps s ! i") (simp_all, simp_all add: unrest_by_def)

lemma unrest_timer_done:
  assumes "0 < timerWaits s"
  shows "Suc (unrest_by b (handleReadTimeOut err (s\<lparr>timerWaits := timerWaits s - 1\<rparr>))) \<le>
    unrest_by b s + 8 * of_bool (err \<noteq> Some OperationAborted)"
  using assms by (cases "err = Some OperationAborted") (simp_all add: handleReadTimeOut_def, simp_all add: unrest_by_def)

lemma bill_step:
  assumes "session_step bo s e t" "winding e"
  shows "bill_of w t = bill_of w s"
proof -
  have "\<forall>oh ch rh. e \<noteq> Configure oh ch rh" using assms(2) by auto
  from settled_session_step [OF assms(1) this] show ?thesis by (simp add: settled_step_def bill_of_def)
qed

lemma unrest_step:
  assumes "session_step bo s e t" "winding e"
  shows "Suc (unrest_at w t) \<le> unrest_at w s + 8 * of_bool (expiry e)"
proof -
  have "Suc (unrest_by (bill_of w s) t) \<le> unrest_at w s + 8 * of_bool (expiry e)"
    using assms(1)
  proof cases
    case (socket_strand k ts)
    with unrest_task [OF socket_strand(3)] show ?thesis
      by (simp add: Suc_le_eq del: run_socket_task.simps)
  next
    case (read_strand h p ts)
    have "unrest_at w s = unrest_by (bill_of w s) (s\<lparr>readStrand := ts\<rparr>) + read_price w (h, p)"
      by (simp add: unrest_at_def) (simp add: unrest_by_def read_strand(3))
    with read_strand unrest_run_calls [of "bill_of w s" "h p" "s\<lparr>readStrand := ts\<rparr>"] show ?thesis
      by (simp add: read_price_def)
  next
    case (timer_strand k ts now rnd)
    with unrest_timer_task [OF timer_strand(3)] show ?thesis
      by (simp add: Suc_le_eq del: run_timer_task.simps)
  next
    case (complete i err bs)
    with assms(2) obtain e' where "err = Some e'" by auto
    with complete unrest_complete [OF complete(3), of "bill_of w s" bo e' bs] show ?thesis
      by (simp add: unrest_at_def Suc_le_eq)
  next
    case (timer_done err)
    from unrest_timer_done [OF timer_done(3), of "bill_of w s" err] show ?thesis
      by (simp only: timer_done unrest_at_def expiry.simps)
  qed (use assms(2) in simp_all)
  with bill_step [OF assms] show ?thesis by (simp add: unrest_at_def)
qed

lemma rest_or_step:
  assumes "\<not> at_rest s"
  shows "\<exists>e t. winding e \<and> \<not> expiry e \<and> session_exec bo s e = Some t"
proof -
  consider (tasks) "socketStrand s \<noteq> []" | (reads) "readStrand s \<noteq> []" | (timers) "readTimerStrand s \<noteq> []"
    | (ops) "pendingOps s \<noteq> []" | (waits) "0 < timerWaits s"
    using assms by (auto simp: at_rest_def)
  then show ?thesis
  proof cases
    case tasks
    then show ?thesis by (intro exI [of _ SocketStrand]) (auto simp: neq_Nil_conv)
  next
    case reads
    then show ?thesis by (intro exI [of _ ReadStrand]) (auto simp: neq_Nil_conv)
  next
    case timers
    then show ?thesis by (intro exI [of _ "TimerStrand 0 0"]) (auto simp: neq_Nil_conv)
  next
    case ops
    then show ?thesis by (intro exI [of _ "Complete 0 (Some OperationAborted) []"]) simp
  next
    case waits
    then show ?thesis by (intro exI [of _ "TimerDone (Some OperationAborted)"]) simp
  qed
qed

lemma rest_iff_stuck: "at_rest s \<longleftrightarrow> (\<forall>e. winding e \<longrightarrow> session_exec bo s e = None)"
proof
  assume "at_rest s"
  show "\<forall>e. winding e \<longrightarrow> session_exec bo s e = None"
  proof (intro allI impI)
    fix e :: "'a event" assume "winding e"
    with \<open>at_rest s\<close> show "session_exec bo s e = None" by (cases e) (simp_all add: at_rest_def)
  qed
next
  assume "\<forall>e. winding e \<longrightarrow> session_exec bo s e = None"
  then show "at_rest s" using rest_or_step [of s bo] by fastforce
qed

interpretation session_rest:
  winding_down "session_exec bo" "\<lambda>_. True" winding "\<lambda>e. 8 * of_bool (expiry e)" unrest at_rest for bo
proof unfold_locales
  show "Suc (unrest t) \<le> unrest s + 8 * of_bool (expiry e)" if "winding e" "session_exec bo s e = Some t"
    for e :: "'a event" and s t
    unfolding unrest_def by (rule unrest_step) (use that in \<open>simp_all add: session_exec_step\<close>)
  show "\<exists>e t. winding e \<and> 8 * of_bool (expiry e) = (0 :: nat) \<and> session_exec bo s e = Some t" if "\<not> at_rest s"
    for s :: "'a session"
    using rest_or_step [OF that, of bo] by auto
qed simp

section \<open>Property\<close>

definition expiries :: "'x event list \<Rightarrow> nat" where
  "expiries es = length (filter expiry es)"

lemma sum_expiries: "sum_list (map (\<lambda>e. 8 * of_bool (expiry e)) es) = 8 * expiries es"
  by (induction es) (simp_all add: expiries_def)

text \<open>C12. A session comes to rest: from any state, once nothing calls it any more and every operation ends
  with an error, as after its socket is closed, it takes at most \<open>unrest\<close> steps and eight for every wait
  of the read timer that expires undisturbed; as long as it is not at rest it can go on; and it can
  reach rest, where no operation, wait or task is left that holds it, without such an expiry.\<close>

theorem session_comes_to_rest:
  "(\<forall>es t. run (session_exec bo) s es = Some t \<and> list_all winding es \<longrightarrow>
      length es + unrest t \<le> unrest s + 8 * expiries es \<and>
      (at_rest t \<longleftrightarrow> (\<forall>e. winding e \<longrightarrow> session_exec bo t e = None))) \<and>
   (\<exists>es t. run (session_exec bo) s es = Some t \<and> list_all winding es \<and> expiries es = 0 \<and>
      length es \<le> unrest s \<and> at_rest t)"
proof (intro conjI allI impI)
  fix es t
  assume "run (session_exec bo) s es = Some t \<and> list_all winding es"
  then show "length es + unrest t \<le> unrest s + 8 * expiries es" using session_rest.run_bound sum_expiries by metis
  show "at_rest t \<longleftrightarrow> (\<forall>e. winding e \<longrightarrow> session_exec bo t e = None)" by (rule rest_iff_stuck)
next
  obtain es t where es: "run (session_exec bo) s es = Some t" "list_all winding es" "8 * expiries es = 0" "at_rest t"
    using session_rest.comes_to_rest [OF TrueI, of bo s] sum_expiries by metis
  with session_rest.run_bound [OF TrueI es(1,2)] show "\<exists>es t. run (session_exec bo) s es = Some t \<and> list_all winding es \<and>
      expiries es = 0 \<and> length es \<le> unrest s \<and> at_rest t"
    by (intro exI [of _ es] exI [of _ t]) (simp add: sum_expiries)
qed

text \<open>A session that is dropped while its timer has just expired: the ping goes to the closed socket, and
  the timer is started again behind the cancellation, so that it runs although the session is closed;
  the failed write closes it for good.\<close>

definition dropped_at_expiry :: "'x event list" where
  "dropped_at_expiry = handshake_events ClientSide @ [TimerStrand 5 0, TimerStrand 5 225, TimerDone None, Drop,
     SocketStrand, SocketStrand, TimerStrand 6 0, TimerStrand 7 0, TimerStrand 8 330, SocketStrand]"

lemma closed_session_pings:
  "\<exists>s. run (session_exec bo) Session_create dropped_at_expiry = Some s \<and> \<not> isConnected s \<and> timerWaits s = 1 \<and>
     socketStrand s = [] \<and> issued s = [SetNoDelay, AsyncHandshake ClientSide, AsyncReadHeader HeaderSize, TimerExpires 225,
       TimerWait, SocketCancel, SocketShutdown, SocketClose, TimerCancel, TimerExpires 330, TimerWait,
       AsyncWrite (Message_of_type Ping)]"
  by (simp add: run_simps dropped_at_expiry_def elapsed_ms_def MaxTimeOut_def PingTimeOut_def)

definition last_steps :: "'x event list" where
  "last_steps = [Complete 0 (Some (OtherError 9)) [], Complete 0 (Some (OtherError 9)) [], SocketStrand, SocketStrand,
     TimerStrand 9 0, TimerStrand 9 0, TimerStrand 9 0, TimerDone (Some OperationAborted), SocketStrand, SocketStrand]"

lemma rest_run:
  "\<exists>s t :: nat session. run (session_exec LittleEndian) Session_create dropped_at_expiry = Some s \<and>
     run (session_exec LittleEndian) s last_steps = Some t \<and> at_rest t \<and> unrest s = 10 \<and> unrest t = 0"
  by (simp add: run_simps dropped_at_expiry_def last_steps_def elapsed_ms_def MaxTimeOut_def PingTimeOut_def
      at_rest_def unrest_def unrest_at_def unrest_by_def bill_of_def handler_price_def)

theorem session_comes_to_rest_witness:
  "\<exists>s t :: nat session. session_reachable LittleEndian s \<and> unrest s = 10 \<and>
     run (session_exec LittleEndian) s last_steps = Some t \<and> at_rest t \<and>
     length (last_steps :: nat event list) + unrest t \<le> 10 \<and>
     (\<forall>e. winding e \<longrightarrow> session_exec LittleEndian t e = None)"
proof -
  obtain s t :: "nat session" where s: "run (session_exec LittleEndian) Session_create dropped_at_expiry = Some s"
    "run (session_exec LittleEndian) s last_steps = Some t" "at_rest t" "unrest s = 10" using rest_run by blast
  have w: "list_all winding (last_steps :: nat event list)" "expiries (last_steps :: nat event list) = 0"
    by (simp_all add: last_steps_def expiries_def)
  from session_comes_to_rest [of LittleEndian s] s(2) w(1)
  have "length (last_steps :: nat event list) + unrest t \<le> unrest s + 8 * expiries (last_steps :: nat event list)"
    "at_rest t \<longleftrightarrow> (\<forall>e. winding e \<longrightarrow> session_exec LittleEndian t e = None)" by blast+
  with s w(2) session_reachable_run [OF s(1)] show ?thesis by auto
qed

end
