(* ===== verification/ServerRest.thy ===== *)
theory ServerRest
  imports ServerProperties SessionRest
begin

text \<open>
  How a server comes to rest after \<open>stop\<close>.  The threads that \<open>stop\<close> joins return when the
  \<open>io_context\<close> has run out of work: no accept, no task of the manager, and nothing that any session
  still has to do.  The price of a session is that of \<open>SessionRest\<close>, with one step of the manager for
  each call of its handlers; a task that closes all members costs two further steps for each of them.
\<close>

section \<open>The work that is left\<close>

definition load :: "registration session \<Rightarrow> nat" where
  "load s = unrest_by (bill_of 1 s) (s\<lparr>extCalls := []\<rparr>)"

text \<open>The tasks of the manager, with the number of its members when the first of them runs.\<close>

fun strand_price :: "nat \<Rightarrow> (nat, nat) manager_task list \<Rightarrow> nat" where
  "strand_price n [] = 0"
| "strand_price n (Join k # ts) = Suc (strand_price (Suc n) ts)"
| "strand_price n (Leave k # ts) = Suc (strand_price n ts)"
| "strand_price n (ForEach f # ts) = Suc (2 * n + strand_price n ts)"

definition server_unrest :: "server \<Rightarrow> nat" where
  "server_unrest sv = sum_list (map load (sv_sessions sv)) +
     strand_price (length (sm_sessions (sv_manager sv))) (sm_strand (sv_manager sv)) + length (sv_accepted sv)"

fun server_winding :: "server_event \<Rightarrow> bool" where
  "server_winding (SvSession k e) \<longleftrightarrow> winding e"
| "server_winding SvManager \<longleftrightarrow> True"
| "server_winding (SvHandle i opt) \<longleftrightarrow> True"
| "server_winding e \<longleftrightarrow> False"

fun server_expiry :: "server_event \<Rightarrow> bool" where
  "server_expiry (SvSession k e) \<longleftrightarrow> expiry e"
| "server_expiry e \<longleftrightarrow> False"

definition accepts_aborted :: "server \<Rightarrow> bool" where
  "accepts_aborted sv \<longleftrightarrow> (\<forall>a\<in>set (sv_accepted sv). snd a = Some OperationAborted)"

definition stopping :: "server \<Rightarrow> bool" where
  "stopping sv \<longleftrightarrow> sv_accepts sv = [] \<and> accepts_aborted sv \<and> closes_only (sv_manager sv)"

definition server_at_rest :: "server \<Rightarrow> bool" where
  "server_at_rest sv \<longleftrightarrow> sv_accepts sv = [] \<and> sv_accepted sv = [] \<and> sm_strand (sv_manager sv) = [] \<and>
     list_all at_rest (sv_sessions sv)"

section \<open>Sessions\<close>

lemma load_unrest: "unrest_at (Suc 0) s = load s + length (extCalls s)"
  by (simp add: load_def unrest_at_def unrest_by_def)

lemma load_step:
  assumes "session_step bo s e t" "winding e"
  shows "Suc (load t + length (drop (length (extCalls s)) (extCalls t))) \<le> load s + 8 * of_bool (expiry e)"
proof -
  have "internal e" using assms(2) by (cases e) simp_all
  with calls_prefix [OF assms(1)] obtain new where "extCalls t = extCalls s @ new" by blast
  with unrest_step [OF assms, of 1] show ?thesis by (simp add: load_unrest)
qed

lemma load_close: "load (close s) = load s + 2"
proof -
  have b: "boundary (close s) = boundary s" by simp
  then have "bill_of 1 (close s) = bill_of 1 s" "extCalls (close s) = extCalls s"
    by (simp_all add: boundary_def bill_of_def)
  then have "unrest_at 1 (close s) = unrest_at 1 s + 2" by (simp add: unrest_at_def)
  with \<open>extCalls (close s) = extCalls s\<close> show ?thesis by (simp add: load_unrest)
qed

lemma sum_update:
  fixes f :: "'a \<Rightarrow> nat"
  assumes "k < length xs"
  shows "sum_list (map f (xs[k := x])) + f (xs ! k) = sum_list (map f xs) + f x"
  using assms by (induction xs arbitrary: k) (auto split: nat.split)

lemma load_closes:
  "sum_list (map load (sv_sessions (fold close_session ks sv))) \<le> sum_list (map load (sv_sessions sv)) + 2 * length ks"
proof (induction ks arbitrary: sv)
  case (Cons k ks)
  have "sum_list (map load (sv_sessions (close_session k sv))) \<le> sum_list (map load (sv_sessions sv)) + 2"
  proof (cases "k < length (sv_sessions sv)")
    case True
    from sum_update [OF this, of load "close (sv_sessions sv ! k)"] show ?thesis
      by (simp add: close_session_def load_close)
  next
    case False
    then show ?thesis by (simp add: close_session_def list_update_beyond)
  qed
  with Cons [of "close_session k sv"] show ?case by simp
qed simp

lemma closes_frame:
  "sv_manager (fold close_session ks sv) = sv_manager sv" "sv_accepts (fold close_session ks sv) = sv_accepts sv"
  "sv_accepted (fold close_session ks sv) = sv_accepted sv"
  by (induction ks arbitrary: sv) (simp_all add: close_session_def)

section \<open>The manager\<close>

lemma strand_price_mono: "m \<le> n \<Longrightarrow> strand_price m ts \<le> strand_price n ts"
proof (induction ts arbitrary: m n)
  case (Cons t ts)
  then show ?case by (cases t) (simp_all add: add_mono)
qed simp

lemma strand_price_append: "(\<forall>f. t \<noteq> ForEach f) \<Longrightarrow> strand_price n (ts @ [t]) = Suc (strand_price n ts)"
proof (induction ts arbitrary: n)
  case Nil
  then show ?case by (cases t) simp_all
next
  case (Cons u ts)
  then show ?case by (cases u) simp_all
qed

lemma register_price:
  "sm_sessions (fold (register k) calls m) = sm_sessions m \<and>
   strand_price n (sm_strand (fold (register k) calls m)) = strand_price n (sm_strand m) + length calls"
proof (induction calls arbitrary: m)
  case (Cons c calls)
  have "sm_sessions (register k c m) = sm_sessions m"
    "strand_price n (sm_strand (register k c m)) = Suc (strand_price n (sm_strand m))"
    by (cases c; simp add: SessionManager_join_def SessionManager_leave_def sm_post_def strand_price_append)+
  with Cons show ?case by simp
qed simp

lemma manager_price:
  assumes "manager_exec m MStrand = Some m'" "closes_only m"
  shows "Suc (strand_price (length (sm_sessions m')) (sm_strand m') +
      2 * length (drop (length (sm_effects m)) (sm_effects m'))) \<le> strand_price (length (sm_sessions m)) (sm_strand m)"
proof -
  obtain t ts ss xs where m: "sm_strand m = t # ts"
    "run_manager_task t (sm_sessions m, sm_effects m) = (ss, xs)"
    "m' = m\<lparr>sm_strand := ts, sm_sessions := ss, sm_effects := xs\<rparr>" using manager_run [OF assms(1)] .
  show ?thesis
  proof (cases t)
    case (Leave k)
    then have "length (erase_if (\<lambda>s. s = k) (sm_sessions m)) \<le> length (sm_sessions m)" by (simp add: erase_if_def)
    with Leave m strand_price_mono show ?thesis by auto
  next
    case (ForEach f)
    with assms(2) m(1) have "f = close_function" by (simp add: closes_only_def)
    moreover have "concat (map close_function ks) = ks" for ks
      by (induction ks) (simp_all add: close_function_def)
    ultimately show ?thesis using ForEach m by auto
  qed (use m in auto)
qed

section \<open>Every event\<close>

lemma server_winds:
  assumes "stopping sv" "server_winding e" "server_exec bo sv e = Some sv'"
  shows "stopping sv' \<and> Suc (server_unrest sv') \<le> server_unrest sv + 8 * of_bool (server_expiry e)"
proof (cases e)
  case (SvHandle i opt)
  with assms(3) have i: "i < length (sv_accepted sv)" by (auto split: if_splits)
  then have "snd (sv_accepted sv ! i) = Some OperationAborted"
    using assms(1) by (simp add: stopping_def accepts_aborted_def)
  then have sv': "sv' = sv\<lparr>sv_accepted := remove_at i (sv_accepted sv)\<rparr>"
    using assms(3) i SvHandle by (auto simp: handleAccept_def split: prod.splits)
  have "accepts_aborted sv'" using assms(1)
    by (auto simp: sv' stopping_def accepts_aborted_def remove_at_def dest: in_set_takeD in_set_dropD)
  with assms(1) i SvHandle show ?thesis by (simp add: sv' stopping_def server_unrest_def length_remove_at)
next
  case (SvSession k ev)
  with assms(2,3) obtain s where s: "k < length (sv_sessions sv)" "winding ev"
    "session_step bo (sv_sessions sv ! k) ev s"
    "sv' = forward k (drop (length (extCalls (sv_sessions sv ! k))) (extCalls s)) (sv\<lparr>sv_sessions := (sv_sessions sv)[k := s]\<rparr>)"
    by (auto simp: session_exec_step split: if_splits option.splits)
  from load_step [OF s(3,2)] sum_update [OF s(1), of load s] assms(1) SvSession show ?thesis
    by (simp add: s(4) forward_def stopping_def accepts_aborted_def closes_registers server_unrest_def register_price)
next
  case SvManager
  then obtain m where m: "manager_exec (sv_manager sv) MStrand = Some m"
    "sv' = fold close_session (drop (length (sm_effects (sv_manager sv))) (sm_effects m)) (sv\<lparr>sv_manager := m\<rparr>)"
    using assms(3) by (auto split: option.splits simp del: manager_exec.simps)
  have c: "closes_only (sv_manager sv)" using assms(1) by (simp add: stopping_def)
  from manager_price [OF m(1) c] known_run(2) [OF m(1) c] assms(1) SvManager
    load_closes [of "drop (length (sm_effects (sv_manager sv))) (sm_effects m)" "sv\<lparr>sv_manager := m\<rparr>"]
  show ?thesis by (simp add: m(2) stopping_def accepts_aborted_def server_unrest_def closes_frame)
qed (use assms(2) in simp_all)

lemma server_goes_on:
  assumes "stopping sv" "\<not> server_at_rest sv"
  shows "\<exists>e sv'. server_winding e \<and> \<not> server_expiry e \<and> server_exec bo sv e = Some sv'"
proof -
  consider (accepted) "sv_accepted sv \<noteq> []" | (manager) "sm_strand (sv_manager sv) \<noteq> []"
    | (session) k where "k < length (sv_sessions sv)" "\<not> at_rest (sv_sessions sv ! k)"
    using assms by (auto simp: server_at_rest_def stopping_def list_all_length)
  then show ?thesis
  proof cases
    case accepted
    then show ?thesis by (intro exI [of _ "SvHandle 0 None"]) simp
  next
    case manager
    then obtain m where "manager_exec (sv_manager sv) MStrand = Some m"
      by (cases "sm_strand (sv_manager sv)"; cases "run_manager_task (hd (sm_strand (sv_manager sv)))
        (sm_sessions (sv_manager sv), sm_effects (sv_manager sv))") auto
    then show ?thesis by (intro exI [of _ SvManager]) (simp del: manager_exec.simps)
  next
    case session
    from rest_or_step [OF session(2), of bo] obtain e s where e: "winding e" "\<not> expiry e"
      "session_exec bo (sv_sessions sv ! k) e = Some s" by blast
    moreover have "internal e" using e(1) by (cases e) simp_all
    ultimately show ?thesis using session(1) by (intro exI [of _ "SvSession k e"]) simp
  qed
qed

interpretation server_rest:
  winding_down "server_exec bo" stopping server_winding "\<lambda>e. 8 * of_bool (server_expiry e)" server_unrest server_at_rest
  for bo
proof unfold_locales
  fix sv sv' e
  assume w: "stopping sv" "server_winding e" "server_exec bo sv e = Some sv'"
  from server_winds [OF w] show "stopping sv'" "Suc (server_unrest sv') \<le> server_unrest sv + 8 * of_bool (server_expiry e)"
    by simp_all
next
  show "\<exists>e t. server_winding e \<and> 8 * of_bool (server_expiry e) = (0 :: nat) \<and> server_exec bo sv e = Some t"
    if "stopping sv" "\<not> server_at_rest sv" for sv
    using server_goes_on [OF that, of bo] by auto
qed

end
