(* ===== verification/ServerStops.thy ===== *)
theory ServerStops
  imports ServerRest
begin

text \<open>
  What \<open>Server::stop\<close> reaches: every session that is registered when it is called, or whose \<open>join\<close> has
  been called, is closed by the time the manager's strand has run the posted task, whatever happens in
  between; and once the operations of the sessions fail, the server runs out of work.
\<close>

section \<open>Sessions to be closed\<close>

text \<open>The members that the tasks of the strand will still visit.\<close>

fun due :: "nat list \<Rightarrow> (nat, nat) manager_task list \<Rightarrow> nat list" where
  "due ss [] = []"
| "due ss (Join k # ts) = due (ss @ [k]) ts"
| "due ss (Leave k # ts) = due (erase_if (\<lambda>s. s = k) ss) ts"
| "due ss (ForEach f # ts) = ss @ due ss ts"

definition due_of :: "server \<Rightarrow> nat set" where
  "due_of sv = set (due (sm_sessions (sv_manager sv)) (sm_strand (sv_manager sv)))"

definition closing :: "nat set \<Rightarrow> server \<Rightarrow> bool" where
  "closing ks sv \<longleftrightarrow> (\<forall>k\<in>ks. k < length (sv_sessions sv) \<and> JoinCall \<in> set (extCalls (sv_sessions sv ! k)) \<and>
     (isConnected (sv_sessions sv ! k) \<longrightarrow> k \<in> due_of sv))"

lemma due_append: "set (due ss ts) \<subseteq> set (due ss (ts @ us))"
  by (induction ss ts rule: due.induct) auto

lemma due_forEach: "set (due ss (ts @ [ForEach f])) \<supseteq> set (fst (fold run_manager_task ts (ss, xs)))"
proof (induction ts arbitrary: ss xs)
  case (Cons t ts)
  then show ?case by (cases t) auto
qed simp

lemma due_registers: "due_of sv \<subseteq> due_of (forward k calls sv)"
proof (induction calls arbitrary: sv)
  case (Cons c calls)
  have "due_of sv \<subseteq> due_of (forward k [c] sv)"
    by (cases c) (simp_all add: due_of_def forward_def SessionManager_join_def SessionManager_leave_def sm_post_def due_append)
  also have "\<dots> \<subseteq> due_of (forward k calls (forward k [c] sv))" by (rule Cons.IH)
  also have "forward k calls (forward k [c] sv) = forward k (c # calls) sv" by (simp add: forward_def)
  finally show ?case .
qed (simp add: forward_def)

section \<open>A closed session stays closed\<close>

lemma connected_task:
  assumes "task_shakes t = 0" "isConnected (run_socket_task t s)"
  shows "isConnected s"
proof (cases "task_phase t = []")
  case True
  with assms calm_socket_task [of t s] show ?thesis by (cases t) (auto simp: calm_def)
next
  case False
  have "isConnected (onMessageReceived m u) = isConnected u" for m and u :: "'a session"
    by (auto simp: onMessageReceived_cases send_message_def writeNext_def post_socket_def Let_def
        split: list.split option.split)
  moreover have "isConnected (cancelReadTimer s) = isConnected s" by (simp add: cancelReadTimer_def post_timer_def)
  moreover have "\<not> isConnected (close u)" for u :: "'a session" by (simp add: close_spec)
  ultimately show ?thesis using False assms
    by (cases t) (auto simp: handleReadHeader_def handleReadBody_def Let_def split: if_splits)
qed

lemma connected_step:
  assumes "session_step bo s e t" "internal e" "lf_shakes (session_life s) = 0" "isConnected t"
  shows "isConnected s"
  using assms(1)
proof cases
  case (socket_strand k ts)
  then have "task_shakes k = 0" using assms(3) by (simp add: session_life_def)
  from connected_task [OF this] socket_strand assms(4) show ?thesis by fastforce
next
  case (read_strand h p ts)
  with assms(4) calm_run_calls [of "s\<lparr>readStrand := ts\<rparr>" "h p"] show ?thesis by (simp add: calm_def)
next
  case (timer_strand k ts now rnd)
  with assms(4) calm_timer [of "s\<lparr>readTimerStrand := ts\<rparr>" now rnd k] show ?thesis
    by (simp add: calm_def del: run_timer_task.simps)
next
  case (timer_done err)
  with assms(4) show ?thesis by (simp add: handleReadTimeOut_def post_timer_def split: if_splits)
qed (use assms(2,4) in \<open>simp_all add: post_socket_def\<close>)

section \<open>Every event of the server\<close>

text \<open>No event connects a session that has joined, or takes back its \<open>join\<close>.\<close>

definition tames :: "server \<Rightarrow> server \<Rightarrow> bool" where
  "tames sv sv' \<longleftrightarrow> (\<forall>k<length (sv_sessions sv). k < length (sv_sessions sv') \<and>
     (JoinCall \<in> set (extCalls (sv_sessions sv ! k)) \<longrightarrow> JoinCall \<in> set (extCalls (sv_sessions sv' ! k)) \<and>
       (isConnected (sv_sessions sv' ! k) \<longrightarrow> isConnected (sv_sessions sv ! k))))"

lemma tames_same: "sv_sessions sv' = sv_sessions sv @ new \<Longrightarrow> tames sv sv'"
  by (simp add: tames_def nth_append)

lemma closing_tamed: "closing ks sv \<Longrightarrow> tames sv sv' \<Longrightarrow> due_of sv \<subseteq> due_of sv' \<Longrightarrow> closing ks sv'"
  by (auto simp: closing_def tames_def)

lemma accept_sessions:
  "sv_sessions (Server_accept sv) = sv_sessions sv @ [new_session (receive_handler_of sv)]"
  "sv_manager (Server_accept sv) = sv_manager sv"
  by (simp_all add: Server_accept_def)

lemma start_sessions:
  "\<exists>new. sv_sessions (snd (Server_start ip port env sv)) = sv_sessions sv @ new"
  "sv_manager (snd (Server_start ip port env sv)) = sv_manager sv"
  by (auto simp: Server_start_def Let_def accept_sessions split: option.split)

lemma handle_sessions:
  assumes "JoinCall \<notin> set (extCalls (sv_sessions sv ! k))"
  shows "tames sv (fst (handleAccept k err opt sv))" "sv_manager (fst (handleAccept k err opt sv)) = sv_manager sv"
proof -
  show "sv_manager (fst (handleAccept k err opt sv)) = sv_manager sv"
    by (simp add: handleAccept_def accept_sessions split: sum.split)
  show "tames sv (fst (handleAccept k err opt sv))"
  proof -
    have "tames sv (sv\<lparr>sv_sessions := (sv_sessions sv)[k := s] @ new\<rparr>)" for s new
      unfolding tames_def
    proof (intro allI impI)
      fix j assume "j < length (sv_sessions sv)"
      then show "j < length (sv_sessions (sv\<lparr>sv_sessions := (sv_sessions sv)[k := s] @ new\<rparr>)) \<and>
          (JoinCall \<in> set (extCalls (sv_sessions sv ! j)) \<longrightarrow>
            JoinCall \<in> set (extCalls (sv_sessions (sv\<lparr>sv_sessions := (sv_sessions sv)[k := s] @ new\<rparr>) ! j)) \<and>
            (isConnected (sv_sessions (sv\<lparr>sv_sessions := (sv_sessions sv)[k := s] @ new\<rparr>) ! j) \<longrightarrow>
              isConnected (sv_sessions sv ! j)))"
        using assms by (cases "j = k") (simp_all add: nth_append)
    qed
    then have "tames sv v" if "sv_sessions v = (sv_sessions sv)[k := s] @ new" for v s new
      using that by (simp add: tames_def)
    moreover have "tames sv v" if "sv_sessions v = sv_sessions sv @ new" for v new using that by (rule tames_same)
    ultimately show ?thesis by (auto simp: handleAccept_def accept_sessions split: sum.split)
  qed
qed

lemma closes_sessions:
  "length (sv_sessions (fold close_session js sv)) = length (sv_sessions sv)"
  "k < length (sv_sessions sv) \<Longrightarrow> extCalls (sv_sessions (fold close_session js sv) ! k) = extCalls (sv_sessions sv ! k)"
  "k < length (sv_sessions sv) \<Longrightarrow> isConnected (sv_sessions (fold close_session js sv) ! k) \<longleftrightarrow>
     isConnected (sv_sessions sv ! k) \<and> k \<notin> set js"
proof (induction js arbitrary: sv)
  case (Cons j js)
  have c: "extCalls (close s) = extCalls s" "\<not> isConnected (close s)" for s :: "registration session"
    using boundary_quiet(4) [of s] by (simp_all add: boundary_def close_spec)
  have j: "length (sv_sessions (close_session j v)) = length (sv_sessions v)"
    "k < length (sv_sessions v) \<Longrightarrow> extCalls (sv_sessions (close_session j v) ! k) = extCalls (sv_sessions v ! k)"
    "k < length (sv_sessions v) \<Longrightarrow> isConnected (sv_sessions (close_session j v) ! k) \<longleftrightarrow>
       isConnected (sv_sessions v ! k) \<and> k \<noteq> j" for v
    by (cases "k = j"; simp add: close_session_def c)+
  case 1
  show ?case using Cons.IH(1) [of "close_session j sv"] j(1) [of sv] by simp
  case 2
  then show ?case using Cons.IH(2) [of "close_session j sv"] j(1,2) [of sv] by simp
  case 3
  then show ?case using Cons.IH(3) [of "close_session j sv"] j(1,3) [of sv] by auto
qed simp_all

lemma manager_due:
  assumes "manager_exec m MStrand = Some m'" "closes_only m"
  shows "set (due (sm_sessions m) (sm_strand m)) \<subseteq>
    set (drop (length (sm_effects m)) (sm_effects m')) \<union> set (due (sm_sessions m') (sm_strand m'))"
proof -
  obtain t ts ss xs where m: "sm_strand m = t # ts"
    "run_manager_task t (sm_sessions m, sm_effects m) = (ss, xs)"
    "m' = m\<lparr>sm_strand := ts, sm_sessions := ss, sm_effects := xs\<rparr>" using manager_run [OF assms(1)] .
  show ?thesis
  proof (cases t)
    case (ForEach f)
    with assms(2) m(1) have "f = close_function" by (simp add: closes_only_def)
    moreover have "concat (map close_function ks) = ks" for ks
      by (induction ks) (simp_all add: close_function_def)
    ultimately show ?thesis using ForEach m by auto
  qed (use m in auto)
qed

lemma closing_manager:
  assumes "closing ks sv" "manager_exec (sv_manager sv) MStrand = Some m" "closes_only (sv_manager sv)"
  shows "closing ks (fold close_session (drop (length (sm_effects (sv_manager sv))) (sm_effects m)) (sv\<lparr>sv_manager := m\<rparr>))"
  using assms(1) manager_due [OF assms(2,3)]
  by (fastforce simp: closing_def closes_sessions due_of_def closes_frame)

lemma waiting_unjoined:
  assumes "server_inv create sv" "i < length (sv_accepted sv)" "sv_accepted sv ! i = (k, err)"
  shows "JoinCall \<notin> set (extCalls (sv_sessions sv ! k))"
proof -
  have "k \<in> set (waiting sv)" using nth_mem [OF assms(2)] assms(3) by (force simp: waiting_def)
  with assms(1) show ?thesis by (auto simp: server_inv_def waiting_ok_def)
qed

lemma session_tames:
  assumes "server_inv create sv" "k < length (sv_sessions sv)" "session_step bo (sv_sessions sv ! k) e s" "internal e"
  shows "tames sv (forward k calls (sv\<lparr>sv_sessions := (sv_sessions sv)[k := s]\<rparr>))"
proof -
  let ?s = "sv_sessions sv ! k"
  obtain new where new: "extCalls s = extCalls ?s @ new" using calls_prefix [OF assms(3,4)] by blast
  have "isConnected s \<longrightarrow> isConnected ?s" if "JoinCall \<in> set (extCalls ?s)"
  proof -
    have "running (handler_for create k) ?s"
      using joined_running [OF _ that] assms(1,2) by (auto simp: server_inv_def sessions_ok_def)
    then have "lf_shakes (session_life ?s) = 0" by (simp add: running_def lively_def)
    with connected_step [OF assms(3,4)] show ?thesis by blast
  qed
  with assms(2) new show ?thesis by (auto simp: tames_def forward_def nth_list_update)
qed

lemma closing_exec:
  assumes inv: "server_inv create sv" and cl: "closing ks sv" and ex: "server_exec bo sv e = Some sv'"
  shows "closing ks sv'"
proof (cases e)
  case (SvStart ip port env)
  with ex have "sv' = snd (Server_start ip port env sv)" by simp
  with start_sessions [of ip port env sv] tames_same closing_tamed [OF cl] show ?thesis by (force simp: due_of_def)
next
  case (SvStop ec)
  with ex have "sv_sessions sv' = sv_sessions sv @ []" "sv_manager sv' = SessionManager_forEach close_function (sv_manager sv)"
    by (auto simp: Server_stop_def Let_def)
  then show ?thesis
    by (intro closing_tamed [OF cl] tames_same) (simp_all add: due_of_def SessionManager_forEach_def sm_post_def due_append)
next
  case (SvAccept i err)
  with ex have "sv_sessions sv' = sv_sessions sv @ []" "sv_manager sv' = sv_manager sv" by (auto split: if_splits)
  then show ?thesis by (intro closing_tamed [OF cl] tames_same) (simp_all add: due_of_def)
next
  case (SvHandle i opt)
  obtain k err where a: "sv_accepted sv ! i = (k, err)" by fastforce
  with ex SvHandle have i: "i < length (sv_accepted sv)"
    "sv' = fst (handleAccept k err opt (sv\<lparr>sv_accepted := remove_at i (sv_accepted sv)\<rparr>))" by (auto split: if_splits)
  let ?sv = "sv\<lparr>sv_accepted := remove_at i (sv_accepted sv)\<rparr>"
  have "JoinCall \<notin> set (extCalls (sv_sessions ?sv ! k))" using waiting_unjoined [OF inv i(1) a] by simp
  from handle_sessions [OF this, of err opt] i(2) show ?thesis
    by (intro closing_tamed [OF cl]) (simp_all add: tames_def due_of_def)
next
  case (SvSession k ev)
  with ex obtain s where s: "k < length (sv_sessions sv)" "internal ev" "session_step bo (sv_sessions sv ! k) ev s"
    "sv' = forward k (drop (length (extCalls (sv_sessions sv ! k))) (extCalls s)) (sv\<lparr>sv_sessions := (sv_sessions sv)[k := s]\<rparr>)"
    by (auto simp: session_exec_step split: if_splits option.splits)
  have "due_of sv = due_of (sv\<lparr>sv_sessions := (sv_sessions sv)[k := s]\<rparr>)" by (simp add: due_of_def)
  with due_registers session_tames [OF inv s(1,3,2)] s(4) show ?thesis
    by (intro closing_tamed [OF cl]) simp_all
next
  case SvManager
  then obtain m where m: "manager_exec (sv_manager sv) MStrand = Some m"
    "sv' = fold close_session (drop (length (sm_effects (sv_manager sv))) (sm_effects m)) (sv\<lparr>sv_manager := m\<rparr>)"
    using ex by (auto split: option.splits simp del: manager_exec.simps)
  have "closes_only (sv_manager sv)" using inv by (simp add: server_inv_def manager_ok_def)
  from closing_manager [OF cl m(1) this] m(2) show ?thesis by simp
qed

text \<open>The sessions whose \<open>join\<close> has been called and whose close handler has not run.\<close>

definition joined :: "server \<Rightarrow> nat set" where
  "joined sv = {k. k < length (sv_sessions sv) \<and> extCalls (sv_sessions sv ! k) = [JoinCall]}"

lemma stop_closing:
  assumes "server_inv create sv"
  shows "closing (joined sv) (snd (Server_stop ec sv))"
proof -
  let ?m = "sv_manager sv"
  have "k \<in> set (due (sm_sessions ?m) (sm_strand ?m @ [ForEach close_function]))" if "k \<in> joined sv" for k
  proof -
    have "count_list (fst (settled ?m)) k = 1"
      using assms that by (simp add: server_inv_def manager_ok_def joined_def entries_def)
    then have "k \<in> set (fst (settled ?m))" by (metis count_list_0_iff zero_neq_one)
    with due_forEach [of "sm_strand ?m" "sm_sessions ?m" "sm_effects ?m" close_function] show ?thesis
      by (auto simp: settled_def)
  qed
  then show ?thesis
    by (auto simp: closing_def Server_stop_def Let_def due_of_def SessionManager_forEach_def sm_post_def joined_def)
qed

lemma stopped_run:
  assumes "server_reachable create bo sv" "run (server_exec bo) (snd (Server_stop ec sv)) es = Some t"
  shows "server_inv create t" "closing (joined sv) t"
proof -
  have inv: "server_inv create sv" by (rule server_safe.reachable_inv [OF assms(1)])
  have "server_inv create t \<and> closing (joined sv) t"
    by (rule run_invariant [OF assms(2)])
      (use stop_inv [OF inv] stop_closing [OF inv] in \<open>auto intro: server_inv_exec closing_exec\<close>)
  then show "server_inv create t" "closing (joined sv) t" by simp_all
qed

lemma stopped_member:
  assumes "server_reachable create bo sv" "run (server_exec bo) (snd (Server_stop ec sv)) es = Some t"
    and "sm_strand (sv_manager t) = []" "k \<in> joined sv"
  shows "k < length (sv_sessions t)" "\<not> isConnected (sv_sessions t ! k)"
    and "running (handler_for create k) (sv_sessions t ! k)" "JoinCall \<in> set (extCalls (sv_sessions t ! k))"
proof -
  note st = stopped_run [OF assms(1,2)]
  show k: "k < length (sv_sessions t)" "JoinCall \<in> set (extCalls (sv_sessions t ! k))"
    and "\<not> isConnected (sv_sessions t ! k)"
    using st(2) assms(3,4) by (auto simp: closing_def due_of_def)
  show "running (handler_for create k) (sv_sessions t ! k)"
    using joined_running [OF _ k(2)] st(1) k(1) by (auto simp: server_inv_def sessions_ok_def)
qed

lemma closed_once:
  assumes "running rh s" "\<not> isConnected s"
  shows "close_count s + count_list (socketStrand s) RunClose = 1"
  using assms by (simp add: running_def lively_def session_life_def)

lemma closed_calls:
  assumes "running rh s" "close_count s = 1" "JoinCall \<in> set (extCalls s)"
  shows "entries (extCalls s) = 0"
  using assms by (auto simp: running_def wired_def entries_def)

section \<open>Properties\<close>

text \<open>C13. \<open>stop\<close> reaches every registered session: take a session whose \<open>join\<close> has been called and whose
  close handler has not run when \<open>stop\<close> is called; whatever the server, its sessions, further accepts
  and the peers do afterwards, as soon as the manager has run its posted tasks the session is
  disconnected, and its socket has been closed exactly once or its close task is posted.\<close>

theorem stop_closes_registered:
  assumes "server_reachable create bo sv" "k < length (sv_sessions sv)" "extCalls (sv_sessions sv ! k) = [JoinCall]"
    and "run (server_exec bo) (snd (Server_stop ec sv)) es = Some t" "sm_strand (sv_manager t) = []"
  shows "k < length (sv_sessions t) \<and> \<not> isConnected (sv_sessions t ! k) \<and>
    close_count (sv_sessions t ! k) + count_list (socketStrand (sv_sessions t ! k)) RunClose = 1"
proof -
  have "k \<in> joined sv" using assms(2,3) by (simp add: joined_def)
  note m = stopped_member [OF assms(1,4,5) this]
  from m(1,2) closed_once [OF m(3,2)] show ?thesis by blast
qed

definition server_expiries :: "server_event list \<Rightarrow> nat" where
  "server_expiries es = length (filter server_expiry es)"

lemma sum_server_expiries: "sum_list (map (\<lambda>e. 8 * of_bool (server_expiry e)) es) = 8 * server_expiries es"
  by (induction es) (simp_all add: server_expiries_def)

text \<open>C14. A stopped server runs out of work: if no completed accept waits for its handler when \<open>stop\<close> is
  called, and from then on the operations of the sessions end with errors, then it takes at most
  \<open>server_unrest\<close> steps and eight for each timer of a session that expires undisturbed; rest can be reached
  without such an expiry; and at rest nothing is left to do, so that the threads can be joined, and of
  the sessions registered when \<open>stop\<close> was called each has been closed once and is not registered any more.\<close>

theorem server_winds_down:
  assumes "server_reachable create bo sv" "accepts_aborted sv"
  shows "(\<forall>es t. run (server_exec bo) (snd (Server_stop ec sv)) es = Some t \<and> list_all server_winding es \<longrightarrow>
      length es + server_unrest t \<le> server_unrest (snd (Server_stop ec sv)) + 8 * server_expiries es \<and>
      (server_at_rest t \<longrightarrow> (\<forall>k<length (sv_sessions sv). extCalls (sv_sessions sv ! k) = [JoinCall] \<longrightarrow>
         close_count (sv_sessions t ! k) = 1 \<and> k \<notin> set (sm_sessions (sv_manager t))))) \<and>
    (\<exists>es t. run (server_exec bo) (snd (Server_stop ec sv)) es = Some t \<and> list_all server_winding es \<and>
      server_expiries es = 0 \<and> server_at_rest t)"
proof (intro conjI allI impI)
  let ?sv = "snd (Server_stop ec sv)"
  have inv: "server_inv create sv" by (rule server_safe.reachable_inv [OF assms(1)])
  have "closes_only (sv_manager ?sv)" using stop_inv [OF inv] by (simp add: server_inv_def manager_ok_def)
  then have st: "stopping ?sv" using assms(2)
    by (auto simp: stopping_def accepts_aborted_def Server_stop_def Let_def)
  show "\<exists>es t. run (server_exec bo) ?sv es = Some t \<and> list_all server_winding es \<and> server_expiries es = 0 \<and>
      server_at_rest t"
    using server_rest.comes_to_rest [OF st, of bo] sum_server_expiries by fastforce
  fix es t
  assume es: "run (server_exec bo) ?sv es = Some t \<and> list_all server_winding es"
  with server_rest.run_bound [OF st] sum_server_expiries
  show "length es + server_unrest t \<le> server_unrest ?sv + 8 * server_expiries es" by metis
  fix k
  assume rest: "server_at_rest t" and k: "k < length (sv_sessions sv)" "extCalls (sv_sessions sv ! k) = [JoinCall]"
  then have strand: "sm_strand (sv_manager t) = []" by (simp add: server_at_rest_def)
  have "k \<in> joined sv" using k by (simp add: joined_def)
  note m = stopped_member [OF assms(1) conjunct1 [OF es] strand this]
  have "socketStrand (sv_sessions t ! k) = []"
    using rest m(1) by (auto simp: server_at_rest_def list_all_length at_rest_def)
  with closed_once [OF m(3,2)] show closed: "close_count (sv_sessions t ! k) = 1" by simp
  have "count_list (sm_sessions (sv_manager t)) k = 0"
    using stopped_run(1) [OF assms(1) conjunct1 [OF es]] closed_calls [OF m(3) closed m(4)] m(1) strand
    by (simp add: server_inv_def manager_ok_def settled_def)
  then show "k \<notin> set (sm_sessions (sv_manager t))" by (simp add: count_list_0_iff)
qed

text \<open>A run: a server with one registered session is stopped, and comes to rest in twelve steps.\<close>

definition winding_events :: "server_event list" where
  "winding_events = [SvHandle 0 None, SvManager] @ map (SvSession 0) [TimerStrand 0 0, TimerStrand 0 0, TimerStrand 0 0,
     TimerDone (Some OperationAborted), SocketStrand, SocketStrand] @ [SvManager] @
     map (SvSession 0) [Complete 0 (Some OperationAborted) [], SocketStrand, TimerStrand 0 0]"

lemma stopped_server_run:
  "\<exists>sv t. run (server_exec LittleEndian) (Server_create None) (accept_events @ handshake_done @ [SvManager]) = Some sv \<and>
     length (sv_sessions sv) = 2 \<and> sv_accepted sv = [] \<and> extCalls (sv_sessions sv ! 0) = [JoinCall] \<and>
     run (server_exec LittleEndian) (snd (Server_stop None sv)) winding_events = Some t \<and>
     server_at_rest t \<and> sm_strand (sv_manager t) = []"
  by (simp add: run_simps good_start_def accept_events_def handshake_done_def winding_events_def server_at_rest_def
      at_rest_def Let_def)

theorem stop_closes_registered_witness:
  "\<exists>sv t. server_reachable None LittleEndian sv \<and> extCalls (sv_sessions sv ! 0) = [JoinCall] \<and>
     run (server_exec LittleEndian) (snd (Server_stop None sv)) winding_events = Some t \<and>
     \<not> isConnected (sv_sessions t ! 0)"
proof -
  obtain sv t where sv: "run (server_exec LittleEndian) (Server_create None) (accept_events @ handshake_done @ [SvManager]) = Some sv"
    "length (sv_sessions sv) = 2" "extCalls (sv_sessions sv ! 0) = [JoinCall]"
    "run (server_exec LittleEndian) (snd (Server_stop None sv)) winding_events = Some t" "sm_strand (sv_manager t) = []"
    using stopped_server_run by blast
  from stop_closes_registered [OF server_reachable_run [OF sv(1)] _ sv(3,4,5)] sv server_reachable_run [OF sv(1)]
  show ?thesis by auto
qed

theorem server_winds_down_witness:
  "\<exists>sv t. server_reachable None LittleEndian sv \<and> accepts_aborted sv \<and> extCalls (sv_sessions sv ! 0) = [JoinCall] \<and>
     run (server_exec LittleEndian) (snd (Server_stop None sv)) winding_events = Some t \<and> server_at_rest t \<and>
     12 + server_unrest t \<le> server_unrest (snd (Server_stop None sv)) \<and> close_count (sv_sessions t ! 0) = 1"
proof -
  obtain sv t where sv: "run (server_exec LittleEndian) (Server_create None) (accept_events @ handshake_done @ [SvManager]) = Some sv"
    "length (sv_sessions sv) = 2" "sv_accepted sv = []" "extCalls (sv_sessions sv ! 0) = [JoinCall]"
    "run (server_exec LittleEndian) (snd (Server_stop None sv)) winding_events = Some t" "server_at_rest t"
    using stopped_server_run by blast
  have a: "accepts_aborted sv" using sv(3) by (simp add: accepts_aborted_def)
  have w: "list_all server_winding winding_events" "server_expiries winding_events = 0" "length winding_events = 12"
    by (simp_all add: winding_events_def server_expiries_def)
  note down = conjunct1 [OF server_winds_down [OF server_reachable_run [OF sv(1)] a, of None], rule_format,
      OF conjI [OF sv(5) w(1)]]
  from down sv w a server_reachable_run [OF sv(1)] show ?thesis by fastforce
qed

end
