(* ===== verification/AcceptLoop.thy ===== *)
theory AcceptLoop
  imports ServerStops
begin

text \<open>
  The accept loop of a server that has started and is not stopped: exactly one accept is under way, for
  the session created last, as long as no accept is aborted and no call of \<open>open\<close> throws;
  and what becomes of the loop when \<open>stop\<close> comes between an accept and its handler.
\<close>

fun steady :: "server_event \<Rightarrow> bool" where
  "steady (SvStart ip port env) \<longleftrightarrow> False"
| "steady (SvStop ec) \<longleftrightarrow> False"
| "steady (SvAccept i err) \<longleftrightarrow> err \<noteq> Some OperationAborted"
| "steady (SvHandle i opt) \<longleftrightarrow> opt = None"
| "steady e \<longleftrightarrow> True"

definition server_started :: "(nat \<Rightarrow> handler_mapper option) option \<Rightarrow> server \<Rightarrow> bool" where
  "server_started create sv \<longleftrightarrow> (\<exists>ip port env. Server_start ip port env (Server_create create) = (Inr True, sv))"

definition server_next_steady :: "byte_order \<Rightarrow> server \<Rightarrow> server \<Rightarrow> bool" where
  "server_next_steady bo sv sv' \<longleftrightarrow> (\<exists>e. steady e \<and> server_exec bo sv e = Some sv')"

definition one_accept :: "nat \<Rightarrow> server \<Rightarrow> bool" where
  "one_accept k sv \<longleftrightarrow> sv_accepts sv = [k] \<and> sv_accepted sv = [] \<or>
     sv_accepts sv = [] \<and> (\<exists>err. sv_accepted sv = [(k, err)] \<and> err \<noteq> Some OperationAborted)"

definition loop_ok :: "(nat \<Rightarrow> handler_mapper option) option \<Rightarrow> server \<Rightarrow> bool" where
  "loop_ok create sv \<longleftrightarrow> server_inv create sv \<and>
     (\<exists>k. Suc k = length (sv_sessions sv) \<and> one_accept k sv)"

lemma one_accept_frame:
  "sv_accepts sv' = sv_accepts sv \<Longrightarrow> sv_accepted sv' = sv_accepted sv \<Longrightarrow> one_accept k sv' = one_accept k sv"
  by (simp add: one_accept_def)

lemma loop_frame:
  assumes "loop_ok create sv" "server_inv create sv'" "length (sv_sessions sv') = length (sv_sessions sv)"
    and "sv_accepts sv' = sv_accepts sv" "sv_accepted sv' = sv_accepted sv"
  shows "loop_ok create sv'"
  using assms one_accept_frame [OF assms(4,5)] by (simp add: loop_ok_def)

lemma accept_again:
  "sv_accepts v = [] \<Longrightarrow> sv_accepted v = [] \<Longrightarrow> one_accept (length (sv_sessions v)) (Server_accept v)"
  by (simp add: one_accept_def Server_accept_def)

lemma loop_handle:
  assumes "one_accept k sv" "i < length (sv_accepted sv)" "sv_accepted sv ! i = (j, err)"
    and "\<not> isConnected (sv_sessions sv ! k)"
  defines "v \<equiv> fst (handleAccept j err None (sv\<lparr>sv_accepted := remove_at i (sv_accepted sv)\<rparr>))"
  shows "one_accept (length (sv_sessions sv)) v" "length (sv_sessions v) = Suc (length (sv_sessions sv))"
proof -
  from assms(1-3) have h: "sv_accepts sv = []" "remove_at i (sv_accepted sv) = []" "j = k" "err \<noteq> Some OperationAborted"
    by (auto simp: one_accept_def remove_at_def)
  let ?sv = "sv\<lparr>sv_accepted := []\<rparr>"
  obtain ss where v: "v = Server_accept (?sv\<lparr>sv_sessions := ss\<rparr>)" "length ss = length (sv_sessions sv)"
  proof (cases "err = None")
    case True
    with assms(4) h that [of "(sv_sessions sv)[k := post_socket (RunAsyncHandshake ServerSide)
        (issue SetNoDelay (sv_sessions sv ! k)\<lparr>isConnected := True\<rparr>)]"] show ?thesis
      by (simp add: v_def handleAccept_def open_session_def configureSocket_def)
  next
    case False
    with h that [of "sv_sessions sv"] show ?thesis by (simp add: v_def handleAccept_def)
  qed
  from accept_again [of "?sv\<lparr>sv_sessions := ss\<rparr>"] h(1) v
  show "one_accept (length (sv_sessions sv)) v" "length (sv_sessions v) = Suc (length (sv_sessions sv))"
    by (simp_all add: accept_sessions)
qed

lemma waiting_fresh:
  assumes "loop_ok create sv" "one_accept k sv"
  shows "k < length (sv_sessions sv)" "sv_sessions sv ! k = new_session (handler_for create k)"
proof -
  have "k \<in> set (waiting sv)" using assms(2) by (auto simp: one_accept_def waiting_def)
  with assms(1) show "k < length (sv_sessions sv)" "sv_sessions sv ! k = new_session (handler_for create k)"
    by (auto simp: loop_ok_def server_inv_def waiting_ok_def)
qed

lemma new_idle: "\<not> isConnected (new_session rh)" "open_count (new_session rh) = 0"
  by (simp_all add: new_session_def configure_def Session_create_def open_count_def)

lemma loop_step:
  assumes ok: "loop_ok create sv" and ex: "server_exec bo sv e = Some sv'" and st: "steady e"
  shows "loop_ok create sv'"
proof -
  have inv: "server_inv create sv'" using ok ex server_inv_exec by (auto simp: loop_ok_def)
  obtain k where k: "Suc k = length (sv_sessions sv)" "one_accept k sv"
    using ok by (auto simp: loop_ok_def)
  show ?thesis
  proof (cases e)
    case (SvAccept i err)
    with ex k st have "one_accept k sv'" "sv_sessions sv' = sv_sessions sv"
      by (auto simp: one_accept_def remove_at_def split: if_splits)
    with inv k(1) show ?thesis by (auto simp: loop_ok_def)
  next
    case (SvHandle i opt)
    obtain j err where a: "sv_accepted sv ! i = (j, err)" by fastforce
    from SvHandle ex st a have v: "i < length (sv_accepted sv)"
      "sv' = fst (handleAccept j err None (sv\<lparr>sv_accepted := remove_at i (sv_accepted sv)\<rparr>))"
      by (auto split: if_splits)
    have "\<not> isConnected (sv_sessions sv ! k)" using waiting_fresh [OF ok k(2)] new_idle by simp
    from loop_handle [OF k(2) v(1) a this] v(2) inv show ?thesis by (auto simp: loop_ok_def)
  next
    case (SvSession j ev)
    with ex show ?thesis
      by (intro loop_frame [OF ok inv]) (auto simp: forward_def split: if_splits option.splits)
  next
    case SvManager
    from SvManager ex show ?thesis
      by (intro loop_frame [OF ok inv])
        (auto simp: closes_sessions(1) closes_frame split: option.splits simp del: manager_exec.simps)
  qed (use st in simp_all)
qed

lemma loop_start:
  assumes "server_started create sv"
  shows "loop_ok create sv"
proof -
  obtain ip port env where s: "Server_start ip port env (Server_create create) = (Inr True, sv)"
    using assms by (auto simp: server_started_def)
  then have "sv = snd (Server_start ip port env (Server_create create))" by simp
  with start_inv [OF server_inv_init] have "server_inv create sv" by blast
  moreover have "sv_sessions sv = [new_session (receive_handler_of (Server_create create))]" "sv_accepts sv = [0]"
    "sv_accepted sv = []"
    using s by (auto simp: Server_start_def Server_create_def Server_accept_def receive_handler_of_def Let_def
        split: if_splits option.splits)
  ultimately show ?thesis by (simp add: loop_ok_def one_accept_def)
qed

interpretation accepts: inductive_invariant "server_started create" "server_next_steady bo" "loop_ok create" for create bo
  by unfold_locales (auto simp: server_next_steady_def loop_start intro: loop_step)

section \<open>The loop after stop\<close>

text \<open>Only \<open>start\<close> opens the acceptor.\<close>

lemma steady_acceptor:
  assumes "server_exec bo sv e = Some sv'" "steady e"
  shows "sv_acceptorOpen sv' = sv_acceptorOpen sv"
proof -
  have acc: "sv_acceptorOpen (Server_accept v) = sv_acceptorOpen v" for v by (simp add: Server_accept_def)
  have "sv_acceptorOpen (fst (handleAccept j err opt v)) = sv_acceptorOpen v" for j err opt v
    by (auto simp: handleAccept_def acc split: sum.split)
  moreover have "sv_acceptorOpen (fold close_session ks v) = sv_acceptorOpen v" for ks v
    by (induction ks arbitrary: v) (simp_all add: close_session_def)
  ultimately show ?thesis using assms
    by (cases e) (auto simp: forward_def split: if_splits option.splits prod.splits simp del: manager_exec.simps)
qed

text \<open>A stop that comes between the completion of an accept and its handler leaves the loop as it is.\<close>

lemma loop_stop:
  assumes "loop_ok create sv" "sv_accepted sv \<noteq> []"
  shows "loop_ok create (snd (Server_stop ec sv))" "\<not> sv_acceptorOpen (snd (Server_stop ec sv))"
proof -
  have "server_exec LittleEndian sv (SvStop ec) = Some (snd (Server_stop ec sv))" by simp
  with server_inv_exec assms(1) have "server_inv create (snd (Server_stop ec sv))" unfolding loop_ok_def by blast
  moreover from assms obtain k where k: "Suc k = length (sv_sessions sv)" "one_accept k sv" by (auto simp: loop_ok_def)
  with assms(2) have "sv_accepts sv = []" by (auto simp: one_accept_def)
  then have "one_accept k (snd (Server_stop ec sv))" "sv_sessions (snd (Server_stop ec sv)) = sv_sessions sv"
    using k(2) by (simp_all add: Server_stop_def one_accept_def Let_def)
  ultimately show "loop_ok create (snd (Server_stop ec sv))" using k(1) by (auto simp: loop_ok_def)
  show "\<not> sv_acceptorOpen (snd (Server_stop ec sv))" by (simp add: Server_stop_def Let_def)
qed

lemma loop_run:
  assumes "run (server_exec bo) sv es = Some t" "loop_ok create sv" "list_all steady es"
  shows "loop_ok create t \<and> sv_acceptorOpen t = sv_acceptorOpen sv"
proof (rule run_invariant [OF assms(1)])
  show "loop_ok create sv \<and> sv_acceptorOpen sv = sv_acceptorOpen sv" using assms(2) by simp
  fix u e v
  assume "e \<in> set es" "server_exec bo u e = Some v" "loop_ok create u \<and> sv_acceptorOpen u = sv_acceptorOpen sv"
  moreover from this(1) assms(3) have "steady e" by (simp add: list_all_iff)
  ultimately show "loop_ok create v \<and> sv_acceptorOpen v = sv_acceptorOpen sv"
    using loop_step steady_acceptor by blast
qed

text \<open>The accept under way fails, is handled, and the next one is under way, \<open>n\<close> times.\<close>

lemma loop_goes_on:
  assumes "loop_ok create t"
  shows "\<exists>fs u. set fs \<subseteq> {SvAccept 0 (Some (OtherError 9)), SvHandle 0 None} \<and> run (server_exec bo) t fs = Some u \<and>
    accepting u = 1 \<and> length (sv_sessions t) + n \<le> length (sv_sessions u)"
proof -
  obtain k where k: "Suc k = length (sv_sessions t)" "one_accept k t" using assms by (auto simp: loop_ok_def)
  have rounds: "\<exists>u. run (server_exec bo) v (concat (replicate n accept_round)) = Some u \<and> accepting u = 1 \<and>
      length (sv_sessions u) = n + length (sv_sessions v)" if "sv_accepts v = [j]" "sv_accepted v = []" for v j
    using accept_round_again [OF that, of bo n] by (auto simp: accepting_def)
  have events: "set (concat (replicate n accept_round)) \<subseteq> {SvAccept 0 (Some (OtherError 9)), SvHandle 0 None}"
    by (auto simp: accept_round_def)
  show ?thesis
  proof (cases "sv_accepts t = []")
    case False
    with k(2) have "sv_accepts t = [k]" "sv_accepted t = []" by (auto simp: one_accept_def)
    from rounds [OF this] events show ?thesis by (metis add.commute le_refl)
  next
    case True
    with k(2) obtain err where a: "sv_accepted t = [(k, err)]" "err \<noteq> Some OperationAborted"
      by (auto simp: one_accept_def)
    let ?v = "fst (handleAccept k err None (t\<lparr>sv_accepted := remove_at 0 (sv_accepted t)\<rparr>))"
    have ex: "server_exec bo t (SvHandle 0 None) = Some ?v" using a by simp
    have idle: "\<not> isConnected (sv_sessions t ! k)" using waiting_fresh [OF assms k(2)] new_idle by simp
    note h = loop_handle [OF k(2) _ _ this, of 0 k err]
    have v: "one_accept (length (sv_sessions t)) ?v" "length (sv_sessions ?v) = Suc (length (sv_sessions t))"
      using h a by simp_all
    moreover have "sv_accepts ?v \<noteq> []"
      using True a idle by (auto simp: handleAccept_def Server_accept_def open_session_def configureSocket_def)
    ultimately obtain j where "sv_accepts ?v = [j]" "sv_accepted ?v = []" by (auto simp: one_accept_def)
    from rounds [OF this] obtain u where u: "run (server_exec bo) ?v (concat (replicate n accept_round)) = Some u"
      "accepting u = 1" "length (sv_sessions u) = n + length (sv_sessions ?v)" by blast
    have "run (server_exec bo) t (SvHandle 0 None # concat (replicate n accept_round)) = Some u"
      using ex u(1) by simp
    moreover have "set (SvHandle 0 None # concat (replicate n accept_round)) \<subseteq>
        {SvAccept 0 (Some (OtherError 9)), SvHandle 0 None}" using events by simp
    moreover have "length (sv_sessions t) + n \<le> length (sv_sessions u)" using u(3) v(2) by simp
    ultimately show ?thesis using u(2) by blast
  qed
qed

section \<open>Properties\<close>

text \<open>C16. The accept loop: while a started server is not stopped, no accept is aborted and setting the
  socket's option succeeds, exactly one accept is under way, pending or completed with whatever other
  outcome, and it is for the session created last, which nothing has touched; and from every such
  state the waiting session, or after a failed accept the next one, can be opened, with the loop going on.
  But when setting the option fails, its exception ends the loop.\<close>

theorem accept_loop:
  assumes "reach (server_started create) (server_next_steady bo) sv"
  shows "(\<exists>k. Suc k = length (sv_sessions sv) \<and> one_accept k sv \<and>
      sv_sessions sv ! k = new_session (handler_for create k)) \<and> accepting sv = 1 \<and>
    (\<exists>es sv'. list_all steady es \<and> run (server_exec bo) sv es = Some sv' \<and> accepting sv' = 1 \<and>
      (\<exists>k\<ge>length (sv_sessions sv) - 1. open_count (sv_sessions sv' ! k) = 1)) \<and>
    (\<exists>es i e sv'. list_all steady es \<and> run (server_exec bo) sv (es @ [SvHandle i (Some e)]) = Some sv' \<and> accepting sv' = 0)"
proof -
  have ok: "loop_ok create sv" by (rule accepts.reachable_inv [OF assms])
  obtain k where k: "Suc k = length (sv_sessions sv)" "one_accept k sv" using ok by (auto simp: loop_ok_def)
  note fresh = waiting_fresh [OF ok k(2)]
  have one: "accepting v = 1" if "one_accept j v" for j v using that by (auto simp: one_accept_def accepting_def)
  txt \<open>A state with a pending accept, reached with the waiting session or past a failed accept.\<close>
  obtain es v j where v: "list_all steady es" "run (server_exec bo) sv es = Some v" "sv_accepts v = [j]"
    "sv_accepted v = []" "Suc j = length (sv_sessions v)" "length (sv_sessions sv) \<le> length (sv_sessions v)"
    "loop_ok create v"
  proof (cases "sv_accepts sv = []")
    case False
    with k have "sv_accepts sv = [k]" "sv_accepted sv = []" by (auto simp: one_accept_def)
    with that [of "[]" sv k] k ok show ?thesis by simp
  next
    case True
    with k(2) obtain err where a: "sv_accepted sv = [(k, err)]" "err \<noteq> Some OperationAborted"
      by (auto simp: one_accept_def)
    let ?v = "fst (handleAccept k err None (sv\<lparr>sv_accepted := remove_at 0 (sv_accepted sv)\<rparr>))"
    have ex: "server_exec bo sv (SvHandle 0 None) = Some ?v" using a by simp
    have "\<not> isConnected (sv_sessions sv ! k)" using fresh new_idle by simp
    note h = loop_handle [OF k(2) _ _ this, of 0 k err]
    have "one_accept (length (sv_sessions sv)) ?v" "length (sv_sessions ?v) = Suc (length (sv_sessions sv))"
      using h a by simp_all
    moreover have "sv_accepts ?v \<noteq> []"
      using True a \<open>\<not> isConnected (sv_sessions sv ! k)\<close>
      by (auto simp: handleAccept_def Server_accept_def open_session_def configureSocket_def)
    moreover have "loop_ok create ?v" by (rule loop_step [OF ok ex]) simp
    ultimately show ?thesis using that [of "[SvHandle 0 None]" ?v "length (sv_sessions sv)"] ex
      by (auto simp: one_accept_def)
  qed
  have idle: "\<not> isConnected (sv_sessions v ! j)" "open_count (sv_sessions v ! j) = 0" "j < length (sv_sessions v)"
    using waiting_fresh [OF v(7), of j] v(3,4) new_idle by (auto simp: one_accept_def)
  have opens: "\<exists>w. run (server_exec bo) v [SvAccept 0 None, SvHandle 0 None] = Some w \<and> accepting w = 1 \<and>
      open_count (sv_sessions w ! j) = 1"
    using v(3,4) idle by (simp add: handleAccept_def open_session_def configureSocket_def Server_accept_def
        remove_at_def accepting_def nth_append open_count_def issue_def post_socket_def)
  have throws: "\<exists>w. run (server_exec bo) v [SvAccept 0 None, SvHandle 0 (Some (OtherError 22))] = Some w \<and> accepting w = 0"
    using v(3,4) idle by (simp add: handleAccept_def open_session_def configureSocket_def remove_at_def accepting_def)
  have "\<exists>es sv'. list_all steady es \<and> run (server_exec bo) sv es = Some sv' \<and> accepting sv' = 1 \<and>
      (\<exists>k\<ge>length (sv_sessions sv) - 1. open_count (sv_sessions sv' ! k) = 1)"
  proof -
    from opens obtain w where w: "run (server_exec bo) v [SvAccept 0 None, SvHandle 0 None] = Some w"
      "accepting w = 1" "open_count (sv_sessions w ! j) = 1" by blast
    have "run (server_exec bo) sv (es @ [SvAccept 0 None, SvHandle 0 None]) = Some w"
      by (simp only: run_append v(2) option.case w(1))
    moreover have "length (sv_sessions sv) - 1 \<le> j" using v(5,6) by linarith
    moreover have "list_all steady (es @ [SvAccept 0 None, SvHandle 0 None])" using v(1) by simp
    ultimately show ?thesis using w(2,3) by blast
  qed
  moreover have "\<exists>es i e sv'. list_all steady es \<and> run (server_exec bo) sv (es @ [SvHandle i (Some e)]) = Some sv' \<and>
      accepting sv' = 0"
  proof -
    from throws obtain w where w: "run (server_exec bo) v [SvAccept 0 None, SvHandle 0 (Some (OtherError 22))] = Some w"
      "accepting w = 0" by blast
    have "run (server_exec bo) sv (es @ [SvAccept 0 None, SvHandle 0 (Some (OtherError 22))]) = Some w"
      by (simp only: run_append v(2) option.case w(1))
    moreover have "list_all steady (es @ [SvAccept 0 None])" using v(1) by simp
    ultimately show ?thesis using w(2) by (metis append.assoc append_Cons append_Nil)
  qed
  ultimately show ?thesis using k fresh one by blast
qed

theorem accept_loop_witness:
  "\<exists>sv. reach (server_started None) (server_next_steady LittleEndian) sv \<and> length (sv_sessions sv) = 2 \<and>
     accepting sv = 1 \<and> sv_sessions sv ! 1 = new_session None"
proof -
  let ?es = "[SvAccept 0 None, SvHandle 0 None]"
  obtain sv0 where s: "Server_start [] 80 good_start (Server_create None) = (Inr True, sv0)"
    by (simp add: Server_start_def good_start_def tls_setup_def Server_create_def Let_def)
  then have "run (server_exec LittleEndian) (Server_create None) (SvStart [] 80 good_start # ?es) =
      run (server_exec LittleEndian) sv0 ?es" by simp
  moreover have "\<exists>sv. run (server_exec LittleEndian) (Server_create None) (SvStart [] 80 good_start # ?es) = Some sv \<and>
      length (sv_sessions sv) = 2"
    by (simp add: run_simps good_start_def Let_def)
  ultimately obtain sv where sv: "run (server_exec LittleEndian) sv0 ?es = Some sv" "length (sv_sessions sv) = 2"
    by auto
  have "reach (server_started None) (server_next_steady LittleEndian) sv"
  proof (rule run_invariant [OF sv(1)])
    show "reach (server_started None) (server_next_steady LittleEndian) sv0"
      by (rule reach.reach_init) (use s in \<open>auto simp: server_started_def\<close>)
    show "reach (server_started None) (server_next_steady LittleEndian) s'"
      if "e \<in> set ?es" "server_exec LittleEndian s e = Some s'"
        "reach (server_started None) (server_next_steady LittleEndian) s" for s e s'
    proof (rule reach.reach_step [OF that(3)])
      have "steady e" using that(1) by auto
      with that(2) show "server_next_steady LittleEndian s s'" unfolding server_next_steady_def by blast
    qed
  qed
  with accept_loop [OF this] sv(2) show ?thesis
    by (auto simp: handler_for_def eval_nat_numeral intro!: exI [of _ sv])
qed

text \<open>C34. \<open>stop\<close> does not end the accept loop when it comes between the completion of an accept and
  its handler.  The handler starts another accept, now on a closed acceptor; this fails, and not with
  \<open>operation_aborted\<close>, so it is followed by the next.  From any state of a started server in which a
  completed accept waits for its handler: along everything that can happen after \<open>stop\<close>, as long as no
  accept is aborted and setting a socket option does not fail, the acceptor stays closed and one accept is
  under way, and from every state on the way any number of further sessions can be created by accepts
  that all fail.\<close>

theorem accept_loop_survives_stop:
  assumes "reach (server_started create) (server_next_steady bo) sv" "sv_accepted sv = [(k, err)]"
    and "run (server_exec bo) sv (SvStop ec # es) = Some t" "list_all steady es"
  shows "\<not> sv_acceptorOpen t \<and> accepting t = 1 \<and>
    (\<exists>fs u. set fs \<subseteq> {SvAccept 0 (Some (OtherError 9)), SvHandle 0 None} \<and> run (server_exec bo) t fs = Some u \<and>
      accepting u = 1 \<and> length (sv_sessions t) + n \<le> length (sv_sessions u))"
proof -
  have "run (server_exec bo) (snd (Server_stop ec sv)) es = Some t" using assms(3) by simp
  from loop_run [OF this loop_stop(1) [OF accepts.reachable_inv [OF assms(1)]] assms(4)]
    loop_stop(2) [OF accepts.reachable_inv [OF assms(1)]] assms(2)
  have t: "loop_ok create t" "\<not> sv_acceptorOpen t" by simp_all
  then have "accepting t = 1" by (auto simp: loop_ok_def one_accept_def accepting_def)
  with t loop_goes_on [OF t(1), of bo n] show ?thesis by blast
qed

theorem accept_loop_survives_stop_witness:
  "\<exists>sv t u fs. reach (server_started None) (server_next_steady LittleEndian) sv \<and> sv_accepted sv = [(0, None)] \<and>
     run (server_exec LittleEndian) sv [SvStop None, SvHandle 0 None] = Some t \<and> \<not> sv_acceptorOpen t \<and>
     run (server_exec LittleEndian) t fs = Some u \<and> 100 \<le> length (sv_sessions u)"
proof -
  obtain sv0 where s: "Server_start [] 80 good_start (Server_create None) = (Inr True, sv0)"
    by (simp add: Server_start_def good_start_def tls_setup_def Server_create_def Let_def)
  then have eq: "run (server_exec LittleEndian) (Server_create None) (SvStart [] 80 good_start # es) =
      run (server_exec LittleEndian) sv0 es" for es by (simp only: run.simps server_exec.simps option.case snd_conv)
  have "\<exists>sv t. run (server_exec LittleEndian) (Server_create None) (SvStart [] 80 good_start # [SvAccept 0 None]) = Some sv \<and>
      sv_accepted sv = [(0, None)] \<and> run (server_exec LittleEndian) sv [SvStop None, SvHandle 0 None] = Some t"
    by (simp add: run_simps good_start_def Let_def)
  then obtain sv t where sv: "run (server_exec LittleEndian) sv0 [SvAccept 0 None] = Some sv"
    "sv_accepted sv = [(0, None)]" "run (server_exec LittleEndian) sv [SvStop None, SvHandle 0 None] = Some t"
    unfolding eq by blast
  have "server_next_steady LittleEndian sv0 sv"
    unfolding server_next_steady_def using sv(1) by (intro exI [of _ "SvAccept 0 None"]) (auto split: option.splits)
  moreover have "reach (server_started None) (server_next_steady LittleEndian) sv0"
    by (rule reach.reach_init) (use s in \<open>auto simp: server_started_def\<close>)
  ultimately have r: "reach (server_started None) (server_next_steady LittleEndian) sv"
    using reach.reach_step by metis
  have "list_all steady [SvHandle 0 None]" by simp
  from accept_loop_survives_stop [OF r sv(2,3) this, of 100] r sv(2,3) show ?thesis
    by (metis add_leD2)
qed

end
