(* ===== verification/StopMisses.thy ===== *)
theory StopMisses
  imports ServerStops
begin

text \<open>
  What \<open>Server::stop\<close> does not reach: a session that is open and has not called \<open>join\<close> when \<open>stop\<close> is
  called, because its handshake is under way, is in none of the lists that the manager closes.  It lives
  on as if the server had not been stopped.
\<close>

section \<open>The events of one session\<close>

fun own_event :: "nat \<Rightarrow> server_event \<Rightarrow> registration event list" where
  "own_event k (SvSession j e) = (if j = k then [e] else [])"
| "own_event k e = []"

definition own_events :: "nat \<Rightarrow> server_event list \<Rightarrow> registration event list" where
  "own_events k es = concat (map (own_event k) es)"

fun is_stop :: "server_event \<Rightarrow> bool" where
  "is_stop (SvStop ec) = True"
| "is_stop e = False"

section \<open>Sessions the manager will not visit\<close>

definition missed :: "nat \<Rightarrow> server \<Rightarrow> bool" where
  "missed k sv \<longleftrightarrow> k < length (sv_sessions sv) \<and> k \<notin> due_of sv \<and> k \<notin> set (waiting sv)"

lemma due_known: "set (due ss ts) \<subseteq> set ss \<union> {k. Join k \<in> set ts}"
  by (induction ss ts rule: due.induct) auto

text \<open>A \<open>join\<close> or \<open>leave\<close> posted behind everything else is visited by no task that is there already.\<close>

lemma due_behind: "\<forall>f. ForEach f \<notin> set us \<Longrightarrow> due ss (ts @ us) = due ss ts"
proof (induction ss ts rule: due.induct)
  case (1 ss)
  then show ?case
  proof (induction us arbitrary: ss)
    case (Cons u us)
    then show ?case by (cases u) auto
  qed simp
qed simp_all

lemma due_forward: "due_of (forward k calls sv) = due_of sv"
proof -
  have "sm_sessions (fold (register k) calls m) = sm_sessions m \<and>
      (\<exists>us. sm_strand (fold (register k) calls m) = sm_strand m @ us \<and> (\<forall>f. ForEach f \<notin> set us))" for m
  proof (induction calls arbitrary: m)
    case (Cons c calls)
    have "sm_sessions (register k c m) = sm_sessions m"
      "\<exists>u. sm_strand (register k c m) = sm_strand m @ [u] \<and> (\<forall>f. u \<noteq> ForEach f)"
      by (cases c; simp add: SessionManager_join_def SessionManager_leave_def sm_post_def)+
    with Cons [of "register k c m"] show ?case by fastforce
  qed simp
  from this [of "sv_manager sv"] show ?thesis by (auto simp: due_of_def forward_def due_behind)
qed

lemma manager_visits:
  assumes "manager_exec m MStrand = Some m'" "closes_only m"
  shows "set (drop (length (sm_effects m)) (sm_effects m')) \<union> set (due (sm_sessions m') (sm_strand m')) \<subseteq>
    set (due (sm_sessions m) (sm_strand m))"
proof -
  obtain t ts ss xs where m: "sm_strand m = t # ts"
    "run_manager_task t (sm_sessions m, sm_effects m) = (ss, xs)"
    "m' = m\<lparr>sm_strand := ts, sm_sessions := ss, sm_effects := xs\<rparr>" using manager_run [OF assms(1)] .
  show ?thesis
  proof (cases t)
    case (ForEach f)
    with assms(2) m(1) have "f = close_function" by (simp add: closes_only_def)
    moreover have "concat (map close_function ks) = ks" for ks
      by (induction ks) (simp_all add: close_function_def)
    ultimately show ?thesis using ForEach m by auto
  qed (use m in auto)
qed

lemma closes_others:
  "k \<notin> set js \<Longrightarrow> sv_sessions (fold close_session js sv) ! k = sv_sessions sv ! k"
proof (induction js arbitrary: sv)
  case (Cons j js)
  then have "sv_sessions (close_session j sv) ! k = sv_sessions sv ! k" by (simp add: close_session_def)
  with Cons.IH [of "close_session j sv"] Cons.prems show ?case by simp
qed simp

lemma closes_waiting: "waiting (fold close_session js sv) = waiting sv"
  by (induction js arbitrary: sv) (simp_all add: close_session_def waiting_def)

section \<open>Every event\<close>

lemma missed_same:
  assumes "missed k sv" "sv_sessions sv' = ss @ new" "length ss = length (sv_sessions sv)" "ss ! k = sv_sessions sv ! k"
    and "sv_manager sv' = sv_manager sv" "set (waiting sv') \<subseteq> set (waiting sv) \<union> {length (sv_sessions sv)}"
  shows "missed k sv' \<and> sv_sessions sv' ! k = sv_sessions sv ! k"
  using assms by (auto simp: missed_def due_of_def nth_append)

lemma accept_waiting: "set (waiting (Server_accept sv)) \<subseteq> set (waiting sv) \<union> {length (sv_sessions sv)}"
  by (auto simp: Server_accept_def waiting_def)

lemma missed_start:
  assumes "missed k sv"
  shows "missed k (snd (Server_start ip port env sv)) \<and> sv_sessions (snd (Server_start ip port env sv)) ! k = sv_sessions sv ! k"
proof -
  obtain new where "sv_sessions (snd (Server_start ip port env sv)) = sv_sessions sv @ new"
    using start_sessions(1) by blast
  moreover have "set (waiting (snd (Server_start ip port env sv))) \<subseteq> set (waiting sv) \<union> {length (sv_sessions sv)}"
    by (auto simp: Server_start_def Let_def waiting_def Server_accept_def split: option.split)
  ultimately show ?thesis using missed_same [OF assms] start_sessions(2) by blast
qed

lemma missed_handle:
  assumes "missed k sv" "j \<noteq> k"
  shows "missed k (fst (handleAccept j err opt sv)) \<and> sv_sessions (fst (handleAccept j err opt sv)) ! k = sv_sessions sv ! k"
proof -
  let ?v = "fst (handleAccept j err opt sv)"
  have "\<exists>s new. sv_sessions ?v = sv_sessions sv @ new \<or> sv_sessions ?v = (sv_sessions sv)[j := s] @ new"
    by (auto simp: handleAccept_def accept_sessions split: sum.split)
  moreover have "set (waiting ?v) \<subseteq> set (waiting sv) \<union> {length (sv_sessions sv)}"
    by (auto simp: handleAccept_def waiting_def Server_accept_def split: sum.split)
  moreover have "sv_manager ?v = sv_manager sv"
    by (simp add: handleAccept_def accept_sessions split: sum.split)
  ultimately show ?thesis using missed_same [OF assms(1), of ?v] assms(2)
    by (metis length_list_update nth_list_update_neq)
qed

lemma missed_exec:
  assumes inv: "server_inv create sv" and ms: "missed k sv" and ex: "server_exec bo sv e = Some sv'" and ns: "\<not> is_stop e"
  shows "missed k sv' \<and> list_all internal (own_event k e) \<and>
    run (session_exec bo) (sv_sessions sv ! k) (own_event k e) = Some (sv_sessions sv' ! k)"
proof (cases e)
  case (SvStart ip port env)
  with ex missed_start [OF ms, of ip port env] show ?thesis by simp
next
  case (SvAccept i err)
  with ex have i: "i < length (sv_accepts sv)" "sv' = sv\<lparr>sv_accepts := remove_at i (sv_accepts sv),
      sv_accepted := sv_accepted sv @ [(sv_accepts sv ! i, err)]\<rparr>" by (auto split: if_splits)
  have "set (waiting sv') \<subseteq> set (waiting sv)"
    using i(2) arg_cong [OF remove_at_set [OF i(1)], of set_mset] by (auto simp: waiting_def)
  with missed_same [OF ms, of sv' "sv_sessions sv" "[]"] i(2) SvAccept show ?thesis by auto
next
  case (SvHandle i opt)
  obtain j err where a: "sv_accepted sv ! i = (j, err)" by fastforce
  let ?sv = "sv\<lparr>sv_accepted := remove_at i (sv_accepted sv)\<rparr>"
  from ex SvHandle a have i: "i < length (sv_accepted sv)" "sv' = fst (handleAccept j err opt ?sv)"
    by (auto split: if_splits)
  have "set (sv_accepted sv) = insert (j, err) (set (remove_at i (sv_accepted sv)))"
    using arg_cong [OF remove_at_set [OF i(1)], of set_mset] a by simp
  then have w: "set (waiting sv) = insert j (set (waiting ?sv))" by (auto simp: waiting_def)
  then have "missed k ?sv" "j \<noteq> k" using ms by (auto simp: missed_def due_of_def)
  from missed_handle [OF this, of err opt] i(2) SvHandle show ?thesis by simp
next
  case (SvSession j ev)
  with ex obtain s where s: "j < length (sv_sessions sv)" "internal ev" "session_exec bo (sv_sessions sv ! j) ev = Some s"
    "sv' = forward j (drop (length (extCalls (sv_sessions sv ! j))) (extCalls s)) (sv\<lparr>sv_sessions := (sv_sessions sv)[j := s]\<rparr>)"
    by (auto split: if_splits option.splits)
  have f: "due_of sv' = due_of sv" "waiting sv' = waiting sv" "sv_sessions sv' = (sv_sessions sv)[j := s]"
    using s(4) due_forward [of j _ "sv\<lparr>sv_sessions := (sv_sessions sv)[j := s]\<rparr>"]
    by (simp_all add: due_of_def, simp_all add: forward_def waiting_def)
  with ms s(1-3) SvSession show ?thesis by (auto simp: missed_def nth_list_update)
next
  case SvManager
  then obtain m where m: "manager_exec (sv_manager sv) MStrand = Some m"
    "sv' = fold close_session (drop (length (sm_effects (sv_manager sv))) (sm_effects m)) (sv\<lparr>sv_manager := m\<rparr>)"
    using ex by (auto split: option.splits simp del: manager_exec.simps)
  have "closes_only (sv_manager sv)" using inv by (simp add: server_inv_def manager_ok_def)
  from manager_visits [OF m(1) this] ms
  have k: "k \<notin> set (drop (length (sm_effects (sv_manager sv))) (sm_effects m))" "k \<notin> set (due (sm_sessions m) (sm_strand m))"
    by (auto simp: missed_def due_of_def)
  have "missed k sv'" using ms k(2) by (simp add: missed_def m(2) closes_sessions closes_waiting due_of_def closes_frame)
      (simp add: waiting_def)
  moreover have "sv_sessions sv' ! k = sv_sessions sv ! k" using closes_others [OF k(1)] by (simp add: m(2))
  ultimately show ?thesis using SvManager by simp
qed (use ns in simp)

lemma missed_run:
  assumes "run (server_exec bo) sv es = Some t" "server_inv create sv" "missed k sv" "\<forall>e\<in>set es. \<not> is_stop e"
  shows "server_inv create t \<and> k < length (sv_sessions t) \<and> list_all internal (own_events k es) \<and>
    run (session_exec bo) (sv_sessions sv ! k) (own_events k es) = Some (sv_sessions t ! k)"
  using assms
proof (induction es arbitrary: sv)
  case Nil
  then show ?case by (simp add: own_events_def missed_def)
next
  case (Cons e es)
  then obtain u where u: "server_exec bo sv e = Some u" "run (server_exec bo) u es = Some t" by (auto split: option.splits)
  have m: "missed k u \<and> list_all internal (own_event k e) \<and>
      run (session_exec bo) (sv_sessions sv ! k) (own_event k e) = Some (sv_sessions u ! k)"
    by (rule missed_exec [OF Cons.prems(2,3) u(1)]) (use Cons.prems(4) in simp)
  with Cons.IH [OF u(2) server_inv_exec [OF Cons.prems(2) u(1)]] Cons.prems(4)
  show ?case by (simp add: own_events_def run_append del: run.simps)
qed

text \<open>A session that has not joined is not due, and \<open>stop\<close> does not make it so.\<close>

lemma stop_missed:
  assumes "server_inv create sv" "k < length (sv_sessions sv)" "isConnected (sv_sessions sv ! k)"
    and "JoinCall \<notin> set (extCalls (sv_sessions sv ! k))"
  shows "missed k (snd (Server_stop ec sv))" "sv_sessions (snd (Server_stop ec sv)) = sv_sessions sv"
proof -
  let ?m = "SessionManager_forEach close_function (sv_manager sv)"
  have "k \<notin> known (sv_manager sv)" using assms(1,4) by (auto simp: server_inv_def manager_ok_def)
  then have "k \<notin> known ?m" by (simp add: forEach_same)
  then have "k \<notin> set (due (sm_sessions ?m) (sm_strand ?m))" using due_known by (fastforce simp: known_def)
  moreover have "k \<notin> set (waiting sv)"
    using assms(1,3) new_session_calls by (auto simp: server_inv_def waiting_ok_def new_session_def
        configure_def Session_create_def)
  ultimately show "missed k (snd (Server_stop ec sv))"
    using assms(2) by (auto simp: missed_def Server_stop_def Let_def due_of_def waiting_def)
  show "sv_sessions (snd (Server_stop ec sv)) = sv_sessions sv" by (simp add: Server_stop_def Let_def)
qed

section \<open>The handshake completes after stop\<close>

lemma pending_shaking:
  assumes "served rh s" "pendingOps s = [OpHandshake ServerSide]"
  shows "s = (opened rh)\<lparr>socketStrand := [], pendingOps := [OpHandshake ServerSide],
    issued := [SetNoDelay, AsyncHandshake ServerSide]\<rparr>"
proof -
  have "\<not> running rh s" using assms(2) by (simp add: running_def lively_def session_life_def)
  then have "shaking rh s \<or> s = new_session rh" using assms(1) by (auto simp: served_def)
  then show ?thesis using assms(2) by (auto simp: shaking_def opened_def new_session_def configure_def Session_create_def)
qed

lemma handshake_completes:
  assumes "served rh s" "pendingOps s = [OpHandshake ServerSide]"
  shows "\<exists>v w. session_exec bo s (Complete 0 None []) = Some v \<and> extCalls v = [] \<and>
    session_exec bo v SocketStrand = Some w \<and> isConnected w \<and> extCalls w = [JoinCall] \<and> reads_outstanding w = 1"
proof -
  show ?thesis unfolding pending_shaking [OF assms] opened_def new_session_def
    by (simp add: run_simps)
qed

lemma completes_in_server:
  assumes "k < length (sv_sessions sv)" "served rh (sv_sessions sv ! k)"
    and "pendingOps (sv_sessions sv ! k) = [OpHandshake ServerSide]"
  shows "\<exists>u. run (server_exec bo) sv [SvSession k (Complete 0 None []), SvSession k SocketStrand] = Some u \<and>
    isConnected (sv_sessions u ! k) \<and> extCalls (sv_sessions u ! k) = [JoinCall] \<and> reads_outstanding (sv_sessions u ! k) = 1"
proof -
  obtain v w where "session_exec bo (sv_sessions sv ! k) (Complete 0 None []) = Some v" "extCalls v = []"
    "session_exec bo v SocketStrand = Some w" "isConnected w" "extCalls w = [JoinCall]" "reads_outstanding w = 1"
    using handshake_completes [OF assms(2,3)] by blast
  with assms(1) show ?thesis by (simp add: forward_def del: session_exec.simps)
qed

section \<open>Property\<close>

text \<open>C35. \<open>stop\<close> misses a session whose handshake is still under way.  Take a session that is connected
  and has not called \<open>join\<close> when \<open>stop\<close> is called.  Whatever happens afterwards, short of another \<open>stop\<close>,
  its state is the one its own tasks, completions and timers lead to: nothing the server does closes it or
  touches it, and once it has joined and the manager has run its tasks the manager holds it.  If its
  handshake is pending, it can complete after \<open>stop\<close>, and the session then is connected, has joined and
  reads.\<close>

theorem stop_misses_handshake:
  assumes "server_reachable create bo sv" "k < length (sv_sessions sv)" "isConnected (sv_sessions sv ! k)"
    and "JoinCall \<notin> set (extCalls (sv_sessions sv ! k))"
    and "run (server_exec bo) sv (SvStop ec # es) = Some t" "\<forall>e\<in>set es. \<not> is_stop e"
  shows "run (session_exec bo) (sv_sessions sv ! k) (own_events k es) = Some (sv_sessions t ! k) \<and>
    list_all internal (own_events k es) \<and>
    (sm_strand (sv_manager t) = [] \<and> extCalls (sv_sessions t ! k) = [JoinCall] \<longrightarrow> k \<in> set (sm_sessions (sv_manager t))) \<and>
    (pendingOps (sv_sessions sv ! k) = [OpHandshake ServerSide] \<longrightarrow>
      (\<exists>u. run (server_exec bo) sv [SvStop ec, SvSession k (Complete 0 None []), SvSession k SocketStrand] = Some u \<and>
        isConnected (sv_sessions u ! k) \<and> extCalls (sv_sessions u ! k) = [JoinCall] \<and>
        reads_outstanding (sv_sessions u ! k) = 1))"
proof -
  let ?sv = "snd (Server_stop ec sv)"
  have inv: "server_inv create sv" by (rule server_safe.reachable_inv [OF assms(1)])
  note st = stop_missed [OF inv assms(2-4), of ec]
  have r: "run (server_exec bo) ?sv es = Some t" using assms(5) by simp
  note ms = missed_run [OF r stop_inv [OF inv] st(1) assms(6)]
  have "k \<in> set (sm_sessions (sv_manager t))"
    if "sm_strand (sv_manager t) = []" "extCalls (sv_sessions t ! k) = [JoinCall]"
  proof -
    from ms have "manager_ok t" "k < length (sv_sessions t)" by (simp_all add: server_inv_def)
    with that have "count_list (sm_sessions (sv_manager t)) k = 1"
      by (simp add: manager_ok_def settled_def entries_def)
    then show ?thesis by (metis count_list_0_iff zero_neq_one)
  qed
  moreover have "\<exists>u. run (server_exec bo) sv [SvStop ec, SvSession k (Complete 0 None []), SvSession k SocketStrand] = Some u \<and>
      isConnected (sv_sessions u ! k) \<and> extCalls (sv_sessions u ! k) = [JoinCall] \<and> reads_outstanding (sv_sessions u ! k) = 1"
    if "pendingOps (sv_sessions sv ! k) = [OpHandshake ServerSide]"
  proof -
    have "served (handler_for create k) (sv_sessions ?sv ! k)"
      using inv assms(2) st(2) by (auto simp: server_inv_def sessions_ok_def)
    from completes_in_server [OF _ this, of bo] assms(2) that st(2) show ?thesis by (simp del: session_exec.simps)
  qed
  ultimately show ?thesis using ms st(2) by simp
qed

lemma stop_in_handshake_run:
  "\<exists>sv t. run (server_exec LittleEndian) (Server_create None) accept_events = Some sv \<and> length (sv_sessions sv) = 2 \<and>
     isConnected (sv_sessions sv ! 0) \<and> extCalls (sv_sessions sv ! 0) = [] \<and>
     run (server_exec LittleEndian) sv ([SvStop None, SvManager, SvHandle 0 None] @ handshake_done @ [SvManager]) = Some t \<and>
     sm_strand (sv_manager t) = [] \<and> extCalls (sv_sessions t ! 0) = [JoinCall] \<and> accepting t = 0"
  by (simp add: run_simps good_start_def accept_events_def handshake_done_def accepting_def Let_def)

theorem stop_misses_handshake_witness:
  "\<exists>sv t. run (server_exec LittleEndian) (Server_create None) accept_events = Some sv \<and>
     run (server_exec LittleEndian) sv ([SvStop None, SvManager, SvHandle 0 None] @ handshake_done @ [SvManager]) = Some t \<and>
     accepting t = 0 \<and> 0 \<in> set (sm_sessions (sv_manager t)) \<and>
     run (session_exec LittleEndian) (sv_sessions sv ! 0) [Complete 0 None [], SocketStrand] = Some (sv_sessions t ! 0)"
proof -
  let ?es = "[SvManager, SvHandle 0 None] @ handshake_done @ [SvManager]"
  obtain sv t where sv: "run (server_exec LittleEndian) (Server_create None) accept_events = Some sv"
    "length (sv_sessions sv) = 2" "isConnected (sv_sessions sv ! 0)" "extCalls (sv_sessions sv ! 0) = []"
    "run (server_exec LittleEndian) sv (SvStop None # ?es) = Some t" "sm_strand (sv_manager t) = []"
    "extCalls (sv_sessions t ! 0) = [JoinCall]" "accepting t = 0"
    using stop_in_handshake_run by auto
  have es: "own_events 0 ?es = [Complete 0 None [], SocketStrand]" "\<forall>e\<in>set ?es. \<not> is_stop e"
    by (auto simp: own_events_def handshake_done_def)
  have "0 < length (sv_sessions sv)" "JoinCall \<notin> set (extCalls (sv_sessions sv ! 0))" using sv(2,4) by simp_all
  from stop_misses_handshake [OF server_reachable_run [OF sv(1)] this(1) sv(3) this(2) sv(5) es(2)] sv(1,5-8) es(1)
  show ?thesis by auto
qed

end
