(* ===== verification/Timers.thy ===== *)
theory Timers
  imports Prelude
begin

text \<open>
  \<open>src/utils/Misc/src/Timer.cpp\<close> and \<open>include/Timer.h\<close>: a one-shot and repeating timer on a
  strand.  A handle is the closure the code builds: the user's function for \<open>start\<close>, the lambdas of
  the two \<open>shedule\<close> functions with what they capture, or the empty \<open>boost::function\<close>.  A user function
  is an identity \<open>'u\<close>, and calling it is recorded in \<open>tm_calls\<close>; the boolean that a schedule function
  returns and the period that a period function returns are chosen by the environment at each call.
  \<open>deadline_timer\<close> appears as its documented interface: setting its expiry or cancelling it
  completes the waits that are pending with \<open>operation_aborted\<close>, and does not affect a wait that has
  already expired and whose handler is queued.
\<close>

section \<open>State\<close>

datatype 'u timer_handle =
    NoHandle
  | UserHandle 'u
  | PeriodHandle int "'u option"           \<comment> \<open>the lambda of \<open>shedule(int, ...)\<close>\<close>
  | GetPeriodHandle bool "'u option"       \<comment> \<open>the lambda of \<open>shedule(getPeriod, ...)\<close>\<close>

datatype 'u clock_task =
    StartTask int "'u timer_handle"
  | CancelTask
  | OnWait "'u timer_handle" error_code

record 'u timer =
  tm_handle :: "'u timer_handle"
  tm_strand :: "'u clock_task list"
  tm_waits :: "'u timer_handle list"
  tm_expiries :: "int list"
  tm_calls :: "'u list"

definition Timer_create :: "'u timer" where
  "Timer_create = \<lparr>tm_handle = NoHandle, tm_strand = [], tm_waits = [], tm_expiries = [], tm_calls = []\<rparr>"

definition timer_post :: "'u clock_task \<Rightarrow> 'u timer \<Rightarrow> 'u timer" where
  "timer_post k t = t\<lparr>tm_strand := tm_strand t @ [k]\<rparr>"

text \<open>\<open>deadline_timer::cancel\<close>, which \<open>expires_from_now\<close> includes.\<close>

definition abort_waits :: "'u timer \<Rightarrow> 'u timer" where
  "abort_waits t = t\<lparr>tm_strand := tm_strand t @ map (\<lambda>h. OnWait h (Some OperationAborted)) (tm_waits t),
     tm_waits := []\<rparr>"

section \<open>Operations\<close>

definition Timer_start :: "int \<Rightarrow> 'u timer_handle \<Rightarrow> 'u timer \<Rightarrow> 'u timer" where
  "Timer_start ms timerHandle t = timer_post (StartTask ms timerHandle) t"

definition Timer_shedule :: "int \<Rightarrow> 'u option \<Rightarrow> 'u timer \<Rightarrow> 'u timer" where
  "Timer_shedule period sheduleHandle t =
    (let t1 = t\<lparr>tm_handle := PeriodHandle period sheduleHandle\<rparr>
     in Timer_start period (tm_handle t1) t1)"

text \<open>\<open>getPeriod\<close> is the period that the period function returns, \<open>None\<close> if there is no function.\<close>

definition Timer_shedule_period :: "int option \<Rightarrow> 'u option \<Rightarrow> 'u timer \<Rightarrow> 'u timer" where
  "Timer_shedule_period getPeriod sheduleHandle t =
    (let t1 = t\<lparr>tm_handle := GetPeriodHandle (getPeriod \<noteq> None) sheduleHandle\<rparr>
     in case getPeriod of None \<Rightarrow> t1 | Some p \<Rightarrow> Timer_start p (tm_handle t1) t1)"

definition Timer_cancel :: "'u timer \<Rightarrow> 'u timer" where
  "Timer_cancel t = timer_post CancelTask t"

section \<open>Tasks\<close>

definition timer_start_task :: "int \<Rightarrow> 'u timer_handle \<Rightarrow> 'u timer \<Rightarrow> 'u timer" where
  "timer_start_task ms timerHandle t =
    (let t1 = abort_waits (t\<lparr>tm_expiries := tm_expiries t @ [ms]\<rparr>)
     in t1\<lparr>tm_waits := tm_waits t1 @ [timerHandle]\<rparr>)"

definition timer_cancel_task :: "'u timer \<Rightarrow> 'u timer" where
  "timer_cancel_task t = abort_waits (t\<lparr>tm_handle := NoHandle\<rparr>)"

text \<open>A call of a handle; \<open>ok\<close> is what the schedule function returns, \<open>p\<close> what the period function
  returns.\<close>

definition log_call :: "'u \<Rightarrow> 'u timer \<Rightarrow> 'u timer" where
  "log_call u t = t\<lparr>tm_calls := tm_calls t @ [u]\<rparr>"

fun call_handle :: "bool \<Rightarrow> int \<Rightarrow> 'u timer_handle \<Rightarrow> 'u timer \<Rightarrow> 'u timer" where
  "call_handle ok p NoHandle t = t"
| "call_handle ok p (UserHandle u) t = log_call u t"
| "call_handle ok p (PeriodHandle period sheduleHandle) t = (case sheduleHandle of
     None \<Rightarrow> t
   | Some u \<Rightarrow> (let t1 = log_call u t in if ok then Timer_start period (tm_handle t1) t1 else t1))"
| "call_handle ok p (GetPeriodHandle hasPeriod sheduleHandle) t = (case sheduleHandle of
     None \<Rightarrow> t
   | Some u \<Rightarrow> if hasPeriod
       then (let t1 = log_call u t in if ok then Timer_start p (tm_handle t1) t1 else t1) else t)"

definition on_wait :: "bool \<Rightarrow> int \<Rightarrow> 'u timer_handle \<Rightarrow> error_code \<Rightarrow> 'u timer \<Rightarrow> 'u timer" where
  "on_wait ok p timerHandle err t =
    (if err \<noteq> Some OperationAborted \<and> timerHandle \<noteq> NoHandle then call_handle ok p timerHandle t else t)"

fun run_clock_task :: "bool \<Rightarrow> int \<Rightarrow> 'u clock_task \<Rightarrow> 'u timer \<Rightarrow> 'u timer" where
  "run_clock_task ok p (StartTask ms h) t = timer_start_task ms h t"
| "run_clock_task ok p CancelTask t = timer_cancel_task t"
| "run_clock_task ok p (OnWait h err) t = on_wait ok p h err t"

section \<open>Events\<close>

datatype 'u timer_event =
    TStart int 'u
  | TShedule int "'u option"
  | TShedulePeriod "int option" "'u option"
  | TCancel
  | TStrand bool int
  | TExpire nat error_code

fun timer_exec :: "'u timer \<Rightarrow> 'u timer_event \<Rightarrow> 'u timer option" where
  "timer_exec t (TStart ms u) = Some (Timer_start ms (UserHandle u) t)"
| "timer_exec t (TShedule period sh) = Some (Timer_shedule period sh t)"
| "timer_exec t (TShedulePeriod gp sh) = Some (Timer_shedule_period gp sh t)"
| "timer_exec t TCancel = Some (Timer_cancel t)"
| "timer_exec t (TStrand ok p) = (case tm_strand t of
     [] \<Rightarrow> None | k # ks \<Rightarrow> Some (run_clock_task ok p k (t\<lparr>tm_strand := ks\<rparr>)))"
| "timer_exec t (TExpire i err) = (if i < length (tm_waits t)
     then Some (timer_post (OnWait (tm_waits t ! i) err) (t\<lparr>tm_waits := remove_at i (tm_waits t)\<rparr>))
     else None)"

definition timer_init :: "'u timer \<Rightarrow> bool" where
  "timer_init t \<longleftrightarrow> t = Timer_create"

definition timer_next :: "'u timer \<Rightarrow> 'u timer \<Rightarrow> bool" where
  "timer_next t u \<longleftrightarrow> (\<exists>e. timer_exec t e = Some u)"

lemmas timer_ops [run_simps] = Timer_create_def timer_post_def abort_waits_def Timer_start_def
  Timer_shedule_def Timer_shedule_period_def Timer_cancel_def timer_start_task_def timer_cancel_task_def
  log_call_def on_wait_def

section \<open>At most one wait\<close>

text \<open>Every wait is started behind \<open>expires_from_now\<close>, so waits never pile up.\<close>

definition one_wait :: "'u timer \<Rightarrow> bool" where
  "one_wait t \<longleftrightarrow> length (tm_waits t) \<le> 1"

lemma call_handle_waits [simp]: "tm_waits (call_handle ok p h t) = tm_waits t"
  by (cases h) (auto simp: timer_ops Let_def split: option.split)

lemma one_wait_step: "one_wait t \<Longrightarrow> timer_exec t e = Some u \<Longrightarrow> one_wait u"
proof (cases e)
  case (TStrand ok p)
  assume "one_wait t" "timer_exec t e = Some u"
  with TStrand obtain k ks where k: "tm_strand t = k # ks" "u = run_clock_task ok p k (t\<lparr>tm_strand := ks\<rparr>)"
    by (auto split: list.splits)
  with \<open>one_wait t\<close> show ?thesis
    by (cases k) (auto simp: one_wait_def timer_start_task_def timer_cancel_task_def abort_waits_def on_wait_def)
qed (auto simp: one_wait_def timer_ops remove_at_def Let_def split: if_splits option.splits)

interpretation timer_waits: inductive_invariant timer_init timer_next one_wait
proof unfold_locales
  show "one_wait t" if "timer_init t" for t :: "'a timer"
    using that by (simp add: timer_init_def Timer_create_def one_wait_def)
  show "one_wait u" if "one_wait t" "timer_next t u" for t u :: "'a timer"
    using that one_wait_step by (auto simp: timer_next_def)
qed

section \<open>Calls that are still to come\<close>

text \<open>The calls a timer can still make without being started again and without rescheduling.\<close>

definition armed :: "'u timer_handle \<Rightarrow> nat" where
  "armed h = of_bool (h \<noteq> NoHandle)"

fun task_armed :: "'u clock_task \<Rightarrow> nat" where
  "task_armed (StartTask ms h) = armed h"
| "task_armed CancelTask = 0"
| "task_armed (OnWait h err) = (if err = Some OperationAborted then 0 else armed h)"

definition potential :: "'u timer \<Rightarrow> nat" where
  "potential t = sum_list (map task_armed (tm_strand t)) + sum_list (map armed (tm_waits t))"

definition starts :: "'u timer_event \<Rightarrow> bool" where
  "starts e \<longleftrightarrow> (case e of TStart _ _ \<Rightarrow> True | TShedule _ _ \<Rightarrow> True | TShedulePeriod _ _ \<Rightarrow> True | _ \<Rightarrow> False)"

lemma potential_simps [simp]:
  "potential (t\<lparr>tm_handle := h\<rparr>) = potential t" "potential (t\<lparr>tm_calls := us\<rparr>) = potential t"
  "potential (t\<lparr>tm_expiries := ps\<rparr>) = potential t"
  "potential (log_call u t) = potential t"
  "potential (timer_post k t) = task_armed k + potential t"
  "potential (Timer_start ms h t) = armed h + potential t"
  by (simp_all add: potential_def timer_post_def Timer_start_def log_call_def)

lemma potential_abort: "potential (abort_waits t) + sum_list (map armed (tm_waits t)) = potential t"
proof -
  have "sum_list (map (task_armed \<circ> (\<lambda>h. OnWait h (Some OperationAborted))) hs) = 0"
    for hs :: "'a timer_handle list" by (induction hs) simp_all
  then show ?thesis by (simp add: potential_def abort_waits_def)
qed

lemma potential_start_task: "potential (timer_start_task ms h t) \<le> armed h + potential t"
proof -
  have "potential (timer_start_task ms h t) = armed h + potential (abort_waits t)"
    by (simp add: timer_start_task_def Let_def potential_def abort_waits_def)
  with potential_abort [of t] show ?thesis by simp
qed

lemma armed_bound: "armed h \<le> 1" "armed NoHandle = 0" "h \<noteq> NoHandle \<Longrightarrow> armed h = 1"
  by (simp_all add: armed_def)

lemma call_bound:
  "length (tm_calls (call_handle ok p h t)) + potential (call_handle ok p h t) \<le>
     length (tm_calls t) + armed h + potential t + armed (tm_handle t)"
  "potential (call_handle ok p h t) \<le> potential t + armed h"
  "tm_handle (call_handle ok p h t) = tm_handle t"
  using armed_bound by (cases h; auto simp: log_call_def Timer_start_def timer_post_def Let_def
      armed_def potential_def split: option.split)+

text \<open>Cancelled: the handle is cleared and nothing has been scheduled since.\<close>

lemma potential_task:
  assumes "tm_strand t = k # ks"
  shows "potential t = task_armed k + potential (t\<lparr>tm_strand := ks\<rparr>)"
  using assms by (simp add: potential_def)

lemma run_clock_task_bound:
  assumes "tm_handle t = NoHandle"
  shows "length (tm_calls (run_clock_task ok p k t)) + potential (run_clock_task ok p k t) \<le>
      length (tm_calls t) + task_armed k + potential t"
    and "tm_handle (run_clock_task ok p k t) = NoHandle"
proof -
  have a: "potential (abort_waits t) \<le> potential t" using potential_abort [of t] by simp
  have calls: "tm_calls (timer_start_task ms h t) = tm_calls t" "tm_calls (timer_cancel_task t) = tm_calls t"
    "tm_handle (timer_start_task ms h t) = tm_handle t" "tm_handle (timer_cancel_task t) = NoHandle" for ms h
    by (simp_all add: timer_start_task_def timer_cancel_task_def abort_waits_def Let_def)
  have "potential (timer_cancel_task t) \<le> potential t"
    using potential_abort [of "t\<lparr>tm_handle := NoHandle\<rparr>"] by (simp add: timer_cancel_task_def)
  then show "length (tm_calls (run_clock_task ok p k t)) + potential (run_clock_task ok p k t) \<le>
      length (tm_calls t) + task_armed k + potential t"
  proof (cases k)
    case (StartTask ms h)
    then show ?thesis using potential_start_task [of ms h t] by (simp add: calls)
  next
    case (OnWait h err)
    then show ?thesis using call_bound(1) [of ok p h t] assms
      by (auto simp: on_wait_def armed_bound(2))
  qed (simp add: calls)
  show "tm_handle (run_clock_task ok p k t) = NoHandle"
    using assms call_bound(3) [of ok p _ t] by (cases k) (auto simp: calls on_wait_def)
qed

lemma expire_bound:
  assumes "i < length (tm_waits t)"
  shows "potential (timer_post (OnWait (tm_waits t ! i) err) (t\<lparr>tm_waits := remove_at i (tm_waits t)\<rparr>))
    \<le> potential t"
  using sum_list_remove_at [OF assms, of armed] by (simp add: potential_def timer_post_def)

lemma cancelled_step:
  assumes "timer_exec t e = Some u" "\<not> starts e" "tm_handle t = NoHandle"
  shows "length (tm_calls u) + potential u \<le> length (tm_calls t) + potential t \<and> tm_handle u = NoHandle"
proof (cases e)
  case TCancel
  with assms show ?thesis by (auto simp: Timer_cancel_def) (simp add: timer_post_def)+
next
  case (TStrand ok p)
  with assms(1) obtain k ks where k: "tm_strand t = k # ks" "u = run_clock_task ok p k (t\<lparr>tm_strand := ks\<rparr>)"
    by (auto split: list.splits)
  with run_clock_task_bound [of "t\<lparr>tm_strand := ks\<rparr>" ok p k] potential_task [OF k(1)] assms(3)
  show ?thesis by simp
next
  case (TExpire i err)
  with assms(1) have i: "i < length (tm_waits t)"
    "u = timer_post (OnWait (tm_waits t ! i) err) (t\<lparr>tm_waits := remove_at i (tm_waits t)\<rparr>)"
    by (auto split: if_splits)
  have "tm_calls u = tm_calls t" "tm_handle u = tm_handle t" by (simp_all add: i(2) timer_post_def)
  with expire_bound [OF i(1), of err] assms(3) i(2) show ?thesis by simp
qed (use assms(2) in \<open>auto simp: starts_def\<close>)

lemma cancelled_run:
  assumes "run timer_exec t es = Some u" "\<forall>e\<in>set es. \<not> starts e" "tm_handle t = NoHandle"
  shows "length (tm_calls u) + potential u \<le> length (tm_calls t) + potential t"
  using assms
proof (induction es arbitrary: t)
  case (Cons e es)
  then obtain v where v: "timer_exec t e = Some v" "run timer_exec v es = Some u"
    by (auto split: option.splits)
  from cancelled_step [OF v(1)] Cons.prems(2,3) Cons.IH [OF v(2)] show ?case by force
qed simp

lemma calls_grow: "timer_exec t e = Some u \<Longrightarrow> length (tm_calls t) \<le> length (tm_calls u)"
proof (cases e)
  case (TStrand ok p)
  assume "timer_exec t e = Some u"
  with TStrand obtain k ks where k: "u = run_clock_task ok p k (t\<lparr>tm_strand := ks\<rparr>)"
    by (auto split: list.splits)
  have "length (tm_calls v) \<le> length (tm_calls (call_handle ok p h v))" for h and v :: "'a timer"
    by (cases h) (auto simp: log_call_def Timer_start_def timer_post_def Let_def split: option.split)
  from this [of "t\<lparr>tm_strand := ks\<rparr>"] show ?thesis unfolding k
    by (cases k) (auto simp: timer_start_task_def timer_cancel_task_def abort_waits_def on_wait_def Let_def)
qed (auto simp: Timer_start_def Timer_shedule_def Timer_shedule_period_def Timer_cancel_def timer_post_def
    Let_def split: option.splits if_splits)

text \<open>The potential never exceeds the number of calls that started the timer.\<close>

lemma potential_step:
  assumes "timer_exec t e = Some u"
  shows "potential u \<le> potential t + of_bool (starts e)"
proof (cases e)
  case (TStrand ok p)
  with assms obtain k ks where k: "tm_strand t = k # ks" "u = run_clock_task ok p k (t\<lparr>tm_strand := ks\<rparr>)"
    by (auto split: list.splits)
  let ?t = "t\<lparr>tm_strand := ks\<rparr>"
  have "potential (timer_cancel_task ?t) \<le> potential ?t"
    using potential_abort [of "?t\<lparr>tm_handle := NoHandle\<rparr>"] by (simp add: timer_cancel_task_def)
  then have "potential (run_clock_task ok p k ?t) \<le> task_armed k + potential ?t"
  proof (cases k)
    case (StartTask ms h)
    then show ?thesis using potential_start_task [of ms h ?t] by simp
  next
    case (OnWait h err)
    then show ?thesis using call_bound(2) [of ok p h ?t] by (auto simp: on_wait_def)
  qed simp
  with potential_task [OF k(1)] k(2) show ?thesis by simp
next
  case (TExpire i err)
  with assms expire_bound [of i t err] show ?thesis by (auto simp: starts_def split: if_splits)
qed (use assms armed_bound(1) in \<open>auto simp: starts_def Timer_shedule_def Timer_shedule_period_def
      Timer_cancel_def Let_def split: option.splits\<close>)

lemma potential_run:
  "run timer_exec t es = Some u \<Longrightarrow> potential u \<le> potential t + length (filter starts es)"
proof (induction es arbitrary: t)
  case (Cons e es)
  then obtain v where v: "timer_exec t e = Some v" "run timer_exec v es = Some u"
    by (auto split: option.splits)
  from potential_step [OF v(1)] Cons.IH [OF v(2)] show ?case by (cases "starts e") auto
qed simp

section \<open>Properties\<close>

text \<open>C29. After \<open>Timer::cancel\<close>: once the cancel task has run, and as long as the timer is not started
  again, the user's functions are called at most as often as the timer was started before, and only
  for starts and expiries that were already queued then; a timer with none queued makes no call.\<close>

theorem calls_after_cancel:
  assumes "run timer_exec Timer_create es = Some t" "tm_strand t = CancelTask # ks"
    and "timer_exec t (TStrand ok p) = Some t'"
    and "run timer_exec t' fs = Some u" "\<forall>e\<in>set fs. \<not> starts e"
  shows "length (tm_calls u) \<le> length (tm_calls t) + sum_list (map task_armed ks) \<and>
    length (tm_calls u) \<le> length (tm_calls t) + length (filter starts es)"
proof -
  let ?t = "t\<lparr>tm_strand := ks\<rparr>"
  have t': "t' = timer_cancel_task ?t" using assms(2,3) by simp
  have h: "tm_handle t' = NoHandle" "tm_calls t' = tm_calls t"
    by (simp_all add: t' timer_cancel_task_def abort_waits_def)
  have "potential t' = sum_list (map task_armed ks)"
    using potential_abort [of "?t\<lparr>tm_handle := NoHandle\<rparr>"] by (simp add: t' timer_cancel_task_def potential_def)
  moreover have "sum_list (map task_armed ks) \<le> potential t" using assms(2) by (simp add: potential_def)
  moreover have "potential t \<le> length (filter starts es)"
    using potential_run [OF assms(1)] by (simp add: potential_def Timer_create_def)
  ultimately show ?thesis using cancelled_run [OF assms(4,5) h(1)] h(2) by simp
qed

lemma cancelled_in_time:
  "\<exists>t t' u. run timer_exec Timer_create [TStart 5 1, TStrand True 0, TCancel] = Some t \<and>
     tm_strand t = [CancelTask] \<and> tm_calls t = [] \<and> timer_exec t (TStrand True 0) = Some t' \<and>
     run timer_exec t' [TStrand True 0] = Some u"
  by (simp add: run_simps Let_def)

theorem calls_after_cancel_witness:
  "\<exists>t t' u :: nat timer. run timer_exec Timer_create [TStart 5 1, TStrand True 0, TCancel] = Some t \<and>
     timer_exec t (TStrand True 0) = Some t' \<and> run timer_exec t' [TStrand True 0] = Some u \<and> tm_calls u = []"
proof -
  obtain t t' u :: "nat timer" where t: "run timer_exec Timer_create [TStart 5 1, TStrand True 0, TCancel] = Some t"
    "tm_strand t = [CancelTask]" "tm_calls t = []" "timer_exec t (TStrand True 0) = Some t'"
    "run timer_exec t' [TStrand True 0] = Some u" using cancelled_in_time by blast
  have "\<forall>e\<in>set [TStrand True 0 :: nat timer_event]. \<not> starts e" by (simp add: starts_def)
  from calls_after_cancel [OF t(1,2,4,5) this] t show ?thesis by auto
qed

text \<open>\<open>cancel\<close> does not stop a repeating timer at once: if the timer has expired before the cancel
  task runs, the schedule function that ran in between has queued another start, and is called once
  more after the cancel task has run.\<close>

lemma schedule_survives_cancel:
  "\<exists>t u. run timer_exec (Timer_create :: nat timer) [TShedule 5 (Some 1), TStrand True 0, TExpire 0 None,
       TCancel, TStrand True 0] = Some t \<and> tm_calls t = [1] \<and> hd (tm_strand t) = CancelTask \<and>
     run timer_exec t [TStrand True 0, TStrand True 0, TExpire 0 None, TStrand True 0] = Some u \<and>
     tm_calls u = [1, 1]"
  by (simp add: run_simps Let_def)

text \<open>A timer never has more than one wait pending: every wait is started behind
  \<open>expires_from_now\<close>, which aborts the ones before it.\<close>

lemma timer_one_wait: "reach timer_init timer_next t \<Longrightarrow> length (tm_waits t) \<le> 1"
  using timer_waits.reachable_inv [of t] by (simp add: one_wait_def)

theorem timer_one_wait_witness:
  "\<exists>t :: nat timer. reach timer_init timer_next t \<and> tm_expiries t = [5, 6] \<and> length (tm_waits t) \<le> 1"
proof -
  obtain t :: "nat timer" where t: "run timer_exec Timer_create
      [TStart 5 1, TStart 6 2, TStrand True 0, TStrand True 0] = Some t" "tm_expiries t = [5, 6]"
    by (simp add: run_simps Let_def)
  have "reach timer_init timer_next (Timer_create :: nat timer)"
    by (rule reach.reach_init) (simp add: timer_init_def)
  with t(1) have "reach timer_init timer_next t"
    by (rule run_invariant) (auto simp: timer_next_def intro: reach.reach_step)
  from timer_one_wait [OF this] this t(2) show ?thesis by blast
qed

end
