(* ===== verification/Clients.thy ===== *)
theory Clients
  imports SessionCalls Timers
begin

text \<open>
  \<open>src/utils/Net/src/Client.cpp\<close>: one \<open>request\<close>, which resolves the address, makes a \<open>Session\<close>
  and a \<open>Timer\<close>, and wires them with the caller's functions: the open handler sends the payload, the
  receive handler cancels the timer, reports success and drops the session, and the timer's function
  cancels the session's operations and reports an error.  The state of a request is its session, its
  timer and the reports so far; the model composes those of \<open>SessionModel\<close> and \<open>Timers\<close>.  Name
  resolution, the TLS context and the threads are outside it.
\<close>

section \<open>State\<close>

datatype client_effect = StopTimer | Success buffer

datatype report = OnSuccess buffer | OnError

record request =
  rq_session :: "client_effect session"
  rq_timer :: "unit timer"
  rq_connecting :: bool
  rq_hasError :: bool
  rq_reports :: "report list"

definition connectTimeOut :: int where
  "connectTimeOut = 3000"

section \<open>Operations\<close>

text \<open>The handlers given to \<open>configure\<close>; \<open>hasSuccess\<close> says whether \<open>onSuccess\<close> is set.\<close>

definition openedHandle :: "buffer \<Rightarrow> client_effect call list" where
  "openedHandle payload = [CallSend payload]"

definition closedHandle :: "client_effect call list" where
  "closedHandle = []"

definition receivedHandle :: "bool \<Rightarrow> client_effect receive_handler" where
  "receivedHandle hasSuccess payload =
     CallExt StopTimer # (if hasSuccess then [CallExt (Success payload)] else []) @ [CallDrop]"

text \<open>\<open>resolve\<close> is the error of the resolver: with an error nothing is started and nothing reported.\<close>

definition Client_request :: "error_code \<Rightarrow> buffer \<Rightarrow> bool \<Rightarrow> bool \<Rightarrow> request option" where
  "Client_request resolve payload hasSuccess hasError =
    (case resolve of
       Some e \<Rightarrow> None
     | None \<Rightarrow> Some \<lparr>rq_session = configure (Some (openedHandle payload)) (Some closedHandle)
           (Some (receivedHandle hasSuccess)) Session_create,
         rq_timer = Timer_create, rq_connecting = True, rq_hasError = hasError, rq_reports = []\<rparr>)"

text \<open>The handler of \<open>async_connect\<close>: its error is not looked at; \<open>open\<close> may throw.\<close>

definition handleConnect :: "error_code \<Rightarrow> error_code \<Rightarrow> request \<Rightarrow> request" where
  "handleConnect err opt r =
    (let r1 = r\<lparr>rq_timer := Timer_start connectTimeOut (UserHandle ()) (rq_timer r)\<rparr>
     in case open_session ClientSide opt (rq_session r1) of
          Inl e \<Rightarrow> r1
        | Inr s \<Rightarrow> r1\<lparr>rq_session := s\<rparr>)"

text \<open>The timer's function.\<close>

definition handleTimeOut :: "request \<Rightarrow> request" where
  "handleTimeOut r =
    (let r1 = r\<lparr>rq_session := cancelAllPendingOperations (rq_session r)\<rparr>
     in if rq_hasError r1 then r1\<lparr>rq_reports := rq_reports r1 @ [OnError]\<rparr> else r1)"

fun client_effect_run :: "client_effect \<Rightarrow> request \<Rightarrow> request" where
  "client_effect_run StopTimer r = r\<lparr>rq_timer := Timer_cancel (rq_timer r)\<rparr>"
| "client_effect_run (Success payload) r = r\<lparr>rq_reports := rq_reports r @ [OnSuccess payload]\<rparr>"

section \<open>Events\<close>

text \<open>The session and the timer are reachable only through the handlers, so only their strands run
  and their operations complete.\<close>

fun timer_internal :: "'u timer_event \<Rightarrow> bool" where
  "timer_internal (TStrand _ _) = True"
| "timer_internal (TExpire _ _) = True"
| "timer_internal _ = False"

datatype request_event =
    RqConnected error_code error_code
  | RqSession "client_effect event"
  | RqTimer "unit timer_event"

fun request_exec :: "byte_order \<Rightarrow> request \<Rightarrow> request_event \<Rightarrow> request option" where
  "request_exec bo r (RqConnected err opt) = (if rq_connecting r
     then Some (handleConnect err opt (r\<lparr>rq_connecting := False\<rparr>)) else None)"
| "request_exec bo r (RqSession e) = (if internal e
     then (case session_exec bo (rq_session r) e of
         None \<Rightarrow> None
       | Some s \<Rightarrow> Some (fold client_effect_run (drop (length (extCalls (rq_session r))) (extCalls s))
           (r\<lparr>rq_session := s\<rparr>)))
     else None)"
| "request_exec bo r (RqTimer e) = (if timer_internal e
     then (case timer_exec (rq_timer r) e of
         None \<Rightarrow> None
       | Some t \<Rightarrow> Some (fold (\<lambda>_. handleTimeOut) (drop (length (tm_calls (rq_timer r))) (tm_calls t))
           (r\<lparr>rq_timer := t\<rparr>)))
     else None)"

lemmas client_ops [run_simps] = connectTimeOut_def openedHandle_def closedHandle_def receivedHandle_def
  Client_request_def handleConnect_def handleTimeOut_def

section \<open>The timer of a request\<close>

text \<open>Only \<open>start\<close> is used, so the timer keeps no handle of its own and the calls it has made and can
  still make never exceed the one start.\<close>

definition errors :: "request \<Rightarrow> nat" where
  "errors r = count_list (rq_reports r) OnError"

definition request_inv :: "request \<Rightarrow> bool" where
  "request_inv r \<longleftrightarrow> tm_handle (rq_timer r) = NoHandle \<and>
     errors r + potential (rq_timer r) + of_bool (rq_connecting r) \<le> 1"

lemma effects_run:
  "tm_handle (rq_timer (fold client_effect_run es r)) = tm_handle (rq_timer r) \<and>
   potential (rq_timer (fold client_effect_run es r)) = potential (rq_timer r) \<and>
   errors (fold client_effect_run es r) = errors r \<and>
   rq_connecting (fold client_effect_run es r) = rq_connecting r"
proof (induction es arbitrary: r)
  case (Cons e es)
  have "tm_handle (rq_timer (client_effect_run e r)) = tm_handle (rq_timer r) \<and>
      potential (rq_timer (client_effect_run e r)) = potential (rq_timer r) \<and>
      errors (client_effect_run e r) = errors r \<and> rq_connecting (client_effect_run e r) = rq_connecting r"
    by (cases e) (simp_all add: Timer_cancel_def errors_def, simp add: timer_post_def)
  with Cons show ?case by simp
qed simp

lemma timeouts_run:
  "rq_timer (fold (\<lambda>_. handleTimeOut) us r) = rq_timer r \<and>
   errors (fold (\<lambda>_. handleTimeOut) us r) \<le> errors r + length us \<and>
   rq_connecting (fold (\<lambda>_. handleTimeOut) us r) = rq_connecting r"
proof (induction us arbitrary: r)
  case (Cons u us)
  have "rq_timer (handleTimeOut r) = rq_timer r" "errors (handleTimeOut r) \<le> Suc (errors r)"
    "rq_connecting (handleTimeOut r) = rq_connecting r"
    by (simp_all add: handleTimeOut_def errors_def Let_def)
  with Cons [of "handleTimeOut r"] show ?case by simp
qed simp

lemma request_inv_exec:
  assumes "request_inv r" "request_exec bo r e = Some r'"
  shows "request_inv r'"
proof (cases e)
  case (RqConnected err opt)
  have "potential (rq_timer (handleConnect err opt v)) = Suc (potential (rq_timer v))"
    "tm_handle (rq_timer (handleConnect err opt v)) = tm_handle (rq_timer v)"
    "errors (handleConnect err opt v) = errors v" "rq_connecting (handleConnect err opt v) = rq_connecting v" for v
    by (simp_all add: handleConnect_def errors_def Let_def armed_def split: sum.split)
      (simp add: Timer_start_def timer_post_def)
  with assms RqConnected show ?thesis by (auto simp: request_inv_def errors_def split: if_splits)
next
  case (RqSession e')
  with assms show ?thesis using effects_run
    by (auto simp: request_inv_def errors_def split: if_splits option.splits)
next
  case (RqTimer e')
  then obtain t where t: "timer_internal e'" "timer_exec (rq_timer r) e' = Some t"
    "r' = fold (\<lambda>_. handleTimeOut) (drop (length (tm_calls (rq_timer r))) (tm_calls t)) (r\<lparr>rq_timer := t\<rparr>)"
    using assms(2) by (auto split: if_splits option.splits)
  have "\<not> starts e'" using t(1) by (cases e') (simp_all add: starts_def)
  moreover have "length (tm_calls (rq_timer r)) \<le> length (tm_calls t)" by (rule calls_grow [OF t(2)])
  moreover note cancelled_step [OF t(2)]
  ultimately have
    "length (tm_calls t) + potential t \<le> length (tm_calls (rq_timer r)) + potential (rq_timer r)"
    "tm_handle t = NoHandle" "length (tm_calls (rq_timer r)) \<le> length (tm_calls t)"
    using assms(1) by (auto simp: request_inv_def)
  moreover have "rq_timer r' = t" "rq_connecting r' = rq_connecting r"
    "errors r' \<le> errors r + (length (tm_calls t) - length (tm_calls (rq_timer r)))"
    using timeouts_run [of "drop (length (tm_calls (rq_timer r))) (tm_calls t)" "r\<lparr>rq_timer := t\<rparr>"] t(3)
    by (simp_all add: errors_def)
  moreover have "errors r + potential (rq_timer r) + of_bool (rq_connecting r) \<le> 1"
    using assms(1) by (simp add: request_inv_def)
  ultimately show ?thesis unfolding request_inv_def by (cases "rq_connecting r") auto
qed

definition request_init :: "buffer \<Rightarrow> bool \<Rightarrow> bool \<Rightarrow> request \<Rightarrow> bool" where
  "request_init payload hasSuccess hasError r \<longleftrightarrow> Client_request None payload hasSuccess hasError = Some r"

definition request_next :: "byte_order \<Rightarrow> request \<Rightarrow> request \<Rightarrow> bool" where
  "request_next bo r r' \<longleftrightarrow> (\<exists>e. request_exec bo r e = Some r')"

interpretation request_errors:
  inductive_invariant "request_init payload hasSuccess hasError" "request_next bo" request_inv
  for payload hasSuccess hasError bo
proof unfold_locales
  show "request_inv r" if "request_init payload hasSuccess hasError r" for r
    using that by (auto simp: request_init_def Client_request_def request_inv_def errors_def Timer_create_def
        potential_def)
  show "request_inv r'" if "request_inv r" "request_next bo r r'" for r r'
    using that request_inv_exec by (auto simp: request_next_def)
qed

section \<open>Properties\<close>

text \<open>C36. \<open>Client::request\<close> reports an error at most once, whatever the connection, the session and the
  timer do, and none before the connection attempt has completed.\<close>

theorem request_error_once:
  assumes "reach (request_init payload hasSuccess hasError) (request_next bo) r"
  shows "count_list (rq_reports r) OnError + of_bool (rq_connecting r) \<le> 1"
  using request_errors.reachable_inv [OF assms] by (simp add: request_inv_def errors_def)

text \<open>A connected request whose session waits for the header of an answer.\<close>

definition connect_events :: "request_event list" where
  "connect_events = [RqConnected None None, RqTimer (TStrand True 0), RqSession SocketStrand,
     RqSession (Complete 0 None []), RqSession SocketStrand, RqSession SocketStrand]"

text \<open>An empty data message arrives; the session has a read at position \<open>i\<close>.\<close>

definition answer_events :: "nat \<Rightarrow> request_event list" where
  "answer_events i = [RqSession (Complete i None (header_bytes LittleEndian (Header_create Data))),
     RqSession SocketStrand]"

lemmas answer_eval = connect_events_def answer_events_def read_into_header_def receive_header_bytes
  header.enc_width Let_def verifyHeader_def isEmpty_def

lemma request_init_the: "request_init payload hasSuccess hasError (the (Client_request None payload hasSuccess hasError))"
  by (simp add: request_init_def Client_request_def)

lemma request_reachable_run:
  assumes "run (request_exec bo) (the (Client_request None payload hasSuccess hasError)) es = Some r"
  shows "reach (request_init payload hasSuccess hasError) (request_next bo) r"
  by (rule run_invariant [OF assms])
    (auto simp: request_next_def intro: reach.reach_init [of "request_init payload hasSuccess hasError"]
      request_init_the reach.reach_step)

lemma timed_out_run:
  "\<exists>r. run (request_exec LittleEndian) (the (Client_request None payload True True)) (connect_events @
       [RqTimer (TExpire 0 None), RqTimer (TStrand True 0)]) = Some r \<and> rq_reports r = [OnError]"
  by (simp add: run_simps answer_eval)

theorem request_error_once_witness:
  "\<exists>r. reach (request_init Buffer_default True True) (request_next LittleEndian) r \<and> rq_reports r = [OnError] \<and>
     \<not> rq_connecting r"
proof -
  obtain r where r: "run (request_exec LittleEndian) (the (Client_request None Buffer_default True True))
      (connect_events @ [RqTimer (TExpire 0 None), RqTimer (TStrand True 0)]) = Some r" "rq_reports r = [OnError]"
    using timed_out_run by blast
  note reached = request_reachable_run [OF r(1)]
  from request_error_once [OF reached] r(2) have "\<not> rq_connecting r" by (cases "rq_connecting r") auto
  with reached r(2) show ?thesis by blast
qed

end
