(* ===== verification/RequestReports.thy ===== *)
theory RequestReports
  imports SessionRest Clients
begin

text \<open>
  Every request is answered for: a \<open>Client::request\<close> whose connection attempt has completed reports
  success or an error.  Its timer is started once, by the handler of \<open>async_connect\<close>; until it has
  called its function only the receive handler cancels it, and that handler reports success in the same
  step.  asio's contract on \<open>deadline_timer\<close> is that a wait ends with \<open>operation_aborted\<close> only if it is
  cancelled or restarted, which the model of the timer does itself.  And since nothing keeps a report from
  being followed by another, some requests report more than once.
\<close>

fun undisturbed :: "request_event \<Rightarrow> bool" where
  "undisturbed (RqTimer (TExpire i err)) \<longleftrightarrow> err \<noteq> Some OperationAborted"
| "undisturbed e \<longleftrightarrow> True"

definition request_next_kept :: "byte_order \<Rightarrow> request \<Rightarrow> request \<Rightarrow> bool" where
  "request_next_kept bo r r' \<longleftrightarrow> (\<exists>e. undisturbed e \<and> request_exec bo r e = Some r')"

section \<open>The timer of an unanswered request\<close>

text \<open>The number of its steps until it calls the function, if it is on the way.\<close>

definition ticking :: "unit timer \<Rightarrow> nat \<Rightarrow> bool" where
  "ticking t n \<longleftrightarrow>
     (n = 3 \<and> (\<exists>ms. tm_strand t = [StartTask ms (UserHandle ())]) \<and> tm_waits t = []) \<or>
     (n = 2 \<and> tm_strand t = [] \<and> tm_waits t = [UserHandle ()]) \<or>
     (n = 1 \<and> (\<exists>err. tm_strand t = [OnWait (UserHandle ()) err] \<and> err \<noteq> Some OperationAborted) \<and> tm_waits t = [])"

definition untouched :: "unit timer \<Rightarrow> bool" where
  "untouched t \<longleftrightarrow> tm_strand t = [] \<and> tm_waits t = []"

definition answered_for :: "buffer \<Rightarrow> request \<Rightarrow> bool" where
  "answered_for payload r \<longleftrightarrow> rq_hasError r \<and>
     serves (Some (openedHandle payload)) (Some closedHandle) (receivedHandle True) (rq_session r) \<and>
     (if rq_connecting r then untouched (rq_timer r) \<and> at_rest (rq_session r) \<and> rq_reports r = []
      else rq_reports r = [] \<longrightarrow> (\<exists>n. ticking (rq_timer r) n))"

lemma ticking_cases:
  assumes "ticking t n"
  obtains (start) ms where "n = 3" "tm_strand t = [StartTask ms (UserHandle ())]" "tm_waits t = []"
    | (wait) "n = 2" "tm_strand t = []" "tm_waits t = [UserHandle ()]"
    | (expired) err where "n = 1" "tm_strand t = [OnWait (UserHandle ()) err]" "err \<noteq> Some OperationAborted" "tm_waits t = []"
  using assms unfolding ticking_def by blast

lemma ticking_intros:
  "tm_strand t = [] \<Longrightarrow> tm_waits t = [UserHandle ()] \<Longrightarrow> ticking t 2"
  "tm_strand t = [OnWait (UserHandle ()) err] \<Longrightarrow> err \<noteq> Some OperationAborted \<Longrightarrow> tm_waits t = [] \<Longrightarrow> ticking t (Suc 0)"
  by (simp_all add: ticking_def)

lemma ticking_step:
  assumes "ticking t n" "timer_exec t e = Some u" "timer_internal e" "\<forall>i. e \<noteq> TExpire i (Some OperationAborted)"
  shows "tm_calls u = tm_calls t \<and> (\<exists>m. ticking u m) \<or> tm_calls u = tm_calls t @ [()]"
  using assms(1)
proof (cases rule: ticking_cases)
  case (start ms)
  with assms(2,3) have "u = timer_start_task ms (UserHandle ()) (t\<lparr>tm_strand := []\<rparr>)" by (cases e) simp_all
  with start have "ticking u 2" "tm_calls u = tm_calls t"
    by (simp_all add: ticking_intros timer_start_task_def abort_waits_def Let_def)
  then show ?thesis by blast
next
  case wait
  with assms(2,3) obtain i err where e: "e = TExpire i err" "i = 0" by (cases e) (simp_all split: if_splits)
  with wait assms(2) have "u = timer_post (OnWait (UserHandle ()) err) (t\<lparr>tm_waits := []\<rparr>)"
    by (simp add: remove_at_def)
  moreover have "err \<noteq> Some OperationAborted" using assms(4) e by blast
  ultimately have "ticking u (Suc 0)" "tm_calls u = tm_calls t" using wait by (simp_all add: ticking_intros timer_post_def)
  then show ?thesis by blast
next
  case (expired err)
  with assms(2,3) show ?thesis by (cases e) (auto simp: on_wait_def log_call_def)
qed

lemma ticking_fires:
  assumes "ticking t n"
  shows "\<exists>es u. length es = n \<and> list_all timer_internal es \<and> run timer_exec t es = Some u \<and> tm_calls u = tm_calls t @ [()]"
  using assms
proof (cases rule: ticking_cases)
  case (start ms)
  then show ?thesis by (intro exI [of _ "[TStrand True 0, TExpire 0 None, TStrand True 0]"])
    (simp add: timer_start_task_def abort_waits_def on_wait_def log_call_def timer_post_def Let_def)
next
  case wait
  then show ?thesis by (intro exI [of _ "[TExpire 0 None, TStrand True 0]"])
    (simp add: on_wait_def log_call_def timer_post_def)
next
  case (expired err)
  then show ?thesis by (intro exI [of _ "[TStrand True 0]"]) (simp add: on_wait_def log_call_def)
qed

section \<open>The invariant\<close>

lemma reports_kept:
  "\<exists>xs. rq_reports (fold client_effect_run es r) = rq_reports r @ xs"
  "rq_session (fold client_effect_run es r) = rq_session r" "rq_hasError (fold client_effect_run es r) = rq_hasError r"
  "rq_connecting (fold client_effect_run es r) = rq_connecting r"
proof (induction es arbitrary: r)
  case (Cons e es)
  have e: "\<exists>xs. rq_reports (client_effect_run e v) = rq_reports v @ xs" "rq_session (client_effect_run e v) = rq_session v"
    "rq_hasError (client_effect_run e v) = rq_hasError v" "rq_connecting (client_effect_run e v) = rq_connecting v" for v
    by (cases e; simp)+
  case 1
  show ?case using Cons.IH(1) [of "client_effect_run e r"] e(1) [of r] by auto
  case 2
  show ?case using Cons.IH(2) [of "client_effect_run e r"] e(2) [of r] by simp
  case 3
  show ?case using Cons.IH(3) [of "client_effect_run e r"] e(3) [of r] by simp
  case 4
  show ?case using Cons.IH(4) [of "client_effect_run e r"] e(4) [of r] by simp
qed simp_all

lemma timeouts_kept:
  "rq_timer (fold (\<lambda>_. handleTimeOut) us r) = rq_timer r"
  "rq_hasError (fold (\<lambda>_. handleTimeOut) us r) = rq_hasError r"
  "rq_connecting (fold (\<lambda>_. handleTimeOut) us r) = rq_connecting r"
  "rq_session (fold (\<lambda>_. handleTimeOut) us r) = (cancelAllPendingOperations ^^ length us) (rq_session r)"
  "rq_hasError r \<Longrightarrow> rq_reports (fold (\<lambda>_. handleTimeOut) us r) = rq_reports r @ replicate (length us) OnError"
proof (induction us arbitrary: r)
  case (Cons u us)
  have h: "rq_timer (handleTimeOut v) = rq_timer v" "rq_hasError (handleTimeOut v) = rq_hasError v"
    "rq_connecting (handleTimeOut v) = rq_connecting v"
    "rq_session (handleTimeOut v) = cancelAllPendingOperations (rq_session v)"
    "rq_hasError v \<Longrightarrow> rq_reports (handleTimeOut v) = rq_reports v @ [OnError]" for v
    by (simp_all add: handleTimeOut_def Let_def)
  case 1
  show ?case using Cons.IH(1) [of "handleTimeOut r"] h(1) by simp
  case 2
  show ?case using Cons.IH(2) [of "handleTimeOut r"] h(2) by simp
  case 3
  show ?case using Cons.IH(3) [of "handleTimeOut r"] h(3) by simp
  case 4
  show ?case using Cons.IH(4) [of "handleTimeOut r"] h(4) by (simp add: funpow_swap1)
  case 5
  then show ?case using Cons.IH(5) [of "handleTimeOut r"] h(2,5) by simp
qed simp_all

lemma serves_cancels: "serves oh ch h s \<Longrightarrow> serves oh ch h ((cancelAllPendingOperations ^^ n) s)"
  by (induction n) (simp_all add: serves_def cancelAllPendingOperations_def post_socket_def)

text \<open>What the session of a request calls outside is what its receive handler calls: it stops the timer
  and reports success.\<close>

lemma receives_report:
  assumes "serves (Some (openedHandle payload)) (Some closedHandle) (receivedHandle True) s" "session_step bo s e t" "internal e"
  shows "extCalls t = extCalls s \<or> (\<exists>p. extCalls t = extCalls s @ [StopTimer, Success p])"
    and "serves (Some (openedHandle payload)) (Some closedHandle) (receivedHandle True) t"
proof -
  have nc: "\<forall>oh ch rh. e \<noteq> Configure oh ch rh" using assms(3) by auto
  have step: "settled_step s (external s e) t" by (rule settled_session_step [OF assms(2) nc])
  have "external s e \<in> {[]} \<union> {[StopTimer, Success p] |p. True}"
    using assms(1) by (cases "(s, e)" rule: external.cases)
      (auto simp: serves_def openedHandle_def closedHandle_def receivedHandle_def handler_exts_def
        split: list.splits socket_task.splits option.splits)
  with step show "extCalls t = extCalls s \<or> (\<exists>p. extCalls t = extCalls s @ [StopTimer, Success p])"
    by (auto simp: settled_step_def)
  show "serves (Some (openedHandle payload)) (Some closedHandle) (receivedHandle True) t"
    using step assms(1) by (auto simp: serves_def settled_step_def)
qed

lemma answered_connect:
  assumes "answered_for payload r" "rq_connecting r"
  shows "answered_for payload (handleConnect err opt (r\<lparr>rq_connecting := False\<rparr>))"
proof -
  have s: "serves oh ch h t" if "serves oh ch h s" "open_session ht opt s = Inr t" for oh ch h ht
    and s t :: "client_effect session"
    using boundary_open [OF that(2)] that(1) by (simp add: serves_def boundary_def)
  have "ticking (Timer_start connectTimeOut (UserHandle ()) (rq_timer r)) 3"
    using assms by (simp add: answered_for_def untouched_def ticking_def Timer_start_def timer_post_def)
  with assms show ?thesis
    by (auto simp: answered_for_def handleConnect_def Let_def intro: s split: sum.split)
qed

lemma rest_no_step: "at_rest s \<Longrightarrow> internal e \<Longrightarrow> session_exec bo s e = None"
  by (cases e) (simp_all add: at_rest_def)

lemma answered_session:
  assumes "answered_for payload r" "internal e" "session_exec bo (rq_session r) e = Some s"
  shows "answered_for payload (fold client_effect_run (drop (length (extCalls (rq_session r))) (extCalls s)) (r\<lparr>rq_session := s\<rparr>))"
proof -
  have nc: "\<not> rq_connecting r" using assms rest_no_step [of "rq_session r" e bo] by (auto simp: answered_for_def)
  have "serves (Some (openedHandle payload)) (Some closedHandle) (receivedHandle True) (rq_session r)"
    using assms(1) by (simp add: answered_for_def)
  note R = receives_report [OF this assms(3) [unfolded session_exec_step] assms(2)]
  show ?thesis
  proof (cases "extCalls s = extCalls (rq_session r)")
    case True
    with assms(1) nc R(2) show ?thesis by (simp add: answered_for_def)
  next
    case False
    with R(1) obtain p where "drop (length (extCalls (rq_session r))) (extCalls s) = [StopTimer, Success p]" by auto
    with assms(1) nc R(2) show ?thesis by (simp add: answered_for_def)
  qed
qed

lemma answered_timer:
  assumes "answered_for payload r" "undisturbed (RqTimer e)" "timer_internal e" "timer_exec (rq_timer r) e = Some t"
  shows "answered_for payload (fold (\<lambda>_. handleTimeOut) (drop (length (tm_calls (rq_timer r))) (tm_calls t)) (r\<lparr>rq_timer := t\<rparr>))"
proof -
  have nc: "\<not> rq_connecting r"
    using assms by (cases e) (auto simp: answered_for_def untouched_def split: if_splits)
  define us where "us = drop (length (tm_calls (rq_timer r))) (tm_calls t)"
  let ?v = "fold (\<lambda>_. handleTimeOut) us (r\<lparr>rq_timer := t\<rparr>)"
  have v: "rq_timer ?v = t" "rq_hasError ?v" "\<not> rq_connecting ?v" "rq_reports ?v = rq_reports r @ replicate (length us) OnError"
    "serves (Some (openedHandle payload)) (Some closedHandle) (receivedHandle True) (rq_session ?v)"
    using assms(1) nc by (simp_all add: answered_for_def timeouts_kept serves_cancels)
  have "\<exists>n. ticking t n" if "rq_reports ?v = []"
  proof -
    have none: "rq_reports r = []" "us = []" using that v(4) by simp_all
    then obtain n where "ticking (rq_timer r) n" using assms(1) nc by (auto simp: answered_for_def)
    moreover have "\<forall>i. e \<noteq> TExpire i (Some OperationAborted)" using assms(2) by auto
    ultimately show ?thesis using ticking_step [of "rq_timer r" n e t] assms(3,4) none(2) by (auto simp: us_def)
  qed
  with v have "answered_for payload ?v" by (simp add: answered_for_def)
  then show ?thesis by (simp only: us_def)
qed

lemma answered_exec:
  assumes "answered_for payload r" "undisturbed e" "request_exec bo r e = Some r'"
  shows "answered_for payload r'"
proof (cases e)
  case (RqConnected err opt)
  with assms answered_connect show ?thesis by (auto split: if_splits)
next
  case (RqSession ev)
  with assms answered_session show ?thesis by (auto split: if_splits option.splits)
next
  case (RqTimer ev)
  with assms answered_timer show ?thesis by (auto split: if_splits option.splits)
qed

lemma answered_start: "request_init payload True True r \<Longrightarrow> answered_for payload r"
  by (auto simp: request_init_def Client_request_def answered_for_def untouched_def Timer_create_def serves_def
      at_rest_def configure_def Session_create_def)

interpretation request_answers:
  inductive_invariant "request_init payload True True" "request_next_kept bo" "answered_for payload" for payload bo
  by unfold_locales (auto simp: request_next_kept_def answered_start intro: answered_exec)

section \<open>Running the timer\<close>

lemma timer_run:
  assumes "run timer_exec (rq_timer r) es = Some t" "list_all timer_internal es" "rq_hasError r"
  shows "\<exists>r'. run (request_exec bo) r (map RqTimer es) = Some r' \<and>
    rq_reports r' = rq_reports r @ replicate (length (tm_calls t) - length (tm_calls (rq_timer r))) OnError \<and>
    length (tm_calls (rq_timer r)) \<le> length (tm_calls t)"
  using assms
proof (induction es arbitrary: r)
  case (Cons e es)
  then obtain u where u: "timer_exec (rq_timer r) e = Some u" "run timer_exec u es = Some t" "timer_internal e"
    by (auto split: option.splits)
  let ?us = "drop (length (tm_calls (rq_timer r))) (tm_calls u)"
  let ?v = "fold (\<lambda>_. handleTimeOut) ?us (r\<lparr>rq_timer := u\<rparr>)"
  have v: "request_exec bo r (RqTimer e) = Some ?v" using u(1,3) by simp
  have f: "rq_timer ?v = u" "rq_hasError ?v" "rq_reports ?v = rq_reports r @ replicate (length ?us) OnError"
    using Cons.prems(3) by (simp_all add: timeouts_kept)
  obtain r' where r': "run (request_exec bo) ?v (map RqTimer es) = Some r'"
    "rq_reports r' = rq_reports ?v @ replicate (length (tm_calls t) - length (tm_calls u)) OnError"
    "length (tm_calls u) \<le> length (tm_calls t)"
    using Cons.IH [of ?v] u(2) f(1,2) Cons.prems(2) by auto
  with v f(3) calls_grow [OF u(1)] show ?case
    by (intro exI [of _ r']) (simp flip: replicate_add)
qed simp

section \<open>The runs of the receive handler\<close>

lemma read_reports:
  assumes "answered_for payload r" "readStrand (rq_session r) = (h, p) # ts"
  shows "\<exists>r'. request_exec bo r (RqSession ReadStrand) = Some r' \<and> rq_reports r' = rq_reports r @ [OnSuccess p] \<and>
    rq_timer r' = Timer_cancel (rq_timer r) \<and> readStrand (rq_session r') = ts \<and> answered_for payload r'"
proof -
  let ?s = "rq_session r"
  let ?t = "run_calls (h p) (?s\<lparr>readStrand := ts\<rparr>)"
  have h: "h = receivedHandle True" using assms by (auto simp: answered_for_def serves_def)
  have b: "boundary ?t = (boundary (?s\<lparr>readStrand := ts\<rparr>))\<lparr>bd_calls := extCalls ?s @ [StopTimer, Success p]\<rparr>"
    by (simp add: h receivedHandle_def, simp add: boundary_def)
  then have t: "extCalls ?t = extCalls ?s @ [StopTimer, Success p]" "readStrand ?t = ts"
    by (simp_all add: boundary_def)
  have ex: "request_exec bo r (RqSession ReadStrand) =
      Some (fold client_effect_run [StopTimer, Success p] (r\<lparr>rq_session := ?t\<rparr>))"
    using assms(2) t(1) by simp
  have "answered_for payload (fold client_effect_run [StopTimer, Success p] (r\<lparr>rq_session := ?t\<rparr>))"
    by (rule answered_exec [OF assms(1) _ ex]) simp
  with ex t(2) show ?thesis by simp
qed

text \<open>The timer's handler, queued with an expiry that was not aborted, reports an error.\<close>

lemma expiry_reports:
  assumes "rq_hasError r" "tm_strand (rq_timer r) = OnWait (UserHandle ()) err # ks" "err \<noteq> Some OperationAborted"
  shows "\<exists>r'. request_exec bo r (RqTimer (TStrand ok n)) = Some r' \<and> rq_reports r' = rq_reports r @ [OnError] \<and>
    readStrand (rq_session r') = readStrand (rq_session r)"
  using assms by (simp add: on_wait_def log_call_def handleTimeOut_def cancelAllPendingOperations_def post_socket_def)

lemma reads_report:
  assumes "answered_for payload r"
  shows "\<exists>r'. run (request_exec bo) r (map (\<lambda>_. RqSession ReadStrand) (readStrand (rq_session r))) = Some r' \<and>
    rq_reports r' = rq_reports r @ map (\<lambda>(h, p). OnSuccess p) (readStrand (rq_session r))"
proof -
  have "readStrand (rq_session r) = rs \<Longrightarrow> answered_for payload r \<Longrightarrow>
      \<exists>r'. run (request_exec bo) r (map (\<lambda>_. RqSession ReadStrand) rs) = Some r' \<and>
        rq_reports r' = rq_reports r @ map (\<lambda>(h, p). OnSuccess p) rs" for rs
  proof (induction rs arbitrary: r)
    case (Cons x rs)
    obtain h p where x: "x = (h, p)" by fastforce
    obtain u where u: "request_exec bo r (RqSession ReadStrand) = Some u" "rq_reports u = rq_reports r @ [OnSuccess p]"
      "readStrand (rq_session u) = rs" "answered_for payload u"
      using read_reports [OF Cons.prems(2), of h p rs bo] Cons.prems(1) x by blast
    with Cons.IH [OF u(3,4)] x show ?case by (auto simp del: request_exec.simps)
  qed simp
  from this [OF refl assms] show ?thesis .
qed

lemma kept_run:
  assumes "run (request_exec bo) (the (Client_request None payload True True)) es = Some r" "list_all undisturbed es"
  shows "reach (request_init payload True True) (request_next_kept bo) r"
proof (rule run_invariant [OF assms(1)])
  show "reach (request_init payload True True) (request_next_kept bo) (the (Client_request None payload True True))"
    by (rule reach.reach_init) (rule request_init_the)
  show "reach (request_init payload True True) (request_next_kept bo) s'"
    if "e \<in> set es" "request_exec bo s e = Some s'" "reach (request_init payload True True) (request_next_kept bo) s" for s e s'
  proof (rule reach.reach_step [OF that(3)])
    have "undisturbed e" using that(1) assms(2) by (simp add: list_all_iff)
    with that(2) show "request_next_kept bo s s'" unfolding request_next_kept_def by blast
  qed
qed

section \<open>Properties\<close>

text \<open>C15. No request is forgotten: once its connection attempt has completed, with whatever error, a
  request that has not reported yet will: its timer is at most three steps from reporting the error,
  whatever the session does; and when nothing of the timer is outstanding, the request has reported.\<close>

theorem request_always_reports:
  assumes "reach (request_init payload True True) (request_next_kept bo) r" "\<not> rq_connecting r"
  shows "(rq_reports r = [] \<longrightarrow> (\<exists>es t. length es \<le> 3 \<and> list_all timer_internal es \<and>
      run (request_exec bo) r (map RqTimer es) = Some t \<and> rq_reports t = [OnError])) \<and>
    (tm_strand (rq_timer r) = [] \<and> tm_waits (rq_timer r) = [] \<longrightarrow> rq_reports r \<noteq> [])"
proof -
  have inv: "answered_for payload r" by (rule request_answers.reachable_inv [OF assms(1)])
  have fires: "\<exists>es t. length es \<le> 3 \<and> list_all timer_internal es \<and>
      run (request_exec bo) r (map RqTimer es) = Some t \<and> rq_reports t = [OnError]" if none: "rq_reports r = []"
  proof -
    obtain n where n: "ticking (rq_timer r) n" using inv assms(2) none by (auto simp: answered_for_def)
    then have "n \<le> 3" by (auto simp: ticking_def)
    moreover obtain es u where es: "length es = n" "list_all timer_internal es"
      "run timer_exec (rq_timer r) es = Some u" "tm_calls u = tm_calls (rq_timer r) @ [()]"
      using ticking_fires [OF n] by blast
    moreover obtain t where "run (request_exec bo) r (map RqTimer es) = Some t" "rq_reports t = [OnError]"
      using timer_run [OF es(3,2), of bo] inv es(4) none by (auto simp: answered_for_def)
    ultimately show ?thesis by blast
  qed
  moreover have "rq_reports r \<noteq> []" if "tm_strand (rq_timer r) = []" "tm_waits (rq_timer r) = []"
    using inv assms(2) that by (auto simp: answered_for_def ticking_def)
  ultimately show ?thesis by blast
qed

text \<open>A request whose connection failed: nothing reads the error, and the timer reports one.\<close>

lemma failed_run:
  "\<exists>r. run (request_exec LittleEndian) (the (Client_request None Buffer_default True True))
      [RqConnected (Some (OtherError 111)) (Some (OtherError 9)), RqTimer (TStrand True 0)] = Some r \<and>
     \<not> rq_connecting r \<and> rq_reports r = []"
  by (simp add: run_simps)

theorem request_always_reports_witness:
  "\<exists>r t es. reach (request_init Buffer_default True True) (request_next_kept LittleEndian) r \<and> rq_reports r = [] \<and>
     length es \<le> 3 \<and> run (request_exec LittleEndian) r (map RqTimer es) = Some t \<and> rq_reports t = [OnError]"
proof -
  let ?es = "[RqConnected (Some (OtherError 111)) (Some (OtherError 9)), RqTimer (TStrand True 0)]"
  obtain r where r: "run (request_exec LittleEndian) (the (Client_request None Buffer_default True True)) ?es = Some r"
    "\<not> rq_connecting r" "rq_reports r = []" using failed_run by blast
  have "reach (request_init Buffer_default True True) (request_next_kept LittleEndian) r"
    by (rule kept_run [OF r(1)]) simp
  with request_always_reports [OF this r(2)] r(3) show ?thesis by blast
qed

text \<open>C37. A request can report more than once, because nothing looks at what was reported before.  In
  every reachable state, if the timer has expired and its handler is queued while a received message waits
  for the receive handler, both report, in either order: success and then an error, or an error and then
  success.  And if several messages have been read before the receive handler runs, success is reported for
  each of them, although the first call drops the session.\<close>

theorem request_reports_twice:
  assumes "reach (request_init payload True True) (request_next_kept bo) r"
  shows "(readStrand (rq_session r) = (h, p) # rs \<and> tm_strand (rq_timer r) = OnWait (UserHandle ()) err # ks \<and>
      err \<noteq> Some OperationAborted \<longrightarrow>
      (\<exists>u. run (request_exec bo) r [RqSession ReadStrand, RqTimer (TStrand ok n)] = Some u \<and>
        rq_reports u = rq_reports r @ [OnSuccess p, OnError]) \<and>
      (\<exists>u. run (request_exec bo) r [RqTimer (TStrand ok n), RqSession ReadStrand] = Some u \<and>
        rq_reports u = rq_reports r @ [OnError, OnSuccess p])) \<and>
    (\<exists>u. run (request_exec bo) r (map (\<lambda>_. RqSession ReadStrand) (readStrand (rq_session r))) = Some u \<and>
      rq_reports u = rq_reports r @ map (\<lambda>(h, p). OnSuccess p) (readStrand (rq_session r)))"
proof -
  have inv: "answered_for payload r" by (rule request_answers.reachable_inv [OF assms])
  then have he: "rq_hasError r" by (simp add: answered_for_def)
  have "(\<exists>u. run (request_exec bo) r [RqSession ReadStrand, RqTimer (TStrand ok n)] = Some u \<and>
        rq_reports u = rq_reports r @ [OnSuccess p, OnError]) \<and>
      (\<exists>u. run (request_exec bo) r [RqTimer (TStrand ok n), RqSession ReadStrand] = Some u \<and>
        rq_reports u = rq_reports r @ [OnError, OnSuccess p])"
    if c: "readStrand (rq_session r) = (h, p) # rs" "tm_strand (rq_timer r) = OnWait (UserHandle ()) err # ks"
      "err \<noteq> Some OperationAborted"
  proof
    obtain v where v: "request_exec bo r (RqSession ReadStrand) = Some v" "rq_reports v = rq_reports r @ [OnSuccess p]"
      "rq_timer v = Timer_cancel (rq_timer r)" "answered_for payload v" using read_reports [OF inv c(1)] by blast
    have "tm_strand (rq_timer v) = OnWait (UserHandle ()) err # ks @ [CancelTask]"
      using c(2) v(3) by (simp add: Timer_cancel_def timer_post_def)
    from expiry_reports [OF _ this c(3), of bo ok n] v
    show "\<exists>u. run (request_exec bo) r [RqSession ReadStrand, RqTimer (TStrand ok n)] = Some u \<and>
        rq_reports u = rq_reports r @ [OnSuccess p, OnError]"
      by (auto simp: answered_for_def simp del: request_exec.simps)
    obtain w where w: "request_exec bo r (RqTimer (TStrand ok n)) = Some w" "rq_reports w = rq_reports r @ [OnError]"
      "readStrand (rq_session w) = (h, p) # rs" using expiry_reports [OF he c(2,3)] c(1) by metis
    have "answered_for payload w" by (rule answered_exec [OF inv _ w(1)]) simp
    from read_reports [OF this w(3), of bo] w(1,2)
    show "\<exists>u. run (request_exec bo) r [RqTimer (TStrand ok n), RqSession ReadStrand] = Some u \<and>
        rq_reports u = rq_reports r @ [OnError, OnSuccess p]"
      by (auto simp del: request_exec.simps)
  qed
  with reads_report [OF inv] show ?thesis by blast
qed

text \<open>Two answers have been read and the timer has expired before any of their handlers runs.\<close>

lemma late_answers_run:
  "\<exists>r h. run (request_exec LittleEndian) (the (Client_request None payload True True)) (connect_events @
       answer_events 0 @ answer_events 1 @ [RqTimer (TExpire 0 None)]) = Some r \<and> rq_reports r = [] \<and>
     readStrand (rq_session r) = [(h, Buffer_default), (h, Buffer_default)] \<and>
     tm_strand (rq_timer r) = [OnWait (UserHandle ()) None]"
  by (simp add: run_simps answer_eval)

theorem request_reports_twice_witness:
  "\<exists>r u v. reach (request_init Buffer_default True True) (request_next_kept LittleEndian) r \<and>
     run (request_exec LittleEndian) r [RqSession ReadStrand, RqTimer (TStrand True 0)] = Some u \<and>
     rq_reports u = [OnSuccess Buffer_default, OnError] \<and>
     run (request_exec LittleEndian) r [RqSession ReadStrand, RqSession ReadStrand] = Some v \<and>
     rq_reports v = [OnSuccess Buffer_default, OnSuccess Buffer_default]"
proof -
  let ?es = "connect_events @ answer_events 0 @ answer_events 1 @ [RqTimer (TExpire 0 None)]"
  obtain r h where r: "run (request_exec LittleEndian) (the (Client_request None Buffer_default True True)) ?es = Some r"
    "rq_reports r = []" "readStrand (rq_session r) = [(h, Buffer_default), (h, Buffer_default)]"
    "tm_strand (rq_timer r) = [OnWait (UserHandle ()) None]" using late_answers_run by blast
  have k: "reach (request_init Buffer_default True True) (request_next_kept LittleEndian) r"
    by (rule kept_run [OF r(1)]) (simp add: connect_events_def answer_events_def)
  from request_reports_twice [OF k, of h Buffer_default "[(h, Buffer_default)]" None "[]" True 0] r(2-4) k
  show ?thesis by (auto simp del: run.simps request_exec.simps)
qed

end
