(* ===== verification/ThreadPools.thy ===== *)
theory ThreadPools
  imports Prelude
begin

text \<open>
  \<open>src/utils/Misc/include/ThreadPool.h\<close>: the loop of a worker thread and the pool that joins its
  threads.  What successive calls of \<open>ioService_.run()\<close> do is up to asio and the posted work: a
  sequence of outcomes.  The loop may run for ever, so it is a partial function into \<open>option\<close>, and
  \<open>None\<close> is a thread that never ends.
\<close>

datatype run_outcome = Returned | Raised string | RaisedOther

text \<open>The handler gets the message of the exception and says whether to stop; \<open>None\<close> is the empty
  \<open>boost::function\<close>.\<close>

type_synonym exception_handler = "(string \<Rightarrow> bool) option"

text \<open>\<open>stopped\<close> after one round of the loop.\<close>

fun run_round :: "exception_handler \<Rightarrow> run_outcome \<Rightarrow> bool" where
  "run_round h Returned = True"
| "run_round h (Raised what) = (case h of None \<Rightarrow> False | Some f \<Rightarrow> f what)"
| "run_round h RaisedOther = (case h of None \<Rightarrow> False | Some f \<Rightarrow> f ''Unknown thread pool exception'')"

text \<open>The loop from its \<open>i\<close>-th round; the result is the number of rounds made.\<close>

partial_function (option) ThreadPool_loop ::
    "exception_handler \<Rightarrow> (nat \<Rightarrow> run_outcome) \<Rightarrow> nat \<Rightarrow> nat option" where
  "ThreadPool_loop h outs i = (if run_round h (outs i) then Some (Suc i) else ThreadPool_loop h outs (Suc i))"

definition ThreadPool_run :: "exception_handler \<Rightarrow> (nat \<Rightarrow> run_outcome) \<Rightarrow> nat option" where
  "ThreadPool_run h outs = ThreadPool_loop h outs 0"

section \<open>The pool\<close>

record thread_pool =
  tp_threads :: nat
  tp_work :: bool
  tp_handler :: exception_handler

definition addThread :: "thread_pool \<Rightarrow> thread_pool" where
  "addThread p = p\<lparr>tp_threads := Suc (tp_threads p)\<rparr>"

fun add_threads :: "nat \<Rightarrow> thread_pool \<Rightarrow> thread_pool" where
  "add_threads 0 p = p"
| "add_threads (Suc n) p = add_threads n (addThread p)"

definition ThreadPool_create :: "nat \<Rightarrow> exception_handler \<Rightarrow> thread_pool" where
  "ThreadPool_create n h = add_threads n \<lparr>tp_threads = 0, tp_work = True, tp_handler = h\<rparr>"

definition setExceptionHandler :: "exception_handler \<Rightarrow> thread_pool \<Rightarrow> thread_pool" where
  "setExceptionHandler h p = p\<lparr>tp_handler := h\<rparr>"

text \<open>\<open>join_all\<close> returns when every thread has ended; \<open>outs k\<close> are the outcomes in thread \<open>k\<close>.\<close>

definition join_all :: "thread_pool \<Rightarrow> (nat \<Rightarrow> nat \<Rightarrow> run_outcome) \<Rightarrow> unit option" where
  "join_all p outs =
    (if list_all (\<lambda>k. ThreadPool_run (tp_handler p) (outs k) \<noteq> None) [0..<tp_threads p] then Some () else None)"

definition ThreadPool_stop :: "(nat \<Rightarrow> nat \<Rightarrow> run_outcome) \<Rightarrow> thread_pool \<Rightarrow> thread_pool option" where
  "ThreadPool_stop outs p = (let p1 = p\<lparr>tp_work := False\<rparr>
     in map_option (\<lambda>_. p1\<lparr>tp_threads := 0\<rparr>) (join_all p1 outs))"

text \<open>The handlers of the programs, of \<open>Server\<close> and of \<open>Client\<close> log the message and return \<open>false\<close>.\<close>

definition exceptionHandle :: "string \<Rightarrow> bool" where
  "exceptionHandle msg = False"

section \<open>Lemmas\<close>

lemma loop_some:
  assumes "ThreadPool_loop h outs i = Some n"
  shows "i < n \<and> run_round h (outs (n - 1)) \<and> (\<forall>j. i \<le> j \<and> j < n - 1 \<longrightarrow> \<not> run_round h (outs j))"
proof (rule ThreadPool_loop.raw_induct [OF _ assms])
  fix loop h outs i n
  assume IH: "\<And>h outs i n. loop h outs i = Some n \<Longrightarrow>
      i < n \<and> run_round h (outs (n - 1)) \<and> (\<forall>j. i \<le> j \<and> j < n - 1 \<longrightarrow> \<not> run_round h (outs j))"
    and prem: "(if run_round h (outs i) then Some (Suc i) else loop h outs (Suc i)) = Some n"
  show "i < n \<and> run_round h (outs (n - 1)) \<and> (\<forall>j. i \<le> j \<and> j < n - 1 \<longrightarrow> \<not> run_round h (outs j))"
  proof (cases "run_round h (outs i)")
    case True
    with prem show ?thesis by auto
  next
    case False
    with prem IH [of h outs "Suc i" n] show ?thesis
      by simp (metis Suc_leI le_eq_less_or_eq)
  qed
qed

lemma loop_reaches: "i \<le> n \<Longrightarrow> run_round h (outs n) \<Longrightarrow> \<exists>m. ThreadPool_loop h outs i = Some m"
proof (induction "n - i" arbitrary: i)
  case 0
  then show ?case by (simp add: ThreadPool_loop.simps)
next
  case (Suc k)
  then have "\<exists>m. ThreadPool_loop h outs (Suc i) = Some m" by simp
  then show ?case by (subst ThreadPool_loop.simps) simp
qed

lemma run_None: "ThreadPool_run h outs = None \<longleftrightarrow> (\<forall>i. \<not> run_round h (outs i))"
  using loop_some [of h outs 0] loop_reaches [of 0 _ h outs]
  by (cases "ThreadPool_run h outs") (auto simp: ThreadPool_run_def)

lemma run_round_exceptionHandle [simp]: "run_round (Some exceptionHandle) out \<longleftrightarrow> out = Returned"
  by (cases out) (simp_all add: exceptionHandle_def)

lemma threads_add [simp]: "tp_threads (add_threads n p) = n + tp_threads p"
  "tp_handler (add_threads n p) = tp_handler p" "tp_work (add_threads n p) = tp_work p"
  by (induction n arbitrary: p) (simp_all add: addThread_def)

section \<open>Properties\<close>

text \<open>A worker thread ends exactly at the first round in which \<open>run()\<close> returns or the exception
  handler asks to stop, and never ends if there is none.\<close>

lemma thread_ends_at_first_stop:
  "(ThreadPool_run h outs = Some (Suc n) \<longleftrightarrow> run_round h (outs n) \<and> (\<forall>j<n. \<not> run_round h (outs j))) \<and>
   (ThreadPool_run h outs = None \<longleftrightarrow> (\<forall>i. \<not> run_round h (outs i))) \<and>
   ThreadPool_run h outs \<noteq> Some 0"
proof (intro conjI)
  show "ThreadPool_run h outs = None \<longleftrightarrow> (\<forall>i. \<not> run_round h (outs i))" by (rule run_None)
  show "ThreadPool_run h outs \<noteq> Some 0" using loop_some [of h outs 0 0] by (auto simp: ThreadPool_run_def)
  show "ThreadPool_run h outs = Some (Suc n) \<longleftrightarrow> run_round h (outs n) \<and> (\<forall>j<n. \<not> run_round h (outs j))"
  proof
    assume "ThreadPool_run h outs = Some (Suc n)"
    with loop_some [of h outs 0 "Suc n"] show "run_round h (outs n) \<and> (\<forall>j<n. \<not> run_round h (outs j))"
      by (simp add: ThreadPool_run_def)
  next
    assume r: "run_round h (outs n) \<and> (\<forall>j<n. \<not> run_round h (outs j))"
    then obtain m where m: "ThreadPool_loop h outs 0 = Some m" using loop_reaches [of 0 n h outs] by blast
    from loop_some [OF m] r have "\<not> m - 1 < n" "\<not> n < m - 1" "0 < m" by auto
    with m show "ThreadPool_run h outs = Some (Suc n)" by (simp add: ThreadPool_run_def)
  qed
qed

lemma thread_ends_at_first_stop_witness:
  "ThreadPool_run (Some exceptionHandle) (\<lambda>i. if i < 2 then Raised ''x'' else Returned) = Some 3"
proof -
  let ?outs = "\<lambda>i::nat. if i < 2 then Raised ''x'' else Returned"
  have "ThreadPool_run (Some exceptionHandle) ?outs = Some (Suc 2)"
    by (rule thread_ends_at_first_stop [THEN conjunct1, THEN iffD2]) (simp add: exceptionHandle_def)
  then show ?thesis by simp
qed

text \<open>C30. Under the exception handlers this program installs, \<open>ThreadPool::stop\<close> returns exactly if in
  every thread some call of \<open>run()\<close> returns normally: exceptions never end a thread, and one thread
  whose \<open>run()\<close> only throws makes \<open>stop\<close> wait for ever.\<close>

theorem pool_stop_returns_iff:
  "(ThreadPool_stop outs (setExceptionHandler (Some exceptionHandle) (ThreadPool_create n h)) \<noteq> None) \<longleftrightarrow>
     (\<forall>k<n. \<exists>i. outs k i = Returned)"
proof -
  have "(ThreadPool_stop outs (setExceptionHandler (Some exceptionHandle) (ThreadPool_create n h)) \<noteq> None) \<longleftrightarrow>
      list_all (\<lambda>k. ThreadPool_run (Some exceptionHandle) (outs k) \<noteq> None) [0..<n]"
    by (simp add: ThreadPool_stop_def join_all_def setExceptionHandler_def ThreadPool_create_def Let_def)
  also have "\<dots> \<longleftrightarrow> (\<forall>k<n. \<exists>i. outs k i = Returned)"
    using run_None [of "Some exceptionHandle"] by (auto simp: list_all_iff)
  finally show ?thesis .
qed

theorem pool_stop_returns_iff_witness:
  "ThreadPool_stop (\<lambda>k i. if i = k then Returned else RaisedOther)
     (setExceptionHandler (Some exceptionHandle) (ThreadPool_create 16 None)) \<noteq> None \<and>
   ThreadPool_stop (\<lambda>k i. RaisedOther)
     (setExceptionHandler (Some exceptionHandle) (ThreadPool_create 16 None)) = None"
proof -
  let ?outs = "\<lambda>k i :: nat. if i = k then Returned else RaisedOther"
  have "\<forall>k<16. \<exists>i. ?outs k i = Returned" by simp
  then have "ThreadPool_stop ?outs
      (setExceptionHandler (Some exceptionHandle) (ThreadPool_create 16 None)) \<noteq> None"
    by (simp only: pool_stop_returns_iff)
  moreover have "\<not> (\<forall>k<16::nat. \<exists>i::nat. RaisedOther = Returned)"
    by (auto intro: exI [of _ 0])
  then have "ThreadPool_stop (\<lambda>k i. RaisedOther)
      (setExceptionHandler (Some exceptionHandle) (ThreadPool_create 16 None)) = None"
    using pool_stop_returns_iff [of "\<lambda>k i. RaisedOther" 16 None] by blast
  ultimately show ?thesis by blast
qed

end
