(* ===== verification/SessionTwins.thy ===== *)
theory SessionTwins
  imports SessionLifecycle HTTPLifecycle
begin

text \<open>
  \<open>Session\<close> and \<open>ClientHTTPSession\<close> are two copies of one design.  This theory says how far they
  agree: \<open>twin\<close> takes a session to the state of a \<open>ClientHTTPSession\<close> (messages to the bytes of their
  payloads, the header read to a read of any bytes, timers dropped), and every event that both
  classes have commutes with it.  The classes part where their code does: when a read has completed,
  when the read timer sends a ping or gives up, and when a handshake completes on a session that has
  been closed (\<open>Session::handleHandshake\<close> marks it connected again, \<open>ClientHTTPSession\<close> does not).
\<close>

section \<open>The twin of a session\<close>

fun twin_call :: "'x call \<Rightarrow> 'x http_call" where
  "twin_call (CallSend p) = HCallSend (Buffer_view p)"
| "twin_call CallDrop = HCallDrop"
| "twin_call CallCancel = HCallCancel"
| "twin_call (CallExt x) = HCallExt x"

definition twin_receiver :: "'x receive_handler \<Rightarrow> 'x http_receive_handler" where
  "twin_receiver h = (\<lambda>bs. map twin_call (h \<lparr>buf_data = bs, buf_size = length bs, buf_busy = False\<rparr>))"

definition twin_message :: "message \<Rightarrow> bytes" where
  "twin_message m = Buffer_view (msg_payload m)"

fun twin_task :: "socket_task \<Rightarrow> http_task" where
  "twin_task (RunAsyncHandshake ht) = HRunHandshake"
| "twin_task RunCancel = HRunCancel"
| "twin_task RunClose = HRunClose"
| "twin_task (RunAsyncWrite m) = HRunWrite (twin_message m)"
| "twin_task (OnHandshake err) = HOnHandshake err"
| "twin_task (OnWrite m err) = HOnWrite (twin_message m) err"
| "twin_task (OnReadHeader m err) = HOnRead [] err 0"
| "twin_task (OnReadBody m err) = HOnRead [] err 0"

fun twin_op :: "asio_op \<Rightarrow> http_op" where
  "twin_op (OpHandshake ht) = HOpHandshake"
| "twin_op (OpWrite m) = HOpWrite (twin_message m)"
| "twin_op (OpReadHeader m) = HOpRead (vector_resize (1024 * 10) [])"
| "twin_op (OpReadBody m) = HOpRead (vector_resize (1024 * 10) [])"

fun twin_request :: "asio_request \<Rightarrow> http_request list" where
  "twin_request SetNoDelay = [HSetNoDelay]"
| "twin_request (AsyncHandshake ht) = [HAsyncHandshake]"
| "twin_request (AsyncReadHeader n) = [HAsyncRead (1024 * 10)]"
| "twin_request (AsyncWrite m) = [HAsyncWrite (twin_message m)]"
| "twin_request SocketCancel = [HSocketCancel]"
| "twin_request SocketShutdown = [HSocketShutdown]"
| "twin_request SocketClose = [HSocketClose]"
| "twin_request _ = []"

definition twin :: "'x session \<Rightarrow> 'x http_session" where
  "twin s = \<lparr>hs_isConnected = isConnected s,
     hs_openHandler = map_option (map twin_call) (openHandler s),
     hs_closeHandler = map_option (map twin_call) (closeHandler s),
     hs_receiveHandler = map_option twin_receiver (receiveHandler s),
     hs_writeQueue = map twin_message (writeQueue s),
     hs_socketStrand = map twin_task (socketStrand s),
     hs_readStrand = map (\<lambda>(h, p). (twin_receiver h, Buffer_view p)) (readStrand s),
     hs_pendingOps = map twin_op (pendingOps s),
     hs_issued = concat (map twin_request (issued s)),
     hs_extCalls = extCalls s\<rparr>"

text \<open>The events of the timer have no counterpart.\<close>

fun twin_event :: "'x event \<Rightarrow> 'x http_event option" where
  "twin_event (Configure oh ch rh) = Some (HConfigure (map_option (map twin_call) oh)
     (map_option (map twin_call) ch) (map_option twin_receiver rh))"
| "twin_event (Open ht opt) = Some (HOpen opt)"
| "twin_event (Send p) = Some (HSend (Buffer_view p))"
| "twin_event Drop = Some HDrop"
| "twin_event CancelAll = Some HCancelAll"
| "twin_event SocketStrand = Some HSocketStrand"
| "twin_event ReadStrand = Some HReadStrand"
| "twin_event (Complete i err bs) = Some (HComplete i err bs)"
| "twin_event (TimerStrand now rnd) = None"
| "twin_event (TimerDone err) = None"

text \<open>What both classes do: nothing has been read, the timeout task does not run, and a handshake is
  handled on a connected session.\<close>

definition unread :: "'x session \<Rightarrow> bool" where
  "unread s \<longleftrightarrow> list_all (\<lambda>t. task_reads t = 0) (socketStrand s) \<and> readStrand s = []"

fun shared_event :: "'x session \<Rightarrow> 'x event \<Rightarrow> bool" where
  "shared_event s (Complete i err bs) \<longleftrightarrow> i < length (pendingOps s) \<longrightarrow> op_reads (pendingOps s ! i) = 0"
| "shared_event s (TimerStrand now rnd) \<longleftrightarrow> (case readTimerStrand s of [] \<Rightarrow> False | t # _ \<Rightarrow> t \<noteq> RunTimeOut)"
| "shared_event s (TimerDone err) \<longleftrightarrow> 0 < timerWaits s"
| "shared_event s SocketStrand \<longleftrightarrow> orderly s SocketStrand"
| "shared_event s _ \<longleftrightarrow> True"

section \<open>Operations commute with the twin\<close>

lemma twin_frame [simp]:
  "twin (s\<lparr>lastTimeRead := l\<rparr>) = twin s" "twin (s\<lparr>timerWaits := n\<rparr>) = twin s"
  "twin (s\<lparr>readTimerStrand := ts\<rparr>) = twin s" "twin (post_timer t s) = twin s"
  "twin (cancelReadTimer s) = twin s" "twin (restartReadTimer s) = twin s"
  by (simp_all add: twin_def post_timer_def cancelReadTimer_def restartReadTimer_def)

lemma twin_post: "twin (post_socket t s) = http_post (twin_task t) (twin s)"
  by (simp add: twin_def post_socket_def http_post_def)

lemma twin_start_op: "twin (start_op op s) = http_start_op (twin_op op) (twin s)"
  by (simp add: twin_def start_op_def http_start_op_def)

lemma twin_issue: "twin_request r = [q] \<Longrightarrow> twin (issue r s) = http_issue q (twin s)"
  "twin_request r = [] \<Longrightarrow> twin (issue r s) = twin s"
  by (simp_all add: twin_def issue_def http_issue_def)

lemma twin_configure: "twin (configure oh ch rh s) = http_configure (map_option (map twin_call) oh)
    (map_option (map twin_call) ch) (map_option twin_receiver rh) (twin s)"
  by (simp add: twin_def configure_def http_configure_def)

lemma twin_cancel: "twin (cancelAllPendingOperations s) = http_cancelAllPendingOperations (twin s)"
  by (simp add: cancelAllPendingOperations_def http_cancelAllPendingOperations_def twin_post)

lemma twin_sel [simp]:
  "hs_isConnected (twin s) = isConnected s" "hs_writeQueue (twin s) = map twin_message (writeQueue s)"
  "hs_openHandler (twin s) = map_option (map twin_call) (openHandler s)"
  "hs_closeHandler (twin s) = map_option (map twin_call) (closeHandler s)"
  "hs_pendingOps (twin s) = map twin_op (pendingOps s)"
  "hs_socketStrand (twin s) = map twin_task (socketStrand s)"
  by (simp_all add: twin_def)

lemma twin_update:
  "twin (s\<lparr>isConnected := b\<rparr>) = (twin s)\<lparr>hs_isConnected := b\<rparr>"
  "twin (s\<lparr>writeQueue := q\<rparr>) = (twin s)\<lparr>hs_writeQueue := map twin_message q\<rparr>"
  "twin (s\<lparr>socketStrand := ts\<rparr>) = (twin s)\<lparr>hs_socketStrand := map twin_task ts\<rparr>"
  "twin (s\<lparr>pendingOps := ops\<rparr>) = (twin s)\<lparr>hs_pendingOps := map twin_op ops\<rparr>"
  by (simp_all add: twin_def)

lemma twin_close: "twin (close s) = http_close (twin s)"
  "twin (drop_session s) = http_drop (twin s)"
proof -
  show c: "twin (close s) = http_close (twin s)"
    by (simp add: close_spec http_close_def http_cancelAllPendingOperations_def http_post_def Let_def)
      (simp add: twin_def)
  then show "twin (drop_session s) = http_drop (twin s)" by (simp add: drop_session_def http_drop_def)
qed

lemma twin_open: "(case open_session ht opt s of Inl _ \<Rightarrow> twin s | Inr t \<Rightarrow> twin t) =
    (case http_open opt (twin s) of Inl _ \<Rightarrow> twin s | Inr t \<Rightarrow> t)"
  by (cases opt) (simp_all add: open_session_def http_open_def configureSocket_def
      http_configureSocket_def twin_post twin_issue twin_update)

lemma twin_writeNext: "twin (writeNext s) = http_writeNext (twin s)"
  by (simp add: writeNext_def http_writeNext_def twin_post split: list.split)

lemma twin_send: "twin (send p s) = http_send (Buffer_view p) (twin s)"
  by (simp add: send_def send_message_def http_send_def twin_writeNext twin_update twin_message_def Let_def)

lemma twin_asyncWrite: "twin (asyncWrite m s) = http_asyncWrite (twin_message m) (twin s)"
  by (simp add: asyncWrite_def http_asyncWrite_def twin_start_op twin_issue)

lemma twin_handleWrite: "twin (handleWrite m err s) = http_handleWrite (twin_message m) err (twin s)"
  by (simp add: handleWrite_def http_handleWrite_def twin_writeNext twin_close twin_update Let_def map_tl)

lemma twin_run_call: "twin (run_call c s) = http_run_call (twin_call c) (twin s)"
  by (cases c) (simp_all add: twin_send twin_close twin_cancel, simp add: twin_def)

lemma twin_run_handler:
  "twin (run_handler h s) = http_run_handler (map_option (map twin_call) h) (twin s)"
proof -
  have "twin (run_calls cs s) = http_run_calls (map twin_call cs) (twin s)" for cs
    unfolding run_calls_def http_run_calls_def
    by (induction cs arbitrary: s) (simp_all add: twin_run_call)
  then show ?thesis by (cases h) (simp_all add: run_handler_def http_run_handler_def)
qed

lemma twin_close_task: "twin (close_task s) = http_close_task (twin s)"
  by (simp add: close_task_def http_close_task_def twin_run_handler twin_issue twin_update Let_def)
    (simp add: twin_def issue_def http_issue_def)

lemma twin_asyncHandshake: "twin (asyncHandshake ht s) = http_asyncHandshake (twin s)"
  by (simp add: asyncHandshake_def http_asyncHandshake_def twin_start_op twin_issue)

lemma twin_readNext: "twin (readNext s) = http_readNext (twin s)"
  by (simp add: readNext_def asyncReadHeader_def http_readNext_def http_asyncRead_def twin_start_op twin_issue)

lemma twin_handleHandshake:
  "isConnected s \<Longrightarrow> twin (handleHandshake err s) = http_handleHandshake err (twin s)"
proof -
  assume "isConnected s"
  then have s: "s\<lparr>isConnected := True\<rparr> = s" by simp
  let ?t = "readNext (post_timer RunTouch s)"
  have t: "twin ?t = http_readNext (twin s)" by (simp add: twin_readNext)
  have "openHandler ?t = openHandler s"
    by (simp add: readNext_def asyncReadHeader_def restartReadTimer_def post_timer_def start_op_def issue_def)
  moreover have "hs_openHandler (http_readNext (twin s)) = map_option (map twin_call) (openHandler s)"
    by (simp add: http_readNext_def http_asyncRead_def http_start_op_def http_issue_def)
  ultimately show ?thesis
    by (simp add: handleHandshake_def http_handleHandshake_def s t twin_run_handler twin_close Let_def)
qed

lemma twin_task_run:
  assumes "task_reads t = 0" "\<forall>err. t = OnHandshake err \<longrightarrow> isConnected s"
  shows "twin (run_socket_task t s) = http_run_task (twin_task t) (twin s)"
  using assms by (cases t) (simp_all add: twin_asyncHandshake twin_issue twin_close_task twin_asyncWrite
      twin_handleHandshake twin_handleWrite)

lemma twin_timer: "t \<noteq> RunTimeOut \<Longrightarrow> twin (run_timer_task now rnd t s) = twin s"
  by (cases t) (simp_all add: restart_timer_task_def cancel_timer_task_def twin_issue Let_def)

section \<open>Nothing has been read\<close>

lemma unread_frame [simp]:
  "unread (s\<lparr>isConnected := b\<rparr>) = unread s" "unread (s\<lparr>writeQueue := q\<rparr>) = unread s"
  "unread (s\<lparr>pendingOps := ops\<rparr>) = unread s" "unread (s\<lparr>lastTimeRead := l\<rparr>) = unread s"
  "unread (s\<lparr>timerWaits := n\<rparr>) = unread s" "unread (s\<lparr>readTimerStrand := ts\<rparr>) = unread s"
  "unread (s\<lparr>extCalls := xs\<rparr>) = unread s" "unread (post_timer tt s) = unread s"
  "unread (issue r s) = unread s" "unread (start_op op s) = unread s"
  "unread (configure oh ch rh s) = unread s"
  "unread (post_socket t s) \<longleftrightarrow> unread s \<and> task_reads t = 0"
  by (auto simp: unread_def post_timer_def issue_def start_op_def configure_def post_socket_def)

lemma unread_quiet [simp]:
  "unread (cancelAllPendingOperations s) = unread s" "unread (cancelReadTimer s) = unread s"
  "unread (restartReadTimer s) = unread s" "unread (close s) = unread s"
  "unread (drop_session s) = unread s" "unread (writeNext s) = unread s" "unread (send p s) = unread s"
  "unread (asyncHandshake ht s) = unread s" "unread (asyncWrite m s) = unread s"
  "unread (readNext s) = unread s" "unread (handleWrite m err s) = unread s"
  "unread (handleReadTimeOut err s) = unread s"
  by (simp_all add: cancelAllPendingOperations_def cancelReadTimer_def restartReadTimer_def close_def
      drop_session_def writeNext_def send_def send_message_def asyncHandshake_def asyncWrite_def
      readNext_def asyncReadHeader_def handleWrite_def handleReadTimeOut_def Let_def split: list.split)

lemma unread_calls [simp]: "unread (run_handler h s) = unread s"
proof -
  have "unread (run_calls cs s) = unread s" for cs
  proof (induction cs arbitrary: s)
    case (Cons c cs)
    then show ?case by (cases c) simp_all
  qed simp
  then show ?thesis by (simp add: run_handler_def split: option.split)
qed

lemma unread_task: "task_reads t = 0 \<Longrightarrow> unread (run_socket_task t s) = unread s"
  by (cases t) (simp_all add: close_task_def handleHandshake_def Let_def)

lemma unread_timer: "t \<noteq> RunTimeOut \<Longrightarrow> unread (run_timer_task now rnd t s) = unread s"
  by (cases t) (simp_all add: restart_timer_task_def cancel_timer_task_def Let_def)

lemma unread_open: "open_session ht opt s = Inr t \<Longrightarrow> unread t = unread s"
  by (auto simp: open_session_def configureSocket_def split: if_splits option.splits)

lemma unread_pop: "unread s \<Longrightarrow> socketStrand s = t # ts \<Longrightarrow> unread (s\<lparr>socketStrand := ts\<rparr>) \<and> task_reads t = 0"
  by (simp add: unread_def)

section \<open>Events commute with the twin\<close>

lemma twin_complete:
  assumes "i < length (pendingOps s)" "op_reads (pendingOps s ! i) = 0"
  shows "twin (post_socket (completion bo (pendingOps s ! i) err bs)
      (s\<lparr>pendingOps := remove_at i (pendingOps s)\<rparr>)) =
    http_post (http_completion (hs_pendingOps (twin s) ! i) err bs)
      ((twin s)\<lparr>hs_pendingOps := remove_at i (hs_pendingOps (twin s))\<rparr>)"
proof -
  have "twin_task (completion bo (pendingOps s ! i) err bs) = http_completion (twin_op (pendingOps s ! i)) err bs"
    using assms(2) by (cases "pendingOps s ! i") simp_all
  with assms(1) show ?thesis
    by (simp add: twin_post twin_update remove_at_def take_map drop_map)
qed

lemma twin_step:
  assumes "unread s" "shared_event s e"
  shows "(case twin_event e of
      None \<Rightarrow> map_option twin (session_exec bo s e) = Some (twin s)
    | Some e' \<Rightarrow> http_exec (twin s) e' = map_option twin (session_exec bo s e))"
proof (cases e)
  case (Open ht opt)
  then show ?thesis using twin_open [where ht = ht and opt = opt and s = s] by (simp split: sum.splits)
next
  case SocketStrand
  show ?thesis
  proof (cases "socketStrand s")
    case (Cons t ts)
    have "\<forall>err. t = OnHandshake err \<longrightarrow> isConnected (s\<lparr>socketStrand := ts\<rparr>)"
      using assms(2) SocketStrand Cons by (auto simp: orderly_def)
    from twin_task_run [OF _ this] unread_pop [OF assms(1) Cons] SocketStrand Cons
    show ?thesis by (simp add: twin_update)
  qed (use SocketStrand in simp)
next
  case ReadStrand
  with assms(1) show ?thesis by (simp add: unread_def twin_def)
next
  case (TimerStrand now rnd)
  with assms(2) show ?thesis by (auto simp: twin_timer split: list.splits)
next
  case (Complete i err bs)
  with assms(2) twin_complete [of i s bo err bs] show ?thesis by simp
next
  case (TimerDone err)
  with assms(2) show ?thesis by (simp add: handleReadTimeOut_def)
qed (simp_all add: twin_configure twin_send twin_close twin_cancel)

lemma unread_step:
  assumes "unread s" "shared_event s e" "session_exec bo s e = Some t"
  shows "unread t"
proof (cases e)
  case (Open ht opt)
  with assms show ?thesis by (auto simp: unread_open split: sum.splits)
next
  case SocketStrand
  with assms(3) obtain k ts where k: "socketStrand s = k # ts"
    "t = run_socket_task k (s\<lparr>socketStrand := ts\<rparr>)" by (auto split: list.splits)
  with unread_pop [OF assms(1) k(1)] show ?thesis by (simp add: unread_task)
next
  case ReadStrand
  with assms show ?thesis by (simp add: unread_def)
next
  case (TimerStrand now rnd)
  with assms show ?thesis by (auto simp: unread_timer split: list.splits)
next
  case (Complete i err bs)
  with assms show ?thesis by (cases "pendingOps s ! i") (auto split: if_splits)
qed (use assms in \<open>auto split: if_splits\<close>)

fun shared_run :: "byte_order \<Rightarrow> 'x session \<Rightarrow> 'x event list \<Rightarrow> bool" where
  "shared_run bo s [] \<longleftrightarrow> True"
| "shared_run bo s (e # es) \<longleftrightarrow> shared_event s e \<and>
     (case session_exec bo s e of None \<Rightarrow> True | Some t \<Rightarrow> shared_run bo t es)"

lemma twin_run:
  "unread s \<Longrightarrow> shared_run bo s es \<Longrightarrow>
     run http_exec (twin s) (List.map_filter twin_event es) = map_option twin (run (session_exec bo) s es)"
proof (induction es arbitrary: s)
  case (Cons e es)
  have step: "(case twin_event e of
      None \<Rightarrow> map_option twin (session_exec bo s e) = Some (twin s)
    | Some e' \<Rightarrow> http_exec (twin s) e' = map_option twin (session_exec bo s e))"
    using Cons.prems by (intro twin_step) simp_all
  show ?case
  proof (cases "session_exec bo s e")
    case None
    with step show ?thesis by (cases "twin_event e") (simp_all add: List.map_filter_simps)
  next
    case (Some t)
    have "unread t" using unread_step [OF Cons.prems(1) _ Some] Cons.prems(2) by simp
    with Cons.IH [of t] Cons.prems(2) Some step show ?thesis
      by (cases "twin_event e") (simp_all add: List.map_filter_simps)
  qed
qed (simp add: List.map_filter_simps)

section \<open>Properties\<close>

text \<open>C8. Two classes, one behaviour: until something has been read, \<open>Session\<close> and
  \<open>ClientHTTPSession\<close> are the same machine.  Any sequence of calls (\<open>configure\<close>, \<open>open\<close>, \<open>send\<close>, \<open>drop\<close>,
  \<open>cancelAllPendingOperations\<close>), strand tasks and completions of handshakes and writes, succeeding or
  failing, that runs in one runs in the other and leaves corresponding states: the same flag, queue,
  strand, pending operations, requests to the socket and calls of the program's handlers.  Excepted
  are the timeout of the read timer and a handshake that completes on a closed session.\<close>

theorem http_session_agrees:
  assumes "shared_run bo Session_create es"
  shows "run http_exec http_create (List.map_filter twin_event es) =
    map_option twin (run (session_exec bo) Session_create es)"
proof -
  have "twin Session_create = http_create" by (simp add: twin_def Session_create_def http_create_def)
  moreover have "unread Session_create" by (simp add: unread_def Session_create_def)
  ultimately show ?thesis using twin_run [OF _ assms] by metis
qed

theorem http_session_agrees_witness:
  "run http_exec http_create (List.map_filter twin_event
      (handshake_events ClientSide @ [Send (Buffer_create 2), TimerStrand 0 0, SocketStrand,
        Complete 1 (Some (OtherError 0)) [], SocketStrand :: nat event])) \<noteq> None"
proof -
  let ?es = "handshake_events ClientSide @ [Send (Buffer_create 2), TimerStrand 0 0, SocketStrand,
      Complete 1 (Some (OtherError 0)) [], SocketStrand :: nat event]"
  have "shared_run LittleEndian Session_create ?es"
    by (simp add: run_simps orderly_def)
  from http_session_agrees [OF this]
  have "run http_exec http_create (List.map_filter twin_event ?es) =
      map_option twin (run (session_exec LittleEndian) Session_create ?es)" .
  moreover have "run (session_exec LittleEndian) Session_create ?es \<noteq> None"
    by (simp add: run_simps)
  ultimately show ?thesis by (simp only: option.map_disc_iff not_False_eq_True)
qed

end
