(* ===== verification/SessionRaces.thy ===== *)
theory SessionRaces
  imports SessionCalls
begin

text \<open>
  \<open>Session::close\<close> is called by any thread and holds no lock, and \<open>isConnected_\<close> is a plain \<open>bool\<close>.
  \<open>SessionModel\<close> treats a call of \<open>close\<close> as one step; here its statements interleave with those of
  other calls and with every event of the session (accesses to the flag in some order, the mildest
  reading of a data race).  A closer is the next statement of a call of \<open>close\<close>; a race is a closer
  that clears the flag after someone else has done so.
\<close>

section \<open>The statements of close\<close>

datatype closer = AtCancel | AtTimer | AtCheck | AtClear | AtPost | AtReturn

fun close_statement :: "closer \<Rightarrow> 'x session \<Rightarrow> closer \<times> 'x session" where
  "close_statement AtCancel s = (AtTimer, cancelAllPendingOperations s)"
| "close_statement AtTimer s = (AtCheck, cancelReadTimer s)"
| "close_statement AtCheck s = (if \<not> isConnected s then (AtReturn, s) else (AtClear, s))"
| "close_statement AtClear s = (AtPost, s\<lparr>isConnected := False\<rparr>)"
| "close_statement AtPost s = (AtReturn, post_socket RunClose s)"
| "close_statement AtReturn s = (AtReturn, s)"

text \<open>A call that nobody disturbs is the \<open>close\<close> of the model.\<close>

lemma undisturbed_close:
  "((\<lambda>(c, s). close_statement c s) ^^ 5) (AtCancel, s) = (AtReturn, close s)"
  by (simp add: numeral_eq_Suc close_def Let_def)

record 'x raced =
  ra_session :: "'x session"
  ra_closers :: "closer list"
  ra_races :: nat

definition race_start :: "'x raced \<Rightarrow> bool" where
  "race_start r \<longleftrightarrow> r = \<lparr>ra_session = Session_create, ra_closers = [], ra_races = 0\<rparr>"

datatype 'x race_event = RaceEvent "'x event" | CallClose | Advance nat

fun race_exec :: "byte_order \<Rightarrow> 'x raced \<Rightarrow> 'x race_event \<Rightarrow> 'x raced option" where
  "race_exec bo r (RaceEvent e) = (if orderly (ra_session r) e
     then map_option (\<lambda>s. r\<lparr>ra_session := s\<rparr>) (session_exec bo (ra_session r) e) else None)"
| "race_exec bo r CallClose = Some (r\<lparr>ra_closers := ra_closers r @ [AtCancel]\<rparr>)"
| "race_exec bo r (Advance i) = (if i < length (ra_closers r)
     then (case close_statement (ra_closers r ! i) (ra_session r) of
         (c, s) \<Rightarrow> Some (r\<lparr>ra_session := s, ra_closers := (ra_closers r)[i := c],
           ra_races := ra_races r + of_bool (ra_closers r ! i = AtClear \<and> \<not> isConnected (ra_session r))\<rparr>))
     else None)"

definition race_next :: "byte_order \<Rightarrow> 'x raced \<Rightarrow> 'x raced \<Rightarrow> bool" where
  "race_next bo r r' \<longleftrightarrow> (\<exists>e. race_exec bo r e = Some r')"

section \<open>Counting the close tasks\<close>

definition race_inv :: "'x raced \<Rightarrow> bool" where
  "race_inv r \<longleftrightarrow> lf_lives (session_life (ra_session r)) + count_list (ra_closers r) AtPost
     \<le> lf_opens (session_life (ra_session r)) + ra_races r"

text \<open>An orderly step makes no more close tasks than it opens.\<close>

lemma life_step_lives:
  assumes "session_step bo s e t" "orderly s e"
  shows "lf_lives (session_life t) + lf_opens (session_life s) \<le>
    lf_lives (session_life s) + lf_opens (session_life t)"
  using assms(1)
proof (cases rule: life_step_cases)
  case (socket k ts)
  let ?u = "s\<lparr>socketStrand := ts\<rparr>"
  have "(\<exists>err. k = OnHandshake err) \<Longrightarrow> isConnected s"
    using assms(2) socket by (auto simp: orderly_def)
  with life_task_lives [of k ?u] life_task_opens [of k ?u] life_pop [OF socket(2)] socket(3)
  show ?thesis by (cases "\<exists>err. k = OnHandshake err") auto
next
  case (opened ht opt)
  with life_open [of ht opt s t] show ?thesis by auto
qed simp

lemma count_list_update:
  "i < length xs \<Longrightarrow> count_list (xs[i := y]) x + of_bool (xs ! i = x) = count_list xs x + of_bool (y = x)"
proof (induction xs arbitrary: i)
  case (Cons z zs)
  then show ?case by (cases i) auto
qed simp

lemma race_inv_step: "race_exec bo r e = Some r' \<Longrightarrow> race_inv r \<Longrightarrow> race_inv r'"
proof (cases e)
  case (RaceEvent e')
  assume "race_exec bo r e = Some r'" "race_inv r"
  with RaceEvent obtain t where "session_step bo (ra_session r) e' t" "orderly (ra_session r) e'"
    "r' = r\<lparr>ra_session := t\<rparr>" by (auto simp: session_exec_step split: if_splits)
  with life_step_lives [of bo "ra_session r" e' t] \<open>race_inv r\<close> show ?thesis by (simp add: race_inv_def)
next
  case (Advance i)
  assume "race_exec bo r e = Some r'" "race_inv r"
  with Advance have i: "i < length (ra_closers r)" by (simp split: if_splits)
  define s where "s = ra_session r"
  have flag: "lf_lives (session_life (s\<lparr>isConnected := False\<rparr>)) + of_bool (isConnected s) = lf_lives (session_life s)"
    "lf_opens (session_life (s\<lparr>isConnected := False\<rparr>)) = lf_opens (session_life s)"
    "lf_lives (session_life (post_socket RunClose s)) = Suc (lf_lives (session_life s))"
    "lf_opens (session_life (post_socket RunClose s)) = lf_opens (session_life s)"
    by (simp_all add: session_life_def close_count_def post_socket_def)
  from \<open>race_exec bo r e = Some r'\<close> Advance i
  have "r' = r\<lparr>ra_session := snd (close_statement (ra_closers r ! i) s),
      ra_closers := (ra_closers r)[i := fst (close_statement (ra_closers r ! i) s)],
      ra_races := ra_races r + of_bool (ra_closers r ! i = AtClear \<and> \<not> isConnected s)\<rparr>"
    by (cases "close_statement (ra_closers r ! i) s") (simp add: s_def)
  with \<open>race_inv r\<close> flag count_list_update [OF i, of "fst (close_statement (ra_closers r ! i) s)" AtPost]
  show ?thesis by (cases "ra_closers r ! i"; cases "isConnected s") (simp_all add: race_inv_def s_def [symmetric])
next
  case CallClose
  assume "race_exec bo r e = Some r'" "race_inv r"
  with CallClose show ?thesis by (auto simp: race_inv_def)
qed

interpretation session_race: inductive_invariant race_start "race_next bo" race_inv for bo
proof unfold_locales
  show "race_inv r" if "race_start r" for r :: "'x raced"
    using that by (simp add: race_start_def race_inv_def life_create)
  show "race_inv r'" if "race_inv r" "race_next bo r r'" for r r' :: "'x raced"
    using that by (auto simp: race_next_def intro: race_inv_step)
qed

section \<open>Concrete races\<close>

lemma race_reachable_run:
  assumes "run (race_exec bo) \<lparr>ra_session = Session_create, ra_closers = [], ra_races = 0\<rparr> es = Some r"
  shows "reach race_start (race_next bo) r"
  using assms
proof (rule run_invariant)
  show "reach race_start (race_next bo) \<lparr>ra_session = Session_create, ra_closers = [], ra_races = 0\<rparr>"
    by (rule reach.reach_init) (simp add: race_start_def)
qed (auto simp: race_next_def intro: reach.reach_step)

text \<open>Two threads drop a session at the same time.\<close>

definition race_events :: "nat race_event list" where
  "race_events = [RaceEvent (Configure None (Some [CallExt 7]) None), RaceEvent (Open ClientSide None),
     CallClose, CallClose, Advance 0, Advance 0, Advance 0, Advance 1, Advance 1, Advance 1,
     Advance 0, Advance 0, Advance 1, Advance 1] @ replicate 5 (RaceEvent SocketStrand)"

text \<open>The race: two threads that close a session opened once both find the flag set; both post
  the close task, and the close handler runs twice.\<close>

lemma two_closers_race:
  "\<exists>r. run (race_exec bo) \<lparr>ra_session = Session_create, ra_closers = [], ra_races = 0\<rparr> race_events = Some r \<and>
     open_count (ra_session r) = 1 \<and> close_count (ra_session r) = 2 \<and> extCalls (ra_session r) = [7, 7] \<and>
     ra_races r = 1"
  by (simp add: run_simps race_events_def orderly_def eval_nat_numeral)

section \<open>Runs of the close handler\<close>

definition race_marks :: "'x \<Rightarrow> 'x race_event \<Rightarrow> bool" where
  "race_marks x e \<longleftrightarrow> (case e of RaceEvent e' \<Rightarrow> marks x e' | _ \<Rightarrow> True)"

abbreviation race_create :: "'x raced" where
  "race_create \<equiv> \<lparr>ra_session = Session_create, ra_closers = [], ra_races = 0\<rparr>"

text \<open>Since a statement of \<open>close\<close> runs no handler, the calls \<open>x\<close> stay bounded by the close tasks run.\<close>

lemma statement_boundary:
  "boundary (snd (close_statement c s)) = boundary s" "close_count (snd (close_statement c s)) = close_count s"
  by (cases c; simp add: close_count_def)+

lemma close_marked_same: "boundary t = boundary s \<Longrightarrow> close_marked x t = close_marked x s"
  by (auto simp: close_marked_def boundary_def)

definition runs_counted :: "'x \<Rightarrow> 'x session \<Rightarrow> bool" where
  "runs_counted x s \<longleftrightarrow> close_marked x s \<and> count_list (extCalls s) x \<le> close_count s"

lemma runs_counted_step:
  assumes "race_exec bo r e = Some r'" "race_marks x e" "runs_counted x (ra_session r)"
  shows "runs_counted x (ra_session r')"
proof (cases e)
  case (RaceEvent e')
  with assms obtain t where t: "session_step bo (ra_session r) e' t" "ra_session r' = t" "marks x e'"
    by (auto simp: session_exec_step race_marks_def split: if_splits)
  with close_marked_step [OF t(1,3)] assms(3) show ?thesis by (simp add: runs_counted_def)
next
  case (Advance i)
  with assms(1) have "ra_session r' = snd (close_statement (ra_closers r ! i) (ra_session r))"
    by (auto split: if_splits prod.splits)
  then have b: "boundary (ra_session r') = boundary (ra_session r)" "close_count (ra_session r') = close_count (ra_session r)"
    by (simp_all add: statement_boundary)
  then have "extCalls (ra_session r') = extCalls (ra_session r)" by (simp add: boundary_def)
  with b close_marked_same [OF b(1)] assms(3) show ?thesis by (simp add: runs_counted_def)
qed (use assms in auto)

lemma runs_counted_create: "runs_counted x Session_create"
  by (simp add: runs_counted_def close_marked_def marks_def Session_create_def handler_exts_def close_count_def)

lemma runs_counted_run:
  assumes "run (race_exec bo) r es = Some r'" "runs_counted x (ra_session r)" "list_all (race_marks x) es"
  shows "runs_counted x (ra_session r')"
  using assms
proof (induction es arbitrary: r)
  case (Cons e es)
  then obtain q where q: "race_exec bo r e = Some q" "run (race_exec bo) q es = Some r'" by (auto split: option.splits)
  have "runs_counted x (ra_session q)" using runs_counted_step [OF q(1)] Cons.prems(2,3) by simp
  from Cons.IH [OF q(2) this] Cons.prems(3) show ?case by simp
qed simp

section \<open>Properties\<close>

text \<open>C20. Unsynchronised callers: calls of \<open>close\<close> interleave statement by statement with each other and
  with everything else, and no handshake is handled after the session was closed.  If only the close
  handlers given to \<open>configure\<close> make the call \<open>x\<close>, once each, then \<open>x\<close> is made, and the socket is
  closed, at most once for each call of \<open>open\<close> and once more for each race, one of them still to come
  while the session is connected.  The bound is attained: two threads that close a session opened once
  can both run its close handler.\<close>

theorem racing_close_bound:
  assumes "run (race_exec bo) race_create es = Some r" "list_all (race_marks x) es"
  shows "count_list (extCalls (ra_session r)) x + of_bool (isConnected (ra_session r)) \<le>
      open_count (ra_session r) + ra_races r \<and>
    close_count (ra_session r) + of_bool (isConnected (ra_session r)) \<le> open_count (ra_session r) + ra_races r \<and>
    (\<exists>r'. run (race_exec bo) race_create race_events = Some r' \<and> list_all (race_marks 7) race_events \<and>
       open_count (ra_session r') = 1 \<and> ra_races r' = 1 \<and> extCalls (ra_session r') = [7, 7])"
proof -
  have "close_count (ra_session r) + of_bool (isConnected (ra_session r)) \<le> open_count (ra_session r) + ra_races r"
    using session_race.reachable_inv [OF race_reachable_run [OF assms(1)]]
    by (cases "isConnected (ra_session r)") (auto simp: race_inv_def open_count_def session_life_def)
  moreover have "count_list (extCalls (ra_session r)) x \<le> close_count (ra_session r)"
    using runs_counted_run [OF assms(1) _ assms(2)] runs_counted_create [of x] by (simp add: runs_counted_def)
  moreover have "list_all (race_marks 7) race_events"
    by (simp add: race_events_def race_marks_def marks_def handler_exts_def eval_nat_numeral)
  ultimately show ?thesis using two_closers_race [of bo] by fastforce
qed

theorem racing_close_bound_witness:
  "\<exists>r :: nat raced. run (race_exec LittleEndian) race_create race_events = Some r \<and>
     open_count (ra_session r) = 1 \<and> ra_races r = 1 \<and> \<not> isConnected (ra_session r) \<and>
     count_list (extCalls (ra_session r)) 7 = 2"
proof -
  obtain r :: "nat raced" where r: "run (race_exec LittleEndian) race_create race_events = Some r"
    "open_count (ra_session r) = 1" "ra_races r = 1" "extCalls (ra_session r) = [7, 7]"
    using two_closers_race [of LittleEndian] by blast
  have "list_all (race_marks 7) race_events"
    by (simp add: race_events_def race_marks_def marks_def handler_exts_def eval_nat_numeral)
  from racing_close_bound [OF r(1) this] r show ?thesis by auto
qed

end
