(* ===== verification/SendLocks.thy ===== *)
theory SendLocks
  imports SessionLifecycle
begin

text \<open>
  \<open>Session::send\<close> and \<open>Session::handleWrite\<close> are called by several threads and guard the queue with
  \<open>queueMutex_\<close>.  \<open>SessionModel\<close> treats a call of either as one step; here the calls take the mutex
  and run statement by statement, interleaved with each other and with every event of the session.
  Whatever needs the mutex inside an event waits until it is free; everything else runs at any time,
  also between the statements of a call that holds it.  The mutex makes the calls atomic: with the
  changes of an unfinished call undone, the session is always in a state that the atomic model reaches.
\<close>

section \<open>The statements of send\<close>

text \<open>Where a call that holds the mutex stands; at \<open>AtUnlock\<close> the guard is destroyed.\<close>

datatype send_pc =
    AtTest
  | AtBranch bool             \<comment> \<open>writeInProgress\<close>
  | AtPop
  | AtPushMessage message     \<comment> \<open>currentMessage\<close>
  | AtPushCurrent message
  | AtNext bool
  | AtUnlock

fun send_statement :: "message \<Rightarrow> send_pc \<Rightarrow> 'x session \<Rightarrow> send_pc \<times> 'x session" where
  "send_statement m AtTest s = (AtBranch (writeQueue s \<noteq> []), s)"
| "send_statement m (AtBranch writeInProgress) s =
     (if writeInProgress \<and> (Message_type m = type_code Ping \<or> Message_type m = type_code Pong) then (AtPop, s)
      else (AtNext writeInProgress, s\<lparr>writeQueue := writeQueue s @ [m]\<rparr>))"
| "send_statement m AtPop s = (AtPushMessage (hd (writeQueue s)), s\<lparr>writeQueue := tl (writeQueue s)\<rparr>)"
| "send_statement m (AtPushMessage currentMessage) s =
     (AtPushCurrent currentMessage, s\<lparr>writeQueue := m # writeQueue s\<rparr>)"
| "send_statement m (AtPushCurrent currentMessage) s = (AtNext True, s\<lparr>writeQueue := currentMessage # writeQueue s\<rparr>)"
| "send_statement m (AtNext writeInProgress) s = (AtUnlock, if \<not> writeInProgress then writeNext s else s)"
| "send_statement m AtUnlock s = (AtUnlock, s)"

section \<open>The statements of handleWrite\<close>

datatype write_pc = WritePop | WriteNext | WriteUnlock

fun write_statement :: "message \<Rightarrow> error_code \<Rightarrow> write_pc \<Rightarrow> 'x session \<Rightarrow> write_pc \<times> 'x session" where
  "write_statement m err WritePop s =
     (WriteNext, if writeQueue s \<noteq> [] then s\<lparr>writeQueue := tl (writeQueue s)\<rparr> else s)"
| "write_statement m err WriteNext s =
     (WriteUnlock, if err = None then writeNext s else if err \<noteq> Some OperationAborted then close s else s)"
| "write_statement m err WriteUnlock s = (WriteUnlock, s)"

section \<open>State and events\<close>

text \<open>Callers of \<open>send\<close> wait for the mutex; so may \<open>handleWrite\<close>, with the session's strand busy until it
  has returned.  \<open>lk_saved\<close> remembers the queue when the mutex was taken.\<close>

datatype owner = Sender message send_pc | Writer message error_code write_pc

record 'x locked =
  lk_session :: "'x session"
  lk_waiting :: "message list"
  lk_blocked :: "(message \<times> error_code) option"
  lk_owner :: "owner option"
  lk_saved :: "message list"

fun strand_busy :: "(message \<times> error_code) option \<Rightarrow> owner option \<Rightarrow> bool" where
  "strand_busy (Some w) h \<longleftrightarrow> True"
| "strand_busy None (Some (Writer m err pc)) \<longleftrightarrow> True"
| "strand_busy None h \<longleftrightarrow> False"

text \<open>The events that call \<open>send\<close>, \<open>handleWrite\<close> or the task of \<open>close\<close>, which take the mutex: a handler
  that sends, a ping that is answered, a timer that sends one.\<close>

fun call_locks :: "'x call \<Rightarrow> bool" where
  "call_locks (CallSend payload) \<longleftrightarrow> True"
| "call_locks c \<longleftrightarrow> False"

fun task_locks :: "'x session \<Rightarrow> socket_task \<Rightarrow> bool" where
  "task_locks s RunClose \<longleftrightarrow> True"
| "task_locks s (OnWrite m err) \<longleftrightarrow> True"
| "task_locks s (OnHandshake err) \<longleftrightarrow> err = None \<and>
     (case openHandler s of None \<Rightarrow> False | Some cs \<Rightarrow> list_ex call_locks cs)"
| "task_locks s (OnReadHeader m err) \<longleftrightarrow> err = None \<and> verifyHeader m \<and> isEmpty m \<and> Message_type m = type_code Ping"
| "task_locks s (OnReadBody m err) \<longleftrightarrow> err = None \<and> verifyBody m \<and> Message_type m = type_code Ping"
| "task_locks s t \<longleftrightarrow> False"

fun needs_mutex :: "'x session \<Rightarrow> 'x event \<Rightarrow> bool" where
  "needs_mutex s (Send payload) \<longleftrightarrow> True"
| "needs_mutex s ReadStrand \<longleftrightarrow> (case readStrand s of [] \<Rightarrow> False | (h, payload) # _ \<Rightarrow> list_ex call_locks (h payload))"
| "needs_mutex s SocketStrand \<longleftrightarrow> (case socketStrand s of [] \<Rightarrow> False | t # _ \<Rightarrow> task_locks s t)"
| "needs_mutex s (TimerStrand now rnd) \<longleftrightarrow> (case readTimerStrand s of
      RunTimeOut # _ \<Rightarrow> elapsed_ms now (lastTimeRead s) \<le> MaxTimeOut | _ \<Rightarrow> False)"
| "needs_mutex s _ \<longleftrightarrow> False"

datatype 'x lock_event =
    CallSendOf message
  | TakeMutex nat
  | BeginWrite
  | WriterTakesMutex
  | Statement
  | Whole "'x event"

fun lock_exec :: "byte_order \<Rightarrow> 'x locked \<Rightarrow> 'x lock_event \<Rightarrow> 'x locked option" where
  "lock_exec bo c (CallSendOf m) = Some (c\<lparr>lk_waiting := lk_waiting c @ [m]\<rparr>)"
| "lock_exec bo c (TakeMutex i) = (if lk_owner c = None \<and> i < length (lk_waiting c)
     then Some (c\<lparr>lk_owner := Some (Sender (lk_waiting c ! i) AtTest), lk_waiting := remove_at i (lk_waiting c),
       lk_saved := writeQueue (lk_session c)\<rparr>)
     else None)"
| "lock_exec bo c BeginWrite = (if strand_busy (lk_blocked c) (lk_owner c) then None
     else (case socketStrand (lk_session c) of
         OnWrite m err # ts \<Rightarrow> Some (c\<lparr>lk_session := (lk_session c)\<lparr>socketStrand := ts\<rparr>, lk_blocked := Some (m, err)\<rparr>)
       | _ \<Rightarrow> None))"
| "lock_exec bo c WriterTakesMutex = (case lk_blocked c of
     None \<Rightarrow> None
   | Some (m, err) \<Rightarrow> if lk_owner c = None
       then Some (c\<lparr>lk_owner := Some (Writer m err WritePop), lk_blocked := None, lk_saved := writeQueue (lk_session c)\<rparr>)
       else None)"
| "lock_exec bo c Statement = (case lk_owner c of
     None \<Rightarrow> None
   | Some (Sender m pc) \<Rightarrow> if pc = AtUnlock then Some (c\<lparr>lk_owner := None\<rparr>)
       else (case send_statement m pc (lk_session c) of (pc', s) \<Rightarrow>
         Some (c\<lparr>lk_session := s, lk_owner := Some (Sender m pc')\<rparr>))
   | Some (Writer m err pc) \<Rightarrow> if pc = WriteUnlock then Some (c\<lparr>lk_owner := None\<rparr>)
       else (case write_statement m err pc (lk_session c) of (pc', s) \<Rightarrow>
         Some (c\<lparr>lk_session := s, lk_owner := Some (Writer m err pc')\<rparr>)))"
| "lock_exec bo c (Whole e) =
     (if (needs_mutex (lk_session c) e \<longrightarrow> lk_owner c = None) \<and>
         (e = SocketStrand \<longrightarrow> \<not> strand_busy (lk_blocked c) (lk_owner c))
      then map_option (\<lambda>s. c\<lparr>lk_session := s\<rparr>) (session_exec bo (lk_session c) e) else None)"

definition locked_init :: "'x locked \<Rightarrow> bool" where
  "locked_init c \<longleftrightarrow> c = \<lparr>lk_session = Session_create, lk_waiting = [], lk_blocked = None, lk_owner = None, lk_saved = []\<rparr>"

definition locked_next :: "byte_order \<Rightarrow> 'x locked \<Rightarrow> 'x locked \<Rightarrow> bool" where
  "locked_next bo c d \<longleftrightarrow> (\<exists>e. lock_exec bo c e = Some d)"

section \<open>Atomic calls\<close>

text \<open>The model with whole calls, of \<open>send\<close> for any message.\<close>

definition calling_next :: "byte_order \<Rightarrow> 'x session \<Rightarrow> 'x session \<Rightarrow> bool" where
  "calling_next bo s t \<longleftrightarrow> session_next bo s t \<or> (\<exists>m. t = send_message m s)"

interpretation calling_writer:
  message_writer session_start "calling_next bo" session_view session_closed is_control True for bo
proof unfold_locales
  fix s t :: "'a session"
  show "session_view s = writer_empty" if "session_start s" using that by (rule view_create)
  show "session_closed t" if "calling_next bo s t" "session_closed s"
    using that closed_step by (auto simp: calling_next_def session_next_def session_closed_def)
  show "session_moves True s t" if "calling_next bo s t" "\<not> session_closed t"
    using that by (auto simp: calling_next_def session_next_def intro: moves_step moves_send_message)
qed

text \<open>The session without the effects of the call that holds the mutex and has not come to its last
  statement, and with the strand's task put back as long as it has not.\<close>

definition put :: "socket_task list \<Rightarrow> 'x session \<Rightarrow> 'x session" where
  "put ks s = s\<lparr>socketStrand := ks @ socketStrand s\<rparr>"

definition requeue :: "message list \<Rightarrow> 'x session \<Rightarrow> 'x session" where
  "requeue q s = s\<lparr>writeQueue := q\<rparr>"

fun putback :: "(message \<times> error_code) option \<Rightarrow> owner option \<Rightarrow> socket_task list" where
  "putback (Some (m, err)) h = [OnWrite m err]"
| "putback None (Some (Writer m err pc)) = (if pc = WriteUnlock then [] else [OnWrite m err])"
| "putback None h = []"

fun uncommitted :: "owner option \<Rightarrow> bool" where
  "uncommitted None \<longleftrightarrow> False"
| "uncommitted (Some (Sender m pc)) \<longleftrightarrow> pc \<noteq> AtUnlock"
| "uncommitted (Some (Writer m err pc)) \<longleftrightarrow> pc \<noteq> WriteUnlock"

definition atomic_view :: "'x locked \<Rightarrow> 'x session" where
  "atomic_view c = put (putback (lk_blocked c) (lk_owner c))
     (if uncommitted (lk_owner c) then requeue (lk_saved c) (lk_session c) else lk_session c)"

section \<open>What runs between the statements\<close>

lemma put_frame [simp]:
  "(put ks s)\<lparr>isConnected := b\<rparr> = put ks (s\<lparr>isConnected := b\<rparr>)"
  "(put ks s)\<lparr>lastTimeRead := l\<rparr> = put ks (s\<lparr>lastTimeRead := l\<rparr>)"
  "(put ks s)\<lparr>writeQueue := q\<rparr> = put ks (s\<lparr>writeQueue := q\<rparr>)"
  "(put ks s)\<lparr>readStrand := rs\<rparr> = put ks (s\<lparr>readStrand := rs\<rparr>)"
  "(put ks s)\<lparr>readTimerStrand := us\<rparr> = put ks (s\<lparr>readTimerStrand := us\<rparr>)"
  "(put ks s)\<lparr>pendingOps := ops\<rparr> = put ks (s\<lparr>pendingOps := ops\<rparr>)"
  "(put ks s)\<lparr>timerWaits := n\<rparr> = put ks (s\<lparr>timerWaits := n\<rparr>)"
  "(put ks s)\<lparr>extCalls := xs\<rparr> = put ks (s\<lparr>extCalls := xs\<rparr>)"
  "isConnected (put ks s) = isConnected s" "lastTimeRead (put ks s) = lastTimeRead s"
  "writeQueue (put ks s) = writeQueue s" "readStrand (put ks s) = readStrand s"
  "readTimerStrand (put ks s) = readTimerStrand s" "pendingOps (put ks s) = pendingOps s"
  "timerWaits (put ks s) = timerWaits s" "extCalls (put ks s) = extCalls s"
  "socketStrand (put ks s) = ks @ socketStrand s" "put [] s = s"
  "post_socket t (put ks s) = put ks (post_socket t s)" "post_timer u (put ks s) = put ks (post_timer u s)"
  "issue r (put ks s) = put ks (issue r s)" "configure oh ch rh (put ks s) = put ks (configure oh ch rh s)"
  by (simp_all add: put_def post_socket_def post_timer_def issue_def configure_def)

lemma put_quiet [simp]:
  "cancelAllPendingOperations (put ks s) = put ks (cancelAllPendingOperations s)"
  "cancelReadTimer (put ks s) = put ks (cancelReadTimer s)"
  "restartReadTimer (put ks s) = put ks (restartReadTimer s)"
  "close (put ks s) = put ks (close s)" "drop_session (put ks s) = put ks (drop_session s)"
  "writeNext (put ks s) = put ks (writeNext s)" "send_message m (put ks s) = put ks (send_message m s)"
  "send p (put ks s) = put ks (send p s)" "ping (put ks s) = put ks (ping s)"
  "handleReadTimeOut err (put ks s) = put ks (handleReadTimeOut err s)"
  by (simp_all add: cancelAllPendingOperations_def cancelReadTimer_def restartReadTimer_def close_def
      drop_session_def writeNext_def send_message_def send_def ping_def handleReadTimeOut_def Let_def
      split: list.split)

lemma put_calls [simp]: "run_calls cs (put ks s) = put ks (run_calls cs s)"
proof (induction cs arbitrary: s)
  case (Cons c cs)
  have "run_call c (put ks s) = put ks (run_call c s)" by (cases c) simp_all
  with Cons show ?case by simp
qed simp

lemma put_timer [simp]: "run_timer_task now rnd t (put ks s) = put ks (run_timer_task now rnd t s)"
  by (cases t) (simp_all add: restart_timer_task_def cancel_timer_task_def timeout_task_def Let_def)

lemma put_open: "open_session ht opt (put ks s) = map_sum id (put ks) (open_session ht opt s)"
  by (simp add: open_session_def configureSocket_def split: option.split)

lemma put_step:
  assumes "session_step bo s e t" "e \<noteq> SocketStrand"
  shows "session_step bo (put ks s) e (put ks t)"
  using assms(1)
proof cases
  case (open_ok ht opt)
  then show ?thesis by (auto intro: session_step.open_ok simp: put_open)
next
  case (open_throws ht opt x)
  then show ?thesis by (auto intro: session_step.open_throws simp: put_open)
next
  case (read_strand h payload ts)
  with session_step.read_strand [of "put ks s" h payload ts bo] show ?thesis by simp
next
  case (timer_strand k ts now rnd)
  with session_step.timer_strand [of "put ks s" k ts bo now rnd] show ?thesis by simp
next
  case (complete i err bs)
  with session_step.complete [of i "put ks s" bo err bs] show ?thesis by simp
next
  case (timer_done err)
  with session_step.timer_done [of "put ks s" bo err] show ?thesis by simp
next
  case (configure oh ch rh)
  with session_step.configure [of bo "put ks s" oh ch rh] show ?thesis by simp
next
  case (send payload)
  with session_step.send [of bo "put ks s" payload] show ?thesis by simp
next
  case drop
  with session_step.drop [of bo "put ks s"] show ?thesis by simp
next
  case cancel_all
  with session_step.cancel_all [of bo "put ks s"] show ?thesis by simp
qed (use assms(2) in simp)

lemma requeue_open: "open_session ht opt (requeue q s) = map_sum id (requeue q) (open_session ht opt s)"
  by (simp add: open_session_def configureSocket_def requeue_def issue_def post_socket_def split: option.split)

text \<open>What takes no mutex neither reads nor writes the queue.\<close>

lemma requeue_frame [simp]:
  "(requeue q s)\<lparr>isConnected := b\<rparr> = requeue q (s\<lparr>isConnected := b\<rparr>)"
  "(requeue q s)\<lparr>lastTimeRead := l\<rparr> = requeue q (s\<lparr>lastTimeRead := l\<rparr>)"
  "(requeue q s)\<lparr>socketStrand := ss\<rparr> = requeue q (s\<lparr>socketStrand := ss\<rparr>)"
  "(requeue q s)\<lparr>readStrand := rs\<rparr> = requeue q (s\<lparr>readStrand := rs\<rparr>)"
  "(requeue q s)\<lparr>readTimerStrand := us\<rparr> = requeue q (s\<lparr>readTimerStrand := us\<rparr>)"
  "(requeue q s)\<lparr>pendingOps := ops\<rparr> = requeue q (s\<lparr>pendingOps := ops\<rparr>)"
  "(requeue q s)\<lparr>timerWaits := n\<rparr> = requeue q (s\<lparr>timerWaits := n\<rparr>)"
  "(requeue q s)\<lparr>extCalls := xs\<rparr> = requeue q (s\<lparr>extCalls := xs\<rparr>)"
  "isConnected (requeue q s) = isConnected s" "lastTimeRead (requeue q s) = lastTimeRead s"
  "writeQueue (requeue q s) = q" "socketStrand (requeue q s) = socketStrand s" "readStrand (requeue q s) = readStrand s"
  "readTimerStrand (requeue q s) = readTimerStrand s" "pendingOps (requeue q s) = pendingOps s"
  "timerWaits (requeue q s) = timerWaits s" "extCalls (requeue q s) = extCalls s"
  "openHandler (requeue q s) = openHandler s" "receiveHandler (requeue q s) = receiveHandler s"
  "post_socket t (requeue q s) = requeue q (post_socket t s)" "post_timer u (requeue q s) = requeue q (post_timer u s)"
  "post_read r (requeue q s) = requeue q (post_read r s)" "start_op op (requeue q s) = requeue q (start_op op s)"
  "issue k (requeue q s) = requeue q (issue k s)" "configure oh ch rh (requeue q s) = requeue q (configure oh ch rh s)"
  by (simp_all add: requeue_def post_socket_def post_timer_def post_read_def start_op_def issue_def configure_def)

lemma queue_frame [simp]:
  "writeQueue (post_socket t s) = writeQueue s" "writeQueue (post_timer u s) = writeQueue s"
  "writeQueue (post_read r s) = writeQueue s" "writeQueue (start_op op s) = writeQueue s"
  "writeQueue (issue k s) = writeQueue s" "writeQueue (configure oh ch rh s) = writeQueue s"
  by (simp_all add: post_socket_def post_timer_def post_read_def start_op_def issue_def configure_def)

lemma requeue_quiet [simp]:
  "cancelAllPendingOperations (requeue q s) = requeue q (cancelAllPendingOperations s)"
  "cancelReadTimer (requeue q s) = requeue q (cancelReadTimer s)"
  "restartReadTimer (requeue q s) = requeue q (restartReadTimer s)"
  "close (requeue q s) = requeue q (close s)" "drop_session (requeue q s) = requeue q (drop_session s)"
  "readNext (requeue q s) = requeue q (readNext s)" "asyncReadBody m (requeue q s) = requeue q (asyncReadBody m s)"
  "handleMessage m (requeue q s) = requeue q (handleMessage m s)"
  "handleReadTimeOut err (requeue q s) = requeue q (handleReadTimeOut err s)"
  "writeQueue (cancelAllPendingOperations s) = writeQueue s" "writeQueue (cancelReadTimer s) = writeQueue s"
  "writeQueue (restartReadTimer s) = writeQueue s" "writeQueue (close s) = writeQueue s"
  "writeQueue (drop_session s) = writeQueue s" "writeQueue (readNext s) = writeQueue s"
  "writeQueue (asyncReadBody m s) = writeQueue s" "writeQueue (handleMessage m s) = writeQueue s"
  "writeQueue (handleReadTimeOut err s) = writeQueue s"
  by (simp_all add: cancelAllPendingOperations_def cancelReadTimer_def restartReadTimer_def close_def drop_session_def
      readNext_def asyncReadHeader_def asyncReadBody_def handleMessage_def handleReadTimeOut_def Let_def split: option.split)

lemma requeue_calls:
  "\<not> list_ex call_locks cs \<Longrightarrow> run_calls cs (requeue q s) = requeue q (run_calls cs s) \<and> writeQueue (run_calls cs s) = writeQueue s"
proof (induction cs arbitrary: s)
  case (Cons c cs)
  then have "run_call c (requeue q s) = requeue q (run_call c s)" "writeQueue (run_call c s) = writeQueue s"
    by (cases c; simp)+
  with Cons show ?case by simp
qed simp

lemma requeue_received:
  assumes "Message_type m \<noteq> type_code Ping"
  shows "onMessageReceived m (requeue q s) = requeue q (onMessageReceived m s)"
    "writeQueue (onMessageReceived m s) = writeQueue s"
  using assms by (simp_all add: onMessageReceived_def Let_def)

lemma requeue_socket:
  assumes "socketStrand s = t # ts" "\<not> needs_mutex s SocketStrand"
  shows "run_socket_task t (requeue q (s\<lparr>socketStrand := ts\<rparr>)) = requeue q (run_socket_task t (s\<lparr>socketStrand := ts\<rparr>)) \<and>
    writeQueue (run_socket_task t (s\<lparr>socketStrand := ts\<rparr>)) = writeQueue s"
proof -
  let ?u = "s\<lparr>socketStrand := ts\<rparr>"
  show ?thesis
  proof (cases t)
    case (OnHandshake err)
    let ?v = "readNext (post_timer RunTouch (?u\<lparr>isConnected := True\<rparr>))"
    have "openHandler ?v = openHandler s" by (simp add: session_ops)
    moreover from this have "run_handler (openHandler ?v) (requeue q ?v) = requeue q (run_handler (openHandler ?v) ?v) \<and>
        writeQueue (run_handler (openHandler ?v) ?v) = writeQueue ?v" if "err = None"
      using assms OnHandshake that requeue_calls [where s = ?v and q = q]
      by (auto simp: run_handler_def split: option.split)
    ultimately show ?thesis using OnHandshake by (simp add: handleHandshake_def Let_def)
  next
    case (OnReadHeader m err)
    with assms requeue_received(1) [of m q "cancelReadTimer ?u"] requeue_received(2) [of m "cancelReadTimer ?u"] show ?thesis by (auto simp: handleReadHeader_def Let_def)
  next
    case (OnReadBody m err)
    with assms requeue_received(1) [of m q "cancelReadTimer ?u"] requeue_received(2) [of m "cancelReadTimer ?u"] show ?thesis by (auto simp: handleReadBody_def Let_def)
  qed (use assms in \<open>simp_all add: asyncHandshake_def asyncWrite_def\<close>)
qed

lemma requeue_timer:
  assumes "readTimerStrand s = t # ts" "\<not> needs_mutex s (TimerStrand now rnd)"
  shows "run_timer_task now rnd t (requeue q (s\<lparr>readTimerStrand := ts\<rparr>)) =
      requeue q (run_timer_task now rnd t (s\<lparr>readTimerStrand := ts\<rparr>)) \<and>
    writeQueue (run_timer_task now rnd t (s\<lparr>readTimerStrand := ts\<rparr>)) = writeQueue s"
  using assms by (cases t) (simp_all add: restart_timer_task_def cancel_timer_task_def timeout_task_def Let_def)

lemma requeue_step:
  assumes "session_step bo s e t" "\<not> needs_mutex s e"
  shows "session_step bo (requeue q s) e (requeue q t)" "writeQueue t = writeQueue s"
proof -
  have "session_step bo (requeue q s) e (requeue q t) \<and> writeQueue t = writeQueue s"
    using assms(1)
  proof cases
    case (open_ok ht opt)
    have "session_step bo (requeue q s) e (requeue q t)"
      unfolding open_ok(1) by (rule session_step.open_ok) (simp add: requeue_open open_ok)
    moreover have "writeQueue t = writeQueue s"
      using open_ok(2) by (auto simp: open_session_def configureSocket_def split: if_splits option.splits)
    ultimately show ?thesis by simp
  next
    case (open_throws ht opt x)
    then show ?thesis by (auto intro: session_step.open_throws simp: requeue_open)
  next
    case (socket_strand k ts)
    with session_step.socket_strand [of "requeue q s" k ts bo] requeue_socket [of s k ts q] assms(2)
    show ?thesis by (simp del: run_socket_task.simps)
  next
    case (read_strand h payload ts)
    with session_step.read_strand [of "requeue q s" h payload ts bo]
      requeue_calls [of "h payload" q "s\<lparr>readStrand := ts\<rparr>"] assms(2) show ?thesis by simp
  next
    case (timer_strand k ts now rnd)
    with session_step.timer_strand [of "requeue q s" k ts bo now rnd] requeue_timer [of s k ts now rnd q] assms(2)
    show ?thesis by (simp del: run_timer_task.simps)
  next
    case (configure oh ch rh)
    with session_step.configure [of bo "requeue q s" oh ch rh] show ?thesis by simp
  next
    case drop
    with session_step.drop [of bo "requeue q s"] show ?thesis by simp
  next
    case cancel_all
    with session_step.cancel_all [of bo "requeue q s"] show ?thesis by simp
  next
    case (complete i err bs)
    with session_step.complete [of i "requeue q s" bo err bs] show ?thesis by simp
  next
    case (timer_done err)
    with session_step.timer_done [of "requeue q s" bo err] show ?thesis by simp
  qed (use assms(2) in simp_all)
  then show "session_step bo (requeue q s) e (requeue q t)" "writeQueue t = writeQueue s" by simp_all
qed

section \<open>The invariant\<close>

text \<open>What the statements done so far have made of the queue \<open>q0\<close> that the call found.\<close>

fun halfway :: "message \<Rightarrow> send_pc \<Rightarrow> message list \<Rightarrow> message list \<Rightarrow> bool" where
  "halfway m AtTest q0 q \<longleftrightarrow> q = q0"
| "halfway m (AtBranch wip) q0 q \<longleftrightarrow> q = q0 \<and> wip = (q0 \<noteq> [])"
| "halfway m AtPop q0 q \<longleftrightarrow> q = q0 \<and> q0 \<noteq> [] \<and> is_control m"
| "halfway m (AtPushMessage c) q0 q \<longleftrightarrow> q0 = c # q \<and> is_control m"
| "halfway m (AtPushCurrent c) q0 q \<longleftrightarrow> (\<exists>r. q0 = c # r \<and> q = m # r) \<and> is_control m"
| "halfway m (AtNext wip) q0 q \<longleftrightarrow> wip = (q0 \<noteq> []) \<and>
     q = (if q0 \<noteq> [] \<and> is_control m then hd q0 # m # tl q0 else q0 @ [m])"
| "halfway m AtUnlock q0 q \<longleftrightarrow> True"

fun halfwritten :: "write_pc \<Rightarrow> message list \<Rightarrow> message list \<Rightarrow> bool" where
  "halfwritten WritePop q0 q \<longleftrightarrow> q = q0"
| "halfwritten WriteNext q0 q \<longleftrightarrow> q = tl q0"
| "halfwritten WriteUnlock q0 q \<longleftrightarrow> True"

definition lock_inv :: "'x locked \<Rightarrow> bool" where
  "lock_inv c \<longleftrightarrow> (case lk_owner c of
      None \<Rightarrow> True
    | Some (Sender m pc) \<Rightarrow> halfway m pc (lk_saved c) (writeQueue (lk_session c))
    | Some (Writer m err pc) \<Rightarrow> lk_blocked c = None \<and> halfwritten pc (lk_saved c) (writeQueue (lk_session c)))"

lemma halfway_statement:
  assumes "send_statement m pc s = (pc', t)" "halfway m pc q0 (writeQueue s)" "pc \<noteq> AtUnlock"
  shows "halfway m pc' q0 (writeQueue t)"
  using assms by (cases pc) (auto simp: is_control_def writeNext_def post_socket_def split: if_splits list.splits)

lemma requeue_self: "writeQueue s = q \<Longrightarrow> s\<lparr>writeQueue := q\<rparr> = s"
  by auto

text \<open>The last statement of a call does what the whole call would have done.\<close>

lemma send_commits:
  assumes "halfway m (AtNext wip) q0 (writeQueue s)"
  shows "(if \<not> wip then writeNext s else s) = send_message m (requeue q0 s)"
  using assms by (cases q0) (auto simp: send_message_def requeue_def requeue_self is_control_def Let_def)

lemma write_commits:
  assumes "halfwritten WriteNext q0 (writeQueue s)"
  shows "snd (write_statement m err WriteNext s) = handleWrite m err (requeue q0 s)"
  using assms by (cases q0) (auto simp: handleWrite_def requeue_def requeue_self Let_def)

lemma halfwritten_statement:
  assumes "write_statement m err pc s = (pc', t)" "halfwritten pc q0 (writeQueue s)" "pc \<noteq> WriteUnlock"
  shows "halfwritten pc' q0 (writeQueue t)"
  using assms by (cases pc) auto

lemma lock_inv_step:
  assumes "lock_inv c" "lock_exec bo c e = Some d"
  shows "lock_inv d"
proof (cases e)
  case Statement
  show ?thesis
  proof (cases "lk_owner c")
    case (Some h)
    with assms Statement halfway_statement halfwritten_statement show ?thesis
      by (cases h) (fastforce simp: lock_inv_def split: if_splits prod.splits)+
  qed (use assms Statement in simp)
next
  case (Whole e')
  then obtain s where s: "session_step bo (lk_session c) e' s" "d = c\<lparr>lk_session := s\<rparr>"
    "needs_mutex (lk_session c) e' \<longrightarrow> lk_owner c = None"
    using assms(2) by (auto simp: session_exec_step split: if_splits)
  then have "lk_owner c = None \<or> writeQueue s = writeQueue (lk_session c)" using requeue_step(2) by blast
  with assms(1) s(2) show ?thesis by (auto simp: lock_inv_def split: option.splits owner.splits)
qed (use assms in \<open>auto simp: lock_inv_def split: option.splits owner.splits if_splits list.splits socket_task.splits\<close>)

section \<open>The calls are atomic\<close>

lemma putback_sender [simp]: "putback b (Some (Sender m pc)) = putback b None"
  by (cases b) auto

lemma put_requeue: "put ks (requeue q s) = requeue q (put ks s)"
  by (simp add: requeue_def)

lemma unqueue_statement:
  "send_statement m pc s = (pc', t) \<Longrightarrow> \<forall>b. pc \<noteq> AtNext b \<Longrightarrow> requeue q t = requeue q s"
  "write_statement m err WritePop s = (wc, t) \<Longrightarrow> requeue q t = requeue q s"
  by (cases pc; auto simp: requeue_def split: if_splits) (auto simp: requeue_def)

lemma view_statement:
  assumes inv: "lock_inv c" and ex: "lock_exec bo c Statement = Some d"
  shows "atomic_view d = atomic_view c \<or> calling_next bo (atomic_view c) (atomic_view d)"
proof (cases "lk_owner c")
  case None
  with ex show ?thesis by simp
next
  case (Some h)
  let ?s = "lk_session c"
  show ?thesis
  proof (cases h)
    case (Sender m pc)
    obtain pc' t where st: "send_statement m pc ?s = (pc', t)" by fastforce
    consider "pc = AtUnlock" | wip where "pc = AtNext wip" | "pc \<noteq> AtUnlock" "\<forall>b. pc \<noteq> AtNext b" by (cases pc) auto
    then show ?thesis
    proof cases
      case 1
      with ex Some Sender show ?thesis by (auto simp: atomic_view_def)
    next
      case 2
      have "halfway m (AtNext wip) (lk_saved c) (writeQueue ?s)" using inv Some Sender 2 by (simp add: lock_inv_def)
      from send_commits [OF this] st 2 have "t = send_message m (requeue (lk_saved c) ?s)" "pc' = AtUnlock" by auto
      with ex Some Sender st 2 have "atomic_view d = send_message m (atomic_view c)"
        by (auto simp: atomic_view_def)
      then show ?thesis by (auto simp: calling_next_def)
    next
      case 3
      have "pc' \<noteq> AtUnlock" using st 3 by (cases pc) (auto split: if_splits)
      with ex Some Sender st 3 unqueue_statement(1) [OF st 3(2)] show ?thesis by (auto simp: atomic_view_def)
    qed
  next
    case (Writer m err pc)
    then have bl: "lk_blocked c = None" and hw: "halfwritten pc (lk_saved c) (writeQueue ?s)"
      using inv Some by (simp_all add: lock_inv_def)
    show ?thesis
    proof (cases pc)
      case WriteUnlock
      with ex Some Writer bl show ?thesis by (auto simp: atomic_view_def)
    next
      case WritePop
      with ex Some Writer bl unqueue_statement(2) [of m err ?s] show ?thesis by (auto simp: atomic_view_def)
    next
      case WriteNext
      let ?v = "put [OnWrite m err] (requeue (lk_saved c) ?s)"
      obtain wc t where wt: "write_statement m err WriteNext ?s = (wc, t)" "wc = WriteUnlock" by simp
      with ex Some Writer WriteNext have "d = c\<lparr>lk_session := t, lk_owner := Some (Writer m err WriteUnlock)\<rparr>"
        by (simp del: write_statement.simps)
      then have "atomic_view c = ?v" "atomic_view d = snd (write_statement m err WriteNext ?s)"
        using Some Writer bl WriteNext wt(1) by (simp_all add: atomic_view_def)
      moreover have "snd (write_statement m err WriteNext ?s) = handleWrite m err (requeue (lk_saved c) ?s)"
        by (rule write_commits) (use hw WriteNext in simp)
      moreover have "session_step bo ?v SocketStrand (run_socket_task (OnWrite m err) (?v\<lparr>socketStrand := socketStrand ?s\<rparr>))"
        by (rule session_step.socket_strand) (simp add: requeue_def)
      moreover have "?v\<lparr>socketStrand := socketStrand ?s\<rparr> = requeue (lk_saved c) ?s"
        by (simp add: put_def requeue_def)
      ultimately show ?thesis by (auto simp: calling_next_def session_next_def)
    qed
  qed
qed

lemma view_whole:
  assumes "lock_inv c" "lock_exec bo c (Whole e) = Some d"
  shows "calling_next bo (atomic_view c) (atomic_view d)"
proof -
  let ?ks = "putback (lk_blocked c) (lk_owner c)"
  obtain s where s: "session_step bo (lk_session c) e s" "d = c\<lparr>lk_session := s\<rparr>"
    "needs_mutex (lk_session c) e \<longrightarrow> lk_owner c = None"
    "e = SocketStrand \<longrightarrow> \<not> strand_busy (lk_blocked c) (lk_owner c)"
    using assms(2) by (auto simp: session_exec_step split: if_splits)
  have strand: "session_step bo (put ?ks u) e (put ?ks v)" if "session_step bo u e v" for u v :: "'a session"
  proof (cases "e = SocketStrand")
    case True
    with s(4) have "?ks = []" by (cases "(lk_blocked c, lk_owner c)" rule: strand_busy.cases) auto
    with that show ?thesis by simp
  qed (rule put_step [OF that])
  have "session_step bo (atomic_view c) e (atomic_view d)"
  proof (cases "uncommitted (lk_owner c)")
    case True
    with s(3) have "\<not> needs_mutex (lk_session c) e" by auto
    from strand [OF requeue_step(1) [OF s(1) this]] True s(2) show ?thesis by (simp add: atomic_view_def)
  next
    case False
    with strand [OF s(1)] s(2) show ?thesis by (simp add: atomic_view_def)
  qed
  then show ?thesis by (auto simp: calling_next_def session_next_def)
qed

lemma view_exec:
  assumes "lock_inv c" "lock_exec bo c e = Some d"
  shows "atomic_view d = atomic_view c \<or> calling_next bo (atomic_view c) (atomic_view d)"
proof (cases e)
  case (TakeMutex i)
  with assms show ?thesis by (auto simp: atomic_view_def requeue_def requeue_self split: if_splits)
next
  case BeginWrite
  then obtain m err ts where b: "\<not> strand_busy (lk_blocked c) (lk_owner c)" "socketStrand (lk_session c) = OnWrite m err # ts"
    "d = c\<lparr>lk_session := (lk_session c)\<lparr>socketStrand := ts\<rparr>, lk_blocked := Some (m, err)\<rparr>"
    using assms(2) by (auto split: if_splits list.splits socket_task.splits)
  have "putback (lk_blocked c) (lk_owner c) = []"
    using b(1) by (cases "(lk_blocked c, lk_owner c)" rule: strand_busy.cases) auto
  moreover have "put [OnWrite m err] ((lk_session c)\<lparr>socketStrand := ts\<rparr>) = lk_session c"
    using b(2) by (cases "lk_session c") (simp add: put_def)
  ultimately show ?thesis using b(3) by (simp add: atomic_view_def put_requeue)
next
  case WriterTakesMutex
  with assms show ?thesis by (auto simp: atomic_view_def requeue_def requeue_self split: option.splits if_splits)
next
  case Statement
  with assms view_statement show ?thesis by blast
next
  case (Whole e')
  with assms view_whole show ?thesis by blast
qed (use assms(2) in \<open>auto simp: atomic_view_def\<close>)

interpretation locking: simulation locked_init "locked_next bo" lock_inv session_start "calling_next bo" atomic_view for bo
proof unfold_locales
  show "session_start (atomic_view c)" if "locked_init c" for c :: "'a locked"
    using that by (simp add: locked_init_def atomic_view_def session_start_def)
qed (auto simp: locked_init_def locked_next_def lock_inv_def [of "\<lparr>lk_session = _, lk_waiting = _, lk_blocked = _, lk_owner = _, lk_saved = _\<rparr>"]
    dest: lock_inv_step view_exec)

section \<open>Properties\<close>

lemma atomic_in_flight:
  "in_flight (session_view (lk_session c)) \<subseteq># in_flight (session_view (atomic_view c))"
  "session_closed (atomic_view c) = session_closed (lk_session c)"
proof -
  have "in_flight (session_view s) \<subseteq># in_flight (session_view (put ks s))" "session_closed (put ks s) = session_closed s"
    "in_flight (session_view (requeue q s)) = in_flight (session_view s)" "session_closed (requeue q s) = session_closed s"
    for ks q and s :: "'a session"
    by (simp_all add: in_flight_def session_view_def session_closed_def put_def requeue_def)
  then show "in_flight (session_view (lk_session c)) \<subseteq># in_flight (session_view (atomic_view c))"
    "session_closed (atomic_view c) = session_closed (lk_session c)"
    by (auto simp: atomic_view_def) (metis)
qed

text \<open>C5. The mutex makes calls atomic: with any number of threads in \<open>send\<close> and the strand in
  \<open>handleWrite\<close>, statement by statement and between the statements of all other events, the session
  with the changes of an unfinished call undone is one that whole calls reach, and is the session
  itself when nobody holds the mutex and no \<open>handleWrite\<close> waits for it; and until the session has
  run the task of \<open>close\<close>, at most one write is posted or under way.\<close>

theorem send_is_atomic:
  assumes "reach locked_init (locked_next bo) c"
  shows "reach session_start (calling_next bo) (atomic_view c) \<and>
    (lk_owner c = None \<and> lk_blocked c = None \<longrightarrow> atomic_view c = lk_session c) \<and>
    (\<not> session_closed (lk_session c) \<longrightarrow> size (in_flight (session_view (lk_session c))) \<le> 1)"
proof (intro conjI impI)
  show r: "reach session_start (calling_next bo) (atomic_view c)" by (rule locking.reachable_view [OF assms])
  show "atomic_view c = lk_session c" if "lk_owner c = None \<and> lk_blocked c = None"
    using that by (simp add: atomic_view_def)
  assume "\<not> session_closed (lk_session c)"
  with calling_writer.view_single_writer [OF r] have "single_writer (session_view (atomic_view c))"
    by (simp add: atomic_in_flight)
  with single_writer_size size_mset_mono [OF atomic_in_flight(1)] show "size (in_flight (session_view (lk_session c))) \<le> 1"
    by (metis le_trans)
qed

text \<open>Two threads send; the second one waits for the mutex, and the handshake goes on meanwhile.\<close>

definition two_senders :: "nat lock_event list" where
  "two_senders = [CallSendOf (Message_create Data Buffer_default), CallSendOf (Message_of_type Ping), TakeMutex 0,
     Statement, Whole (Open ClientSide None), Statement, Whole SocketStrand, Statement, Statement, TakeMutex 0,
     Statement, Statement, Statement, Statement, Statement, Statement, Statement]"

lemma two_senders_run:
  "\<exists>c. run (lock_exec LittleEndian) \<lparr>lk_session = Session_create, lk_waiting = [], lk_blocked = None,
      lk_owner = None, lk_saved = []\<rparr> two_senders = Some c \<and> lk_owner c = None \<and> lk_blocked c = None \<and>
    writeQueue (lk_session c) = [Message_create Data Buffer_default, Message_of_type Ping] \<and>
    wr_posted (session_view (lk_session c)) = {#Message_create Data Buffer_default#}"
  by (simp add: run_simps two_senders_def session_view_def)

theorem send_is_atomic_witness:
  "\<exists>c :: nat locked. reach locked_init (locked_next LittleEndian) c \<and>
     reach session_start (calling_next LittleEndian) (lk_session c) \<and>
     writeQueue (lk_session c) = [Message_create Data Buffer_default, Message_of_type Ping]"
proof -
  obtain c :: "nat locked" where c: "run (lock_exec LittleEndian) \<lparr>lk_session = Session_create, lk_waiting = [],
      lk_blocked = None, lk_owner = None, lk_saved = []\<rparr> two_senders = Some c" "lk_owner c = None" "lk_blocked c = None"
    "writeQueue (lk_session c) = [Message_create Data Buffer_default, Message_of_type Ping]"
    using two_senders_run by blast
  have "reach locked_init (locked_next LittleEndian) c"
    by (rule run_invariant [OF c(1)])
      (auto simp: locked_next_def locked_init_def intro: reach.reach_init reach.reach_step)
  with send_is_atomic [OF this] c(2-4) show ?thesis by auto
qed

end
