(* ===== verification/SessionWatchdog.thy ===== *)
theory SessionWatchdog
  imports Endpoints
begin

text \<open>
  The read timer of \<open>Session\<close> as a watchdog.  A session is watched together with one bit about its
  timer, whether a wait is live; asio's contract on \<open>deadline_timer\<close> is that a wait ends with
  \<open>operation_aborted\<close> only after \<open>cancel\<close> or \<open>expires_from_now\<close>, so an abort is the end of a wait that
  is not live.  The invariant says that a connected session with a read under way is never without
  a timer: a wait is live, or a task in the timer's strand will start one.
\<close>

section \<open>State and events\<close>

record 'x watched =
  wd_session :: "'x session"
  wd_live :: bool

fun wait_allowed :: "'x watched \<Rightarrow> 'x event \<Rightarrow> bool" where
  "wait_allowed w (TimerDone err) \<longleftrightarrow>
     err = Some OperationAborted \<longrightarrow> of_bool (wd_live w) < timerWaits (wd_session w)"
| "wait_allowed w _ \<longleftrightarrow> True"

fun live_after :: "'x watched \<Rightarrow> 'x event \<Rightarrow> bool" where
  "live_after w (TimerStrand now rnd) = (case readTimerStrand (wd_session w) of
      [] \<Rightarrow> wd_live w
    | t # _ \<Rightarrow> if t = RunRestart then True else if t = RunCancelTimer then False else wd_live w)"
| "live_after w (TimerDone err) = (if err = Some OperationAborted then wd_live w else False)"
| "live_after w _ = wd_live w"

definition watched_exec :: "byte_order \<Rightarrow> 'x watched \<Rightarrow> 'x event \<Rightarrow> 'x watched option" where
  "watched_exec bo w e = (if admissible (wd_session w) e \<and> wait_allowed w e
     then map_option (\<lambda>s. \<lparr>wd_session = s, wd_live = live_after w e\<rparr>) (session_exec bo (wd_session w) e)
     else None)"

definition watched_init :: "'x watched \<Rightarrow> bool" where
  "watched_init w \<longleftrightarrow> (\<exists>oh ch rh. w = \<lparr>wd_session = configure oh ch rh Session_create, wd_live = False\<rparr>)"

definition watched_next :: "byte_order \<Rightarrow> 'x watched \<Rightarrow> 'x watched \<Rightarrow> bool" where
  "watched_next bo w v \<longleftrightarrow> (\<exists>e. watched_exec bo w e = Some v)"

section \<open>Whether the strand leaves the timer running\<close>

fun arms :: "bool \<Rightarrow> timer_task list \<Rightarrow> bool" where
  "arms l [] = l"
| "arms l (RunRestart # ts) = arms True ts"
| "arms l (RunCancelTimer # ts) = arms False ts"
| "arms l (RunTouch # ts) = arms l ts"
| "arms l (RunTimeOut # ts) = arms l ts"

definition armed_timer :: "bool \<Rightarrow> 'x session \<Rightarrow> bool" where
  "armed_timer l s \<longleftrightarrow> RunTimeOut \<in> set (readTimerStrand s) \<or> arms l (readTimerStrand s)"

lemma arms_append [simp]: "arms l (ts @ us) = arms (arms l ts) us"
  by (induction l ts rule: arms.induct) simp_all

definition pending_reads :: "'x session \<Rightarrow> nat" where
  "pending_reads s = sum_list (map op_reads (pendingOps s))"

definition waits_for_peer :: "'x session \<Rightarrow> bool" where
  "waits_for_peer s \<longleftrightarrow> isConnected s \<and> pending_reads s \<noteq> 0"

definition watch_ok :: "'x watched \<Rightarrow> bool" where
  "watch_ok w \<longleftrightarrow> (let s = wd_session w in reader_inv s \<and> lf_opens (session_life s) \<le> 1 \<and>
     (wd_live w \<longrightarrow> 0 < timerWaits s) \<and> (waits_for_peer s \<longrightarrow> armed_timer (wd_live w) s))"

text \<open>A still operation does not connect the session, starts no read, and leaves the timer alone unless
  it disconnects the session.\<close>

definition still :: "'x session \<Rightarrow> 'x session \<Rightarrow> bool" where
  "still s t \<longleftrightarrow> pending_reads t = pending_reads s \<and> timerWaits t = timerWaits s \<and>
     (isConnected t \<longrightarrow> isConnected s \<and> readTimerStrand t = readTimerStrand s)"

lemma still_trans [trans]: "still s t \<Longrightarrow> still t u \<Longrightarrow> still s u"
  by (simp add: still_def)

lemma still_frame [simp]:
  "still s s" "still s (t\<lparr>writeQueue := q\<rparr>) = still s t" "still s (t\<lparr>extCalls := xs\<rparr>) = still s t"
  "still s (t\<lparr>readStrand := rs\<rparr>) = still s t" "still s (t\<lparr>socketStrand := ts\<rparr>) = still s t"
  "still s (post_socket k t) = still s t" "still s (post_read r t) = still s t"
  "still s (issue r' t) = still s t" "still s (t\<lparr>lastTimeRead := l\<rparr>) = still s t"
  "op_reads op = 0 \<Longrightarrow> still s (start_op op t) = still s t"
  by (simp_all add: still_def pending_reads_def post_socket_def post_read_def issue_def start_op_def)

lemma still_quiet [simp]:
  "still s (cancelAllPendingOperations t) = still s t" "still s (writeNext t) = still s t"
  "still s (send_message m t) = still s t" "still s (send p t) = still s t"
  "still s (ping t) = still s t" "still s (pong t) = still s t"
  "still s (asyncHandshake ht t) = still s t" "still s (asyncWrite m t) = still s t"
  "still s (handleMessage m t) = still s t" "still s (onMessageReceived m t) = still s t"
  by (simp_all add: cancelAllPendingOperations_def writeNext_def send_message_def send_def ping_def
      pong_def asyncHandshake_def asyncWrite_def handleMessage_def onMessageReceived_def Let_def
      split: list.split option.split)

lemma still_message: "still s (onMessageReceived m s)" and still_ping: "still s (ping s)"
  by simp_all

lemma still_close: "still s (close s)" "still s (drop_session s)"
  by (simp_all add: drop_session_def close_spec still_def pending_reads_def)

lemma still_handleWrite: "still s (handleWrite m err s)"
  using still_trans [OF _ still_close(1), of s "s\<lparr>writeQueue := tl (writeQueue s)\<rparr>"] still_close(1) [of s]
  by (simp add: handleWrite_def Let_def)

lemma still_run_calls: "still s (run_calls cs s)"
proof (induction cs arbitrary: s)
  case (Cons c cs)
  have "still s (run_call c s)" by (cases c) (simp_all add: still_close)
  from still_trans [OF this Cons] show ?case by simp
qed simp

lemma still_run_handler: "still s (run_handler h s)"
  by (cases h) (simp_all add: run_handler_def still_run_calls)

lemma still_close_task: "still s (close_task s)"
proof -
  have "still s (issue SocketClose (issue SocketShutdown (s\<lparr>writeQueue := []\<rparr>)))" by simp
  from still_trans [OF this still_run_handler] show ?thesis by (simp add: close_task_def Let_def)
qed

lemma watched_still: "waits_for_peer s \<longrightarrow> armed_timer l s \<Longrightarrow> still s t \<Longrightarrow> waits_for_peer t \<longrightarrow> armed_timer l t"
  by (auto simp: waits_for_peer_def armed_timer_def still_def)

section \<open>Tasks\<close>

text \<open>A read is started together with the timer.\<close>

lemma read_arms:
  "armed_timer l (readNext s)" "armed_timer l (asyncReadBody m s)"
  "timerWaits (readNext s) = timerWaits s" "timerWaits (asyncReadBody m s) = timerWaits s"
  by (simp_all add: armed_timer_def readNext_def asyncReadHeader_def asyncReadBody_def
      restartReadTimer_def post_timer_def start_op_def issue_def)

lemma reads_split: "lf_reads (session_life s) = sum_list (map task_reads (socketStrand s)) + pending_reads s"
  by (simp add: session_life_def pending_reads_def)

lemma waits_cancelled: "waits_for_peer (cancelReadTimer s) = waits_for_peer s"
  "waits_for_peer (close s) = False" "timerWaits (cancelReadTimer s) = timerWaits s"
  "timerWaits (close s) = timerWaits s" "timerWaits (onMessageReceived m s) = timerWaits s"
  using still_message [of s m]
  by (simp_all add: waits_for_peer_def cancelReadTimer_def post_timer_def pending_reads_def close_spec still_def)

lemma watched_reads:
  assumes "pending_reads s = 0"
  shows "waits_for_peer (handleReadHeader m err s) \<longrightarrow> armed_timer l (handleReadHeader m err s)"
    and "waits_for_peer (handleReadBody m err s) \<longrightarrow> armed_timer l (handleReadBody m err s)"
    and "waits_for_peer (handleHandshake err s) \<longrightarrow> armed_timer l (handleHandshake err s)"
proof -
  have none: "\<not> waits_for_peer s" using assms by (simp add: waits_for_peer_def)
  then show "waits_for_peer (handleReadHeader m err s) \<longrightarrow> armed_timer l (handleReadHeader m err s)"
    and "waits_for_peer (handleReadBody m err s) \<longrightarrow> armed_timer l (handleReadBody m err s)"
    by (auto simp: handleReadHeader_def handleReadBody_def Let_def read_arms waits_cancelled)
  show "waits_for_peer (handleHandshake err s) \<longrightarrow> armed_timer l (handleHandshake err s)"
  proof (cases "err = None")
    case True
    let ?t = "readNext (post_timer RunTouch (s\<lparr>isConnected := True\<rparr>))"
    have "waits_for_peer ?t \<longrightarrow> armed_timer l ?t" by (simp add: read_arms)
    from watched_still [OF this still_run_handler, of "openHandler ?t"] True show ?thesis
      by (simp add: handleHandshake_def Let_def)
  next
    case False
    have "\<not> waits_for_peer (s\<lparr>isConnected := True\<rparr>)"
      using assms by (simp add: waits_for_peer_def pending_reads_def)
    with False show ?thesis
      by (cases "err = Some OperationAborted") (auto simp: handleHandshake_def waits_cancelled Let_def)
  qed
qed

lemma waits_tasks: "timerWaits (run_socket_task t s) = timerWaits s"
proof -
  have "timerWaits (run_handler h r) = timerWaits r" for h and r :: "'a session"
    using still_run_handler [of r h] by (simp add: still_def)
  moreover have "timerWaits (close_task r) = timerWaits r" "timerWaits (handleWrite m err r) = timerWaits r"
    for m err and r :: "'a session"
    using still_close_task [of r] still_handleWrite [of r m err] by (simp_all add: still_def)
  ultimately show ?thesis
    by (cases t) (simp_all add: asyncHandshake_def asyncWrite_def start_op_def issue_def handleHandshake_def
        handleReadHeader_def handleReadBody_def waits_cancelled read_arms post_timer_def Let_def)
qed

lemma watched_task:
  assumes "watch_ok \<lparr>wd_session = s, wd_live = l\<rparr>" "socketStrand s = t # ts"
  shows "waits_for_peer (run_socket_task t (s\<lparr>socketStrand := ts\<rparr>)) \<longrightarrow>
    armed_timer l (run_socket_task t (s\<lparr>socketStrand := ts\<rparr>))"
proof -
  let ?u = "s\<lparr>socketStrand := ts\<rparr>"
  have u: "waits_for_peer ?u \<longrightarrow> armed_timer l ?u"
    using assms(1) watched_still [of s l ?u] by (simp add: watch_ok_def)
  have "lf_reads (session_life s) + lf_shakes (session_life s) \<le> 1"
    using assms(1) unfolding watch_ok_def reader_inv_def Let_def by simp
  moreover have "lf_reads (session_life s) = task_reads t + sum_list (map task_reads ts) + pending_reads s"
    "task_shakes t \<le> lf_shakes (session_life s)"
    by (simp_all add: reads_split assms(2)) (simp add: session_life_def assms(2))
  moreover have "pending_reads ?u = pending_reads s" by (simp add: pending_reads_def)
  ultimately have idle: "pending_reads ?u = 0" if "task_reads t + task_shakes t = 1"
    using that by linarith
  show ?thesis
  proof (cases t)
    case (OnHandshake err)
    with watched_reads(3) [OF idle] show ?thesis by simp
  next
    case (OnReadHeader m err)
    with watched_reads(1) [OF idle] show ?thesis by simp
  next
    case (OnReadBody m err)
    with watched_reads(2) [OF idle] show ?thesis by simp
  qed (use u in \<open>auto intro!: watched_still [OF u, rule_format] simp: still_close_task still_handleWrite\<close>)
qed

section \<open>Every event\<close>

lemma arms_pop:
  assumes "readTimerStrand s = t # ts" "waits_for_peer s \<longrightarrow> armed_timer l s" "t \<noteq> RunTimeOut"
  defines "l' \<equiv> if t = RunRestart then True else if t = RunCancelTimer then False else l"
  shows "waits_for_peer (run_timer_task now rnd t (s\<lparr>readTimerStrand := ts\<rparr>)) \<longrightarrow>
    armed_timer l' (run_timer_task now rnd t (s\<lparr>readTimerStrand := ts\<rparr>))"
  using assms by (cases t) (auto simp: waits_for_peer_def armed_timer_def pending_reads_def
      restart_timer_task_def cancel_timer_task_def issue_def Let_def)

lemma arms_timeout:
  "waits_for_peer (timeout_task now s) \<longrightarrow> armed_timer l (timeout_task now s)"
  "timerWaits (timeout_task now s) = timerWaits s"
  using still_ping [of s] by (auto simp: timeout_task_def waits_cancelled armed_timer_def
      restartReadTimer_def post_timer_def still_def Let_def)

lemma pending_Complete:
  assumes "i < length (pendingOps s)"
  shows "pending_reads (post_socket k (s\<lparr>pendingOps := remove_at i (pendingOps s)\<rparr>)) \<le> pending_reads s"
  using sum_list_remove_at [OF assms, of op_reads] by (simp add: pending_reads_def post_socket_def)

lemma opens_step:
  assumes "session_step bo s e t" "admissible s e" "lf_opens (session_life s) \<le> 1"
  shows "lf_opens (session_life t) \<le> 1"
  using assms(1)
proof (cases rule: life_step_cases)
  case (socket t' ts)
  then show ?thesis using assms(3) life_task_opens [of t' "s\<lparr>socketStrand := ts\<rparr>"] life_pop [OF socket(2)] by simp
next
  case (opened ht opt)
  with assms(2) have "lf_opens (session_life s) = 0" by (simp add: session_life_def open_count_def)
  with life_open [OF opened(2)] show ?thesis by auto
next
  case same
  with assms(3) show ?thesis by simp
qed

lemma no_reads_open:
  assumes "reader_inv s" "open_count s = 0" "open_session ht opt s = Inr t"
  shows "\<not> waits_for_peer t" "timerWaits t = timerWaits s"
proof -
  have "pending_reads s = 0" using assms(1,2)
    by (auto simp: reader_inv_def reads_split open_count_def) (simp add: session_life_def)
  moreover have "pending_reads t = pending_reads s" "timerWaits t = timerWaits s"
    using assms(3) by (auto simp: open_session_def configureSocket_def pending_reads_def post_socket_def
        issue_def split: if_splits option.splits)
  ultimately show "\<not> waits_for_peer t" "timerWaits t = timerWaits s" by (simp_all add: waits_for_peer_def)
qed

text \<open>The part of the invariant that is about the timer.\<close>

definition watch_part :: "bool \<Rightarrow> 'x session \<Rightarrow> bool" where
  "watch_part l s \<longleftrightarrow> (l \<longrightarrow> 0 < timerWaits s) \<and> (waits_for_peer s \<longrightarrow> armed_timer l s)"

lemma watch_ok_part: "watch_ok w \<longleftrightarrow> reader_inv (wd_session w) \<and>
    lf_opens (session_life (wd_session w)) \<le> 1 \<and> watch_part (wd_live w) (wd_session w)"
  by (simp add: watch_ok_def watch_part_def Let_def)

lemma watch_still: "watch_part l s \<Longrightarrow> still s t \<Longrightarrow> watch_part l t"
  using watched_still [of s l t] by (auto simp: watch_part_def still_def)

lemma watch_timer_strand:
  assumes "watch_part l s" "readTimerStrand s = t # ts"
  shows "watch_part (if t = RunRestart then True else if t = RunCancelTimer then False else l)
    (run_timer_task now rnd t (s\<lparr>readTimerStrand := ts\<rparr>))"
proof (cases "t = RunTimeOut")
  case True
  with assms(1) show ?thesis by (simp add: watch_part_def arms_timeout)
next
  case False
  with arms_pop [OF assms(2) _ False, of l now rnd] assms(1) show ?thesis
    by (cases t) (simp_all add: watch_part_def restart_timer_task_def cancel_timer_task_def issue_def Let_def)
qed

lemma watch_complete:
  assumes "watch_part l s" "i < length (pendingOps s)"
  shows "watch_part l (post_socket k (s\<lparr>pendingOps := remove_at i (pendingOps s)\<rparr>))"
proof -
  let ?t = "post_socket k (s\<lparr>pendingOps := remove_at i (pendingOps s)\<rparr>)"
  have "isConnected ?t = isConnected s" "readTimerStrand ?t = readTimerStrand s" "timerWaits ?t = timerWaits s"
    by (simp_all add: post_socket_def)
  with pending_Complete [OF assms(2), of k] assms(1) show ?thesis
    by (auto simp: watch_part_def waits_for_peer_def armed_timer_def)
qed

lemma watch_timer_done:
  assumes "watch_part l s" "err = Some OperationAborted \<longrightarrow> of_bool l < timerWaits s"
  shows "watch_part (if err = Some OperationAborted then l else False)
    (handleReadTimeOut err (s\<lparr>timerWaits := timerWaits s - 1\<rparr>))"
  using assms by (auto simp: watch_part_def handleReadTimeOut_def waits_for_peer_def armed_timer_def
      pending_reads_def post_timer_def)

lemma watch_open:
  assumes "watch_part l s" "reader_inv s" "open_count s = 0" "open_session ht opt s = Inr t"
  shows "watch_part l t"
  using no_reads_open [OF assms(2-4)] assms(1) by (simp add: watch_part_def)

lemma watch_task:
  assumes "watch_ok \<lparr>wd_session = s, wd_live = l\<rparr>" "socketStrand s = t # ts"
  shows "watch_part l (run_socket_task t (s\<lparr>socketStrand := ts\<rparr>))"
  using watched_task [OF assms] assms(1) by (simp add: watch_part_def watch_ok_part waits_tasks)

lemma watch_part_step:
  assumes step: "session_step bo s e t" and adm: "admissible s e"
    and wait: "wait_allowed \<lparr>wd_session = s, wd_live = l\<rparr> e" and ok: "watch_ok \<lparr>wd_session = s, wd_live = l\<rparr>"
  shows "watch_part (live_after \<lparr>wd_session = s, wd_live = l\<rparr> e) t"
proof -
  have part: "watch_part l s" and "reader_inv s" using ok by (simp_all add: watch_ok_part)
  note quiet = watch_still [OF part]
  show ?thesis
    using step
  proof cases
    case (configure oh ch rh)
    have "still s (configure oh ch rh s)" by (simp add: still_def configure_def pending_reads_def)
    with configure quiet show ?thesis by simp
  next
    case (open_ok ht opt)
    with watch_open [OF part \<open>reader_inv s\<close>] adm show ?thesis by simp
  next
    case (read_strand h payload ts)
    have "still s (s\<lparr>readStrand := ts\<rparr>)" by simp
    from quiet [OF still_trans [OF this still_run_calls]] read_strand show ?thesis by simp
  next
    case (timer_strand k ts now rnd)
    from watch_timer_strand [OF part timer_strand(3), of now rnd] show ?thesis
      by (simp only: timer_strand live_after.simps watched.simps list.case)
  next
    case (timer_done err)
    with wait have "err = Some OperationAborted \<longrightarrow> of_bool l < timerWaits s" by simp
    from watch_timer_done [OF part this] show ?thesis by (simp only: timer_done live_after.simps watched.simps)
  qed (simp_all add: part quiet still_close watch_complete watch_task [OF ok])
qed

lemma watch_step:
  assumes "watch_ok w" "watched_exec bo w e = Some v"
  shows "watch_ok v"
proof -
  have step: "session_step bo (wd_session w) e (wd_session v)" and adm: "admissible (wd_session w) e"
    and wait: "wait_allowed w e" and live: "wd_live v = live_after w e"
    using assms(2) by (auto simp: watched_exec_def session_exec_step split: if_splits)
  have "w = \<lparr>wd_session = wd_session w, wd_live = wd_live w\<rparr>" by simp
  with watch_part_step [OF step adm, of "wd_live w"] assms(1) wait
  have "watch_part (live_after w e) (wd_session v)" by metis
  with life_step_inv(1) [OF step] opens_step [OF step adm] assms(1) live show ?thesis
    by (simp add: watch_ok_part)
qed

interpretation watchdog: inductive_invariant watched_init "watched_next bo" watch_ok for bo
proof unfold_locales
  show "watch_ok w" if "watched_init w" for w :: "'a watched"
    using that by (auto simp: watched_init_def watch_ok_def reader_inv_def session_life_def waits_for_peer_def
        configure_def Session_create_def Let_def)
  show "watch_ok v" if "watch_ok w" "watched_next bo w v" for w v :: "'a watched"
    using that watch_step by (auto simp: watched_next_def)
qed

section \<open>Properties\<close>

text \<open>C11. A silent peer cannot hold a session: whenever a session is connected and a read of its is
  under way, a wait of the read timer is live or the timer's strand is about to start one or to
  check the time; and with nothing left in that strand, the end of the wait followed by the check,
  one second (\<open>10 ^ 9\<close> ns) or more after the clock value stored by the last read, disconnects the
  session.\<close>

theorem watchdog_armed:
  assumes "reach watched_init (watched_next bo) w" and "isConnected (wd_session w)"
    and "op \<in> set (pendingOps (wd_session w))" "op_reads op = 1"
  shows "armed_timer (wd_live w) (wd_session w) \<and>
    (readTimerStrand (wd_session w) = [] \<and> 10 ^ 9 \<le> now - lastTimeRead (wd_session w) \<longrightarrow>
       wd_live w \<and> (\<exists>s. run (session_exec bo) (wd_session w) [TimerDone None, TimerStrand now rnd] = Some s \<and>
         \<not> isConnected s))"
proof -
  let ?s = "wd_session w"
  have ok: "watch_ok w" by (rule watchdog.reachable_inv [OF assms(1)])
  have "pending_reads ?s \<noteq> 0" 
    using assms(3,4) by (simp add: pending_reads_def) (rule bexI [of _ op], simp_all)
  with ok assms(2) have armed: "armed_timer (wd_live w) ?s" "wd_live w \<longrightarrow> 0 < timerWaits ?s"
    by (simp_all add: watch_ok_def waits_for_peer_def Let_def)
  moreover have "\<exists>s. run (session_exec bo) ?s [TimerDone None, TimerStrand now rnd] = Some s \<and> \<not> isConnected s"
    if "readTimerStrand ?s = []" "10 ^ 9 \<le> now - lastTimeRead ?s" "wd_live w"
    using that armed by (simp add: handleReadTimeOut_def timeout_closes_after_one_second post_timer_def close_spec
        del: run_timer_task.simps)
  ultimately show ?thesis by (auto simp: armed_timer_def)
qed

lemma watched_reachable_run:
  assumes "run (watched_exec bo) \<lparr>wd_session = configure oh ch rh Session_create, wd_live = False\<rparr> es = Some w"
  shows "reach watched_init (watched_next bo) w"
  using assms
proof (rule run_invariant)
  show "reach watched_init (watched_next bo) \<lparr>wd_session = configure oh ch rh Session_create, wd_live = False\<rparr>"
    by (rule reach.reach_init) (auto simp: watched_init_def)
qed (auto simp: watched_next_def intro: reach.reach_step)

lemma watched_run:
  "\<exists>w :: nat watched. run (watched_exec LittleEndian)
      \<lparr>wd_session = configure None None None Session_create, wd_live = False\<rparr>
      (handshake_events ServerSide @ [TimerStrand 5 0, TimerStrand 5 225]) = Some w \<and>
    isConnected (wd_session w) \<and> OpReadHeader Message_default \<in> set (pendingOps (wd_session w)) \<and>
    readTimerStrand (wd_session w) = [] \<and> lastTimeRead (wd_session w) = 5"
  by (simp add: watched_exec_def run_simps)

theorem watchdog_armed_witness:
  "\<exists>w :: nat watched. reach watched_init (watched_next LittleEndian) w \<and> wd_live w \<and>
     (\<exists>s. run (session_exec LittleEndian) (wd_session w) [TimerDone None, TimerStrand (10 ^ 9 + 5) 0] = Some s \<and>
       \<not> isConnected s)"
proof -
  obtain w :: "nat watched" where w: "run (watched_exec LittleEndian)
      \<lparr>wd_session = configure None None None Session_create, wd_live = False\<rparr>
      (handshake_events ServerSide @ [TimerStrand 5 0, TimerStrand 5 225]) = Some w"
    "isConnected (wd_session w)" "OpReadHeader Message_default \<in> set (pendingOps (wd_session w))"
    "readTimerStrand (wd_session w) = []" "lastTimeRead (wd_session w) = 5"
    using watched_run by blast
  note reached = watched_reachable_run [OF w(1)]
  have "wd_live w \<and> (\<exists>s. run (session_exec LittleEndian) (wd_session w)
      [TimerDone None, TimerStrand (10 ^ 9 + 5) 0] = Some s \<and> \<not> isConnected s)"
    by (rule mp [OF conjunct2 [OF watchdog_armed [OF reached w(2,3)]]]) (simp_all add: w(4,5))
  with reached show ?thesis by blast
qed

end
