(* ===== verification/PingPeriods.thy ===== *)
theory PingPeriods
  imports SessionWatchdog Complex_Main
begin

text \<open>
  \<open>RandomNumberGenerator.hpp\<close>, and the session that draws the periods of its read timer from one.  The
  engine and the distribution are the standard library's: \<open>distribution mean sigma e\<close> is the number
  drawn in the state \<open>e\<close> of both, with the next state.  The generator's state is its parameters and
  that state.  A session with its generator is a session whose \<open>TimerStrand\<close> events carry the numbers
  drawn, one for each restart of the timer.
\<close>

section \<open>The generator\<close>

record ('t, 'e) generator =
  rng_mean :: 't
  rng_sigma :: 't
  rng_state :: 'e

definition RandomNumberGenerator_create :: "'t \<Rightarrow> 't \<Rightarrow> 'e \<Rightarrow> ('t, 'e) generator" where
  "RandomNumberGenerator_create mean sigma seed = \<lparr>rng_mean = mean, rng_sigma = sigma, rng_state = seed\<rparr>"

definition RandomNumberGenerator_next :: "('t \<Rightarrow> 't \<Rightarrow> 'e \<Rightarrow> 't \<times> 'e) \<Rightarrow> ('t, 'e) generator \<Rightarrow>
    't \<times> ('t, 'e) generator" where
  "RandomNumberGenerator_next distribution g =
     (let (x, e) = distribution (rng_mean g) (rng_sigma g) (rng_state g) in (x, g\<lparr>rng_state := e\<rparr>))"

text \<open>The numbers a generator draws.\<close>

primrec draws :: "('t \<Rightarrow> 't \<Rightarrow> 'e \<Rightarrow> 't \<times> 'e) \<Rightarrow> nat \<Rightarrow> ('t, 'e) generator \<Rightarrow> 't list \<times> ('t, 'e) generator" where
  "draws distribution 0 g = ([], g)"
| "draws distribution (Suc n) g = (let (xs, g1) = draws distribution n g;
       (x, g2) = RandomNumberGenerator_next distribution g1 in (xs @ [x], g2))"

lemma draws_parameters [simp]: "rng_mean (snd (draws d n g)) = rng_mean g" "rng_sigma (snd (draws d n g)) = rng_sigma g"
  by (induction n) (simp_all add: RandomNumberGenerator_next_def Let_def split_beta)

lemma draws_length [simp]: "length (fst (draws d n g)) = n"
  by (induction n) (simp_all add: Let_def split_beta)

section \<open>The period of the read timer\<close>

text \<open>\<open>PingTimeOut\<close> and a quarter of it, which \<open>float\<close> holds exactly; the conversion to \<open>int\<close> truncates.\<close>

definition session_generator :: "'e \<Rightarrow> (real, 'e) generator" where
  "session_generator seed = RandomNumberGenerator_create (of_int PingTimeOut) (of_int PingTimeOut * (1 / 4)) seed"

definition truncated :: "real \<Rightarrow> int" where
  "truncated x = (if 0 \<le> x then \<lfloor>x\<rfloor> else \<lceil>x\<rceil>)"

definition next_period :: "(real \<Rightarrow> real \<Rightarrow> 'e \<Rightarrow> real \<times> 'e) \<Rightarrow> (real, 'e) generator \<Rightarrow> int \<times> (real, 'e) generator" where
  "next_period distribution g = (let (x, g1) = RandomNumberGenerator_next distribution g in (truncated x, g1))"

lemma truncated_bounds: "of_int a \<le> x \<Longrightarrow> x < of_int b \<Longrightarrow> 0 \<le> a \<Longrightarrow> a \<le> truncated x \<and> truncated x < b"
  by (simp add: truncated_def le_floor_iff floor_less_iff)

lemma period_bounds:
  "\<bar>x - of_int PingTimeOut\<bar> \<le> 3 * (of_int PingTimeOut * (1 / 4)) \<Longrightarrow> 83 \<le> truncated x \<and> truncated x < 583"
  using truncated_bounds [of 83 x 583] by (simp add: PingTimeOut_def abs_if split: if_splits)

text \<open>The numbers are not bounded below: from four deviations and one millisecond on the period is
  negative, and the wait ends at once.\<close>

lemma negative_period: "x \<le> of_int PingTimeOut - 4 * (of_int PingTimeOut * (1 / 4)) - 1 \<Longrightarrow> truncated x < 0"
  by (simp add: truncated_def PingTimeOut_def ceiling_less_iff)

section \<open>The periods a session asks for\<close>

fun request_periods :: "asio_request \<Rightarrow> int list" where
  "request_periods (TimerExpires p) = [p]"
| "request_periods _ = []"

definition periods :: "'x session \<Rightarrow> int list" where
  "periods s = concat (map request_periods (issued s))"

lemma periods_frame [simp]:
  "periods (s\<lparr>isConnected := b\<rparr>) = periods s" "periods (s\<lparr>lastTimeRead := l\<rparr>) = periods s"
  "periods (s\<lparr>writeQueue := q\<rparr>) = periods s" "periods (s\<lparr>timerWaits := n\<rparr>) = periods s"
  "periods (s\<lparr>socketStrand := st\<rparr>) = periods s" "periods (s\<lparr>readTimerStrand := ts\<rparr>) = periods s"
  "periods (s\<lparr>pendingOps := ops\<rparr>) = periods s" "periods (s\<lparr>readStrand := rs\<rparr>) = periods s"
  "periods (s\<lparr>extCalls := xs\<rparr>) = periods s" "periods (configure oh ch rh s) = periods s"
  "periods (post_socket t s) = periods s" "periods (post_timer tt s) = periods s"
  "periods (post_read r s) = periods s" "periods (start_op op s) = periods s"
  "periods (issue r' s) = periods s @ request_periods r'"
  by (simp_all add: periods_def configure_def post_socket_def post_timer_def post_read_def issue_def start_op_def)

lemma periods_quiet [simp]:
  "periods (cancelAllPendingOperations s) = periods s" "periods (cancelReadTimer s) = periods s"
  "periods (restartReadTimer s) = periods s" "periods (close s) = periods s"
  "periods (drop_session s) = periods s" "periods (writeNext s) = periods s"
  "periods (send_message m s) = periods s" "periods (send p s) = periods s"
  "periods (ping s) = periods s" "periods (pong s) = periods s" "periods (readNext s) = periods s"
  "periods (asyncReadBody m s) = periods s" "periods (asyncHandshake ht s) = periods s"
  "periods (asyncWrite m s) = periods s" "periods (handleWrite m err s) = periods s"
  "periods (handleReadTimeOut err s) = periods s" "periods (handleMessage m s) = periods s"
  "periods (onMessageReceived m s) = periods s" "periods (timeout_task now s) = periods s"
  "periods (cancel_timer_task now s) = periods s" "periods (restart_timer_task rnd s) = periods s @ [rnd]"
  by (simp_all add: cancelAllPendingOperations_def cancelReadTimer_def restartReadTimer_def close_def
      drop_session_def writeNext_def send_message_def send_def ping_def pong_def readNext_def asyncReadHeader_def
      asyncReadBody_def asyncHandshake_def asyncWrite_def handleWrite_def handleReadTimeOut_def handleMessage_def
      onMessageReceived_def timeout_task_def cancel_timer_task_def restart_timer_task_def Let_def
      split: list.split option.split)

lemma periods_calls [simp]: "periods (run_calls cs s) = periods s"
proof (induction cs arbitrary: s)
  case (Cons c cs)
  have "periods (run_call c s) = periods s" by (cases c) simp_all
  with Cons show ?case by simp
qed simp

lemma periods_handler [simp]: "periods (run_handler h s) = periods s"
  by (cases h) (simp_all add: run_handler_def)

lemma periods_task [simp]: "periods (run_socket_task t s) = periods s"
  by (cases t) (simp_all add: close_task_def handleReadHeader_def handleReadBody_def handleHandshake_def Let_def)

lemma periods_open: "open_session ht opt s = Inr t \<Longrightarrow> periods t = periods s"
  by (auto simp: open_session_def configureSocket_def split: if_splits option.splits)

section \<open>A session with its generator\<close>

record ('x, 'e) paced =
  pc_session :: "'x session"
  pc_generator :: "(real, 'e) generator"

fun paced_exec :: "(real \<Rightarrow> real \<Rightarrow> 'e \<Rightarrow> real \<times> 'e) \<Rightarrow> byte_order \<Rightarrow> ('x, 'e) paced \<Rightarrow> 'x event \<Rightarrow>
    ('x, 'e) paced option" where
  "paced_exec distribution bo p (TimerStrand now rnd) = (case readTimerStrand (pc_session p) of
      RunRestart # _ \<Rightarrow> (let (period, g) = next_period distribution (pc_generator p)
        in map_option (\<lambda>s. \<lparr>pc_session = s, pc_generator = g\<rparr>) (session_exec bo (pc_session p) (TimerStrand now period)))
    | _ \<Rightarrow> map_option (\<lambda>s. p\<lparr>pc_session := s\<rparr>) (session_exec bo (pc_session p) (TimerStrand now rnd)))"
| "paced_exec distribution bo p e = map_option (\<lambda>s. p\<lparr>pc_session := s\<rparr>) (session_exec bo (pc_session p) e)"

definition paced_init :: "'e \<Rightarrow> ('x, 'e) paced \<Rightarrow> bool" where
  "paced_init seed p \<longleftrightarrow> p = \<lparr>pc_session = Session_create, pc_generator = session_generator seed\<rparr>"

definition paced_next :: "(real \<Rightarrow> real \<Rightarrow> 'e \<Rightarrow> real \<times> 'e) \<Rightarrow> byte_order \<Rightarrow> ('x, 'e) paced \<Rightarrow> ('x, 'e) paced \<Rightarrow> bool" where
  "paced_next distribution bo p q \<longleftrightarrow> (\<exists>e. paced_exec distribution bo p e = Some q)"

text \<open>The periods asked for are the numbers drawn so far.\<close>

definition paced_inv :: "(real \<Rightarrow> real \<Rightarrow> 'e \<Rightarrow> real \<times> 'e) \<Rightarrow> 'e \<Rightarrow> byte_order \<Rightarrow> ('x, 'e) paced \<Rightarrow> bool" where
  "paced_inv distribution seed bo p \<longleftrightarrow> session_reachable bo (pc_session p) \<and>
     (let (xs, g) = draws distribution (length (periods (pc_session p))) (session_generator seed)
      in periods (pc_session p) = map truncated xs \<and> pc_generator p = g)"

text \<open>Only the restart of the timer asks for a period.\<close>

lemma periods_step:
  assumes "session_step bo s e t"
  shows "periods t = periods s \<or> (\<exists>now rnd ts. e = TimerStrand now rnd \<and> readTimerStrand s = RunRestart # ts \<and>
    periods t = periods s @ [rnd])"
  using assms
proof cases
  case (timer_strand k ts now rnd)
  then show ?thesis by (cases k) simp_all
qed (auto dest: periods_open)

lemma periods_restart:
  "readTimerStrand s = RunRestart # ts \<Longrightarrow> session_exec bo s (TimerStrand now rnd) = Some t \<Longrightarrow> periods t = periods s @ [rnd]"
  by auto

lemma session_reachable_exec: "session_reachable bo s \<Longrightarrow> session_exec bo s e = Some t \<Longrightarrow> session_reachable bo t"
  by (metis reach.reach_step session_exec_step session_next_def)

lemma paced_exec_cases:
  assumes "paced_exec d bo p e = Some q"
  obtains (drawn) now ts where "readTimerStrand (pc_session p) = RunRestart # ts"
      "pc_generator q = snd (next_period d (pc_generator p))"
      "session_exec bo (pc_session p) (TimerStrand now (fst (next_period d (pc_generator p)))) = Some (pc_session q)"
    | (other) "session_exec bo (pc_session p) e = Some (pc_session q)" "pc_generator q = pc_generator p"
        "periods (pc_session q) = periods (pc_session p)"
proof (cases "\<exists>now rnd ts. e = TimerStrand now rnd \<and> readTimerStrand (pc_session p) = RunRestart # ts")
  case True
  with assms that(1) show ?thesis by (auto simp del: session_exec.simps simp: Let_def split_beta)
next
  case False
  then have "session_exec bo (pc_session p) e = Some (pc_session q) \<and> pc_generator q = pc_generator p"
    using assms by (cases "(d, bo, p, e)" rule: paced_exec.cases)
      (auto simp del: session_exec.simps split: list.splits timer_task.splits)
  moreover from this have "periods (pc_session q) = periods (pc_session p)"
    using False periods_step [of bo "pc_session p" e "pc_session q"] by (auto simp: session_exec_step)
  ultimately show ?thesis using that(2) by blast
qed

lemma paced_step:
  assumes "paced_inv d seed bo p" "paced_next d bo p q"
  shows "paced_inv d seed bo q"
proof -
  obtain e where "paced_exec d bo p e = Some q" using assms(2) by (auto simp: paced_next_def)
  then show ?thesis
  proof (cases rule: paced_exec_cases)
    case (drawn now ts)
    with assms(1) session_reachable_exec [OF _ drawn(3)] periods_restart [OF drawn(1,3)] show ?thesis
      by (simp add: paced_inv_def next_period_def Let_def split_beta)
  next
    case other
    with assms(1) session_reachable_exec [OF _ other(1)] show ?thesis by (simp add: paced_inv_def Let_def split_beta)
  qed
qed

interpretation pacing: inductive_invariant "paced_init seed" "paced_next d bo" "paced_inv d seed bo" for d seed bo
proof unfold_locales
  show "paced_inv d seed bo p" if "paced_init seed p" for p :: "('b, 'a) paced"
    using that by (simp add: paced_init_def paced_inv_def session_reachable_create periods_def) (simp add: Session_create_def)
qed (rule paced_step)

section \<open>Property\<close>

text \<open>C17. The read timer's periods: whatever happens to a session, the periods it has asked for are
  the numbers its generator has drawn so far, one for each and in order, truncated; and while no number
  is more than three deviations from the mean, every period is between 83 and 582 milliseconds, so
  that a ping is due before \<open>MaxTimeOut\<close>.\<close>

theorem ping_periods:
  assumes "reach (paced_init seed) (paced_next distribution bo) p"
  shows "\<exists>numbers. fst (draws distribution (length numbers) (session_generator seed)) = numbers \<and>
    periods (pc_session p) = map truncated numbers \<and>
    ((\<forall>x\<in>set numbers. \<bar>x - 333\<bar> \<le> 3 * 83.25) \<longrightarrow>
      (\<forall>period\<in>set (periods (pc_session p)). 83 \<le> period \<and> period \<le> 582 \<and> period < MaxTimeOut))"
proof -
  let ?xs = "fst (draws distribution (length (periods (pc_session p))) (session_generator seed))"
  have "periods (pc_session p) = map truncated ?xs"
    using pacing.reachable_inv [OF assms] by (simp add: paced_inv_def split_beta)
  moreover from this have image: "set (periods (pc_session p)) = truncated ` set ?xs" by (metis list.set_map)
  have "83 \<le> truncated x \<and> truncated x \<le> 582 \<and> truncated x < MaxTimeOut" if "\<bar>x - 333\<bar> \<le> 3 * 83.25" for x
    using period_bounds [of x] that by (simp add: PingTimeOut_def MaxTimeOut_def)
  then have "(\<forall>x\<in>set ?xs. \<bar>x - 333\<bar> \<le> 3 * 83.25) \<longrightarrow>
      (\<forall>period\<in>set (periods (pc_session p)). 83 \<le> period \<and> period \<le> 582 \<and> period < MaxTimeOut)"
    unfolding image by blast
  moreover have "fst (draws distribution (length ?xs) (session_generator seed)) = ?xs" by simp
  ultimately show ?thesis by blast
qed

definition alternating :: "real \<Rightarrow> real \<Rightarrow> nat \<Rightarrow> real \<times> nat" where
  "alternating mean sigma e = (if even e then mean + sigma else mean - 2 * sigma, Suc e)"

lemma paced_run:
  "\<exists>p :: (nat, nat) paced. run (paced_exec alternating LittleEndian)
      \<lparr>pc_session = Session_create, pc_generator = session_generator 0\<rparr>
      (handshake_events ServerSide @ [TimerStrand 5 0, TimerStrand 5 0, TimerDone None, TimerStrand 6 0, TimerStrand 7 0]) = Some p \<and>
    periods (pc_session p) = [416, 166]"
  by (simp add: run_simps next_period_def RandomNumberGenerator_next_def alternating_def session_generator_def
      RandomNumberGenerator_create_def PingTimeOut_def MaxTimeOut_def elapsed_ms_def truncated_def periods_def)

theorem ping_periods_witness:
  "\<exists>p :: (nat, nat) paced. reach (paced_init 0) (paced_next alternating LittleEndian) p \<and>
     periods (pc_session p) = [416, 166] \<and>
     fst (draws alternating 2 (session_generator 0)) = [416.25, 166.5] \<and>
     (\<forall>period\<in>set (periods (pc_session p)). 83 \<le> period \<and> period \<le> 582 \<and> period < MaxTimeOut)"
proof -
  obtain p :: "(nat, nat) paced" where p: "run (paced_exec alternating LittleEndian)
      \<lparr>pc_session = Session_create, pc_generator = session_generator 0\<rparr>
      (handshake_events ServerSide @ [TimerStrand 5 0, TimerStrand 5 0, TimerDone None, TimerStrand 6 0, TimerStrand 7 0]) = Some p"
    "periods (pc_session p) = [416, 166]" using paced_run by blast
  have r: "reach (paced_init 0) (paced_next alternating LittleEndian) p"
    by (rule run_invariant [OF p(1)])
      (auto simp: paced_next_def paced_init_def intro: reach.reach_init reach.reach_step)
  have d: "fst (draws alternating 2 (session_generator 0)) = [416.25, 166.5]"
    by (simp add: numeral_2_eq_2 RandomNumberGenerator_next_def alternating_def session_generator_def
        RandomNumberGenerator_create_def PingTimeOut_def)
  from ping_periods [OF r] obtain numbers where n:
    "fst (draws alternating (length numbers) (session_generator 0)) = numbers"
    "periods (pc_session p) = map truncated numbers"
    "(\<forall>x\<in>set numbers. \<bar>x - 333\<bar> \<le> 3 * 83.25) \<longrightarrow>
      (\<forall>period\<in>set (periods (pc_session p)). 83 \<le> period \<and> period \<le> 582 \<and> period < MaxTimeOut)" by blast
  have "length numbers = 2" using arg_cong [where f = length, OF n(2)] p(2) by simp
  with n(1) d have "numbers = [416.25, 166.5]" by simp
  with n(3) have "\<forall>period\<in>set (periods (pc_session p)). 83 \<le> period \<and> period \<le> 582 \<and> period < MaxTimeOut" by simp
  with r p(2) d show ?thesis by blast
qed

end
