(* ===== verification/TornFrames.thy ===== *)
theory TornFrames
  imports Connections
begin






section \<open>Property\<close>




end
