(* ===== verification/Conversations.thy ===== *)
theory Conversations
  imports EndpointCalls Clients Programs Servers
begin

text \<open>
  A request and the server's session that answers it, across the connection between them: the
  composition of \<open>Clients\<close> (one \<open>Client::request\<close> with its session and its timer), \<open>Connections\<close> (two
  sessions and the byte streams between them) and the session that \<open>Server::accept\<close> makes with the
  handler of \<open>server/main.cpp\<close>.  A step of the request is taken by the left session of the connection
  too; the server's session runs by itself, and \<open>Server::stop\<close> may drop it.
\<close>

section \<open>State\<close>

record conversation =
  cv_request :: request
  cv_conn :: "(client_effect, registration) connection"

definition client_endpoint :: "buffer \<Rightarrow> bool \<Rightarrow> client_effect endpoint" where
  "client_endpoint payload hasSuccess =
     endpoint_create (Some (openedHandle payload)) (Some closedHandle) (receivedHandle hasSuccess)"

definition server_endpoint :: "(bytes \<Rightarrow> bytes \<times> bytes) \<Rightarrow> (bytes \<Rightarrow> bytes) \<Rightarrow> registration endpoint" where
  "server_endpoint parse ser =
     endpoint_create (Some [CallExt JoinCall]) (Some [CallExt LeaveCall]) (onReceived parse ser)"

definition conversation_start :: "(bytes \<Rightarrow> bytes \<times> bytes) \<Rightarrow> (bytes \<Rightarrow> bytes) \<Rightarrow> buffer \<Rightarrow> bool \<Rightarrow> bool \<Rightarrow> conversation" where
  "conversation_start parse ser payload hasSuccess hasError =
     \<lparr>cv_request = the (Client_request None payload hasSuccess hasError),
      cv_conn = \<lparr>cn_left = client_endpoint payload hasSuccess, cn_right = server_endpoint parse ser,
        cn_out = link_create, cn_back = link_create\<rparr>\<rparr>"

section \<open>Events\<close>

text \<open>What an event of the request does to its session: a completed connection opens it, and every call
  of the timer's function cancels its operations.\<close>

fun client_steps :: "request \<Rightarrow> request_event \<Rightarrow> client_effect event list" where
  "client_steps r (RqConnected err opt) = [Open ClientSide opt]"
| "client_steps r (RqSession e) = [e]"
| "client_steps r (RqTimer e) = (case timer_exec (rq_timer r) e of
      None \<Rightarrow> []
    | Some t \<Rightarrow> replicate (length (tm_calls t) - length (tm_calls (rq_timer r))) CancelAll)"

text \<open>The server opens the session once, runs it, and may drop it.\<close>

fun server_event :: "registration event \<Rightarrow> bool" where
  "server_event (Open ht opt) \<longleftrightarrow> ht = ServerSide"
| "server_event Drop \<longleftrightarrow> True"
| "server_event e \<longleftrightarrow> internal e"

datatype conversation_event =
    OfClient request_event | OfServer "registration event" | ToServer nat | ToClient nat

fun conversation_exec :: "byte_order \<Rightarrow> conversation \<Rightarrow> conversation_event \<Rightarrow> conversation option" where
  "conversation_exec bo v (OfClient e) = (case request_exec bo (cv_request v) e of
      None \<Rightarrow> None
    | Some r \<Rightarrow> map_option (\<lambda>c. \<lparr>cv_request = r, cv_conn = c\<rparr>)
        (run (connection_exec bo) (cv_conn v) (map AtLeft (client_steps (cv_request v) e))))"
| "conversation_exec bo v (OfServer e) = (if server_event e
     then map_option (\<lambda>c. v\<lparr>cv_conn := c\<rparr>) (connection_exec bo (cv_conn v) (AtRight e)) else None)"
| "conversation_exec bo v (ToServer k) = map_option (\<lambda>c. v\<lparr>cv_conn := c\<rparr>) (connection_exec bo (cv_conn v) (SendOut k))"
| "conversation_exec bo v (ToClient k) = map_option (\<lambda>c. v\<lparr>cv_conn := c\<rparr>) (connection_exec bo (cv_conn v) (SendBack k))"

text \<open>The payloads of both sides fit into a frame: the request does, and so does the answer to any
  request that does.\<close>

definition fitting :: "(bytes \<Rightarrow> bytes \<times> bytes) \<Rightarrow> (bytes \<Rightarrow> bytes) \<Rightarrow> buffer \<Rightarrow> bool" where
  "fitting parse ser payload \<longleftrightarrow> sendable_buffer payload \<and>
     (\<forall>bs. length bs < 2 ^ 32 \<longrightarrow> length (ser (answer_id (parse bs))) < 2 ^ 32)"

definition conversation_init :: "(bytes \<Rightarrow> bytes \<times> bytes) \<Rightarrow> (bytes \<Rightarrow> bytes) \<Rightarrow> buffer \<Rightarrow> bool \<Rightarrow> bool \<Rightarrow> conversation \<Rightarrow> bool" where
  "conversation_init parse ser payload hs he v \<longleftrightarrow>
     fitting parse ser payload \<and> v = conversation_start parse ser payload hs he"

definition conversation_next :: "byte_order \<Rightarrow> conversation \<Rightarrow> conversation \<Rightarrow> bool" where
  "conversation_next bo v w \<longleftrightarrow> (\<exists>e. conversation_exec bo v e = Some w)"

section \<open>The two ends\<close>

definition answer_buffer :: "(bytes \<Rightarrow> bytes \<times> bytes) \<Rightarrow> (bytes \<Rightarrow> bytes) \<Rightarrow> buffer \<Rightarrow> buffer" where
  "answer_buffer parse ser payload = (let response = ser (answer_id (parse (Buffer_view payload)))
     in Buffer_write response (Buffer_create (length response)))"

text \<open>The client's session sends its payload once, after its handshake.\<close>

definition client_ok :: "buffer \<Rightarrow> bool \<Rightarrow> client_effect endpoint \<Rightarrow> bool" where
  "client_ok payload hs p \<longleftrightarrow> (let s = ep_session p in
     serves (Some (openedHandle payload)) (Some closedHandle) (receivedHandle hs) s \<and>
     (\<exists>n. wrote_given s (replicate n payload) \<and> n + lf_shakes (session_life s) \<le> lf_opens (session_life s)) \<and>
     extCalls s = concat (map (\<lambda>q. exts (receivedHandle hs q)) (ep_got p)))"

text \<open>The server's session sends one answer for each payload it got.\<close>

definition server_ok :: "(bytes \<Rightarrow> bytes \<times> bytes) \<Rightarrow> (bytes \<Rightarrow> bytes) \<Rightarrow> registration endpoint \<Rightarrow> bool" where
  "server_ok parse ser p \<longleftrightarrow>
     serves (Some [CallExt JoinCall]) (Some [CallExt LeaveCall]) (onReceived parse ser) (ep_session p) \<and>
     wrote_given (ep_session p) (map (answer_buffer parse ser) (ep_got p))"

lemma sends_client [simp]:
  "sends (receivedHandle hs q) = []" "handler_sends (Some closedHandle) = []"
  "handler_sends (Some (openedHandle payload)) = [payload]"
  "handler_exts (Some closedHandle) = []" "handler_exts (Some (openedHandle payload)) = []"
  by (simp_all add: receivedHandle_def closedHandle_def openedHandle_def handler_sends_def handler_exts_def)

lemma sends_server [simp]: "sends (onReceived parse ser q) = [answer_buffer parse ser q]"
  by (simp add: onReceived_def answer_buffer_def Let_def)

lemma concat_singletons: "concat (map (\<lambda>q. [f q]) qs) = map f qs"
  by (induction qs) simp_all

text \<open>A handshake that is handled is one less under way.\<close>

lemma shakes_step:
  assumes "session_step bo s e t" "n + lf_shakes (session_life s) \<le> lf_opens (session_life s)"
  shows "n + of_bool (e = SocketStrand \<and> (\<exists>ts. socketStrand s = OnHandshake None # ts)) +
    lf_shakes (session_life t) \<le> lf_opens (session_life t)"
proof (cases "e = SocketStrand")
  case True
  with assms(1) obtain k ts where k: "socketStrand s = k # ts" "t = run_socket_task k (s\<lparr>socketStrand := ts\<rparr>)"
    by (auto simp: session_step_Socket)
  let ?u = "s\<lparr>socketStrand := ts\<rparr>"
  have "lf_opens (session_life t) = lf_opens (session_life s)"
    "lf_shakes (session_life t) + task_shakes k = lf_shakes (session_life s) + of_bool (\<exists>ht. k = RunAsyncHandshake ht)"
    using life_task_opens [of k ?u] life_task_shakes [of k ?u] life_pop [OF k(1)] by (simp_all add: k(2))
  with assms(2) k True show ?thesis by (cases k) auto
next
  case False
  from assms(1) show ?thesis
  proof (cases rule: life_step_cases)
    case (opened ht opt)
    then show ?thesis using life_open [OF opened(2)] assms(2) by auto
  qed (use False assms(2) in simp_all)
qed

lemma client_ok_step:
  assumes ok: "client_ok payload hs p" and ex: "endpoint_exec bo p e = Some q" and ns: "\<forall>b. e \<noteq> Send b"
  shows "client_ok payload hs q"
proof -
  let ?s = "ep_session p" and ?t = "ep_session q"
  note D = endpoint_execD [OF ex]
  obtain n where n: "wrote_given ?s (replicate n payload)" "n + lf_shakes (session_life ?s) \<le> lf_opens (session_life ?s)"
    and sv: "serves (Some (openedHandle payload)) (Some closedHandle) (receivedHandle hs) ?s"
    and ec: "extCalls ?s = concat (map (\<lambda>q. exts (receivedHandle hs q)) (ep_got p))"
    using ok by (auto simp: client_ok_def Let_def)
  let ?k = "of_bool (e = SocketStrand \<and> (\<exists>ts. socketStrand ?s = OnHandshake None # ts)) :: nat"
  have "given ?s e = replicate ?k payload"
    using serves_opening [OF sv _ _ ns] by (auto split: event.split list.split socket_task.split option.split)
  with wrote_given_step [OF n(1) D(2)] have "wrote_given ?t (replicate (n + ?k) payload)"
    by (simp add: replicate_add)
  moreover have "n + ?k + lf_shakes (session_life ?t) \<le> lf_opens (session_life ?t)"
    by (rule shakes_step [OF D(2) n(2)])
  moreover have "extCalls ?t = concat (map (\<lambda>q. exts (receivedHandle hs q)) (ep_got q))"
    using serves_step(2) [OF sv D(2,1)] serves_external [OF sv, of e] ec D(4) by simp
  ultimately show ?thesis using serves_step(1) [OF sv D(2,1)] unfolding client_ok_def Let_def by blast
qed

lemma server_ok_step:
  assumes ok: "server_ok parse ser p" and ex: "endpoint_exec bo p e = Some q" and ns: "\<forall>b. e \<noteq> Send b"
  shows "server_ok parse ser q"
proof -
  note D = endpoint_execD [OF ex]
  have sv: "serves (Some [CallExt JoinCall]) (Some [CallExt LeaveCall]) (onReceived parse ser) (ep_session p)"
    using ok by (simp add: server_ok_def)
  have "given (ep_session p) e = map (answer_buffer parse ser) (handed (ep_session p) e)"
    using serves_given [OF sv _ _ ns] by (simp add: handler_sends_def concat_singletons)
  with wrote_given_step [OF _ D(2), of "map (answer_buffer parse ser) (ep_got p)"] ok D(4)
    serves_step(1) [OF sv D(2,1)] show ?thesis
    by (simp add: server_ok_def)
qed

section \<open>The connection\<close>

definition conversing :: "(bytes \<Rightarrow> bytes \<times> bytes) \<Rightarrow> (bytes \<Rightarrow> bytes) \<Rightarrow> buffer \<Rightarrow> bool \<Rightarrow> byte_order \<Rightarrow>
    (client_effect, registration) connection \<Rightarrow> bool" where
  "conversing parse ser payload hs bo c \<longleftrightarrow> connection_ok bo c \<and> client_ok payload hs (cn_left c) \<and>
     server_ok parse ser (cn_right c)"

fun spoken :: "('x, 'y) connection_event \<Rightarrow> bool" where
  "spoken (AtLeft e) \<longleftrightarrow> (\<forall>b. e \<noteq> Send b)"
| "spoken (AtRight e) \<longleftrightarrow> (\<forall>b. e \<noteq> Send b)"
| "spoken _ \<longleftrightarrow> True"

lemma peer_execD: "peer_exec bo p out inn e = Some (q, out', inn') \<Longrightarrow> endpoint_exec bo p e = Some q"
  by (auto simp: peer_exec_def Let_def split: if_splits option.splits)

lemma spoken_typed: "connection_exec bo c e = Some d \<Longrightarrow> spoken e \<Longrightarrow> connection_typed e"
proof (cases e)
  case (AtLeft e')
  assume "connection_exec bo c e = Some d" "spoken e"
  with AtLeft show ?thesis by (cases e') (auto simp: peer_exec_def endpoint_exec_def Let_def split: if_splits)
next
  case (AtRight e')
  assume "connection_exec bo c e = Some d" "spoken e"
  with AtRight show ?thesis by (cases e') (auto simp: peer_exec_def endpoint_exec_def Let_def split: if_splits)
qed simp_all

lemma conversing_step:
  assumes "conversing parse ser payload hs bo c" "connection_exec bo c e = Some d" "spoken e"
  shows "conversing parse ser payload hs bo d"
proof -
  have "connection_next bo c d" using assms(2) spoken_typed [OF assms(2,3)] by (auto simp: connection_next_def)
  then have "connection_ok bo d" using connection.inv_next assms(1) by (auto simp: conversing_def)
  with assms show ?thesis
    by (cases e) (auto simp: conversing_def split: option.splits if_splits dest!: peer_execD
      intro: client_ok_step server_ok_step)
qed

lemma client_ok_create: "client_ok payload hs (client_endpoint payload hs)"
proof -
  let ?s = "ep_session (client_endpoint payload hs)"
  have "wrote_given ?s (replicate 0 payload)" "lf_shakes (session_life ?s) = 0" "extCalls ?s = []"
    "ep_got (client_endpoint payload hs) = []"
    by (simp_all add: client_endpoint_def endpoint_create_def wrote_given_create session_life_def)
      (simp_all add: configure_def Session_create_def)
  then show ?thesis unfolding client_ok_def Let_def
    by (intro conjI exI [of _ 0]) (simp_all add: client_endpoint_def serves_create)
qed

lemma server_ok_create: "server_ok parse ser (server_endpoint parse ser)"
  by (simp add: server_ok_def server_endpoint_def serves_create) (simp add: endpoint_create_def wrote_given_create)

lemma typed_endpoint_create:
  "handler_typed oh \<Longrightarrow> handler_typed ch \<Longrightarrow> receiver_typed h \<Longrightarrow> typed_endpoint (endpoint_create oh ch h)"
  unfolding typed_endpoint_def by blast

lemma conversing_start:
  assumes "fitting parse ser payload"
  shows "conversing parse ser payload hs bo (cv_conn (conversation_start parse ser payload hs he))"
proof -
  have "receiver_typed (onReceived parse ser)"
    using assms by (auto simp: receiver_typed_def calls_typed_def onReceived_def sendable_buffer_def fitting_def
        length_Buffer_view Let_def)
  then have "typed_endpoint (server_endpoint parse ser)"
    unfolding server_endpoint_def by (intro typed_endpoint_create) (simp_all add: handler_typed_def calls_typed_def)
  moreover have "typed_endpoint (client_endpoint payload hs)"
    unfolding client_endpoint_def
    by (intro typed_endpoint_create) (use assms in \<open>auto simp: fitting_def receiver_typed_def handler_typed_def
        calls_typed_def receivedHandle_def openedHandle_def closedHandle_def\<close>)
  ultimately have "connection_init (cv_conn (conversation_start parse ser payload hs he))"
    by (simp add: connection_init_def conversation_start_def)
  from connection.inv_start [OF this] show ?thesis
    by (simp add: conversing_def conversation_start_def client_ok_create server_ok_create)
qed

section \<open>The request's part\<close>

text \<open>The request's session is the left session of the connection.\<close>

lemma cancel_run: "run (session_exec bo) s (replicate n CancelAll) = Some ((cancelAllPendingOperations ^^ n) s)"
  by (induction n arbitrary: s) (simp_all add: funpow_swap1)

lemma timeouts_session:
  "rq_session (fold (\<lambda>_. handleTimeOut) us r) = (cancelAllPendingOperations ^^ length us) (rq_session r)"
  by (induction us arbitrary: r) (simp_all add: handleTimeOut_def funpow_swap1 Let_def)

definition successes :: "report list \<Rightarrow> buffer list" where
  "successes rs = concat (map (\<lambda>r. case r of OnSuccess p \<Rightarrow> [p] | OnError \<Rightarrow> []) rs)"

definition success_calls :: "client_effect list \<Rightarrow> buffer list" where
  "success_calls es = concat (map (\<lambda>e. case e of Success p \<Rightarrow> [p] | StopTimer \<Rightarrow> []) es)"

lemma effects_session:
  "rq_session (fold client_effect_run es r) = rq_session r"
  "successes (rq_reports (fold client_effect_run es r)) = successes (rq_reports r) @ success_calls es"
proof (induction es arbitrary: r)
  case (Cons e es)
  case 1
  with Cons(1) show ?case by (cases e) simp_all
  case 2
  with Cons(2) show ?case by (cases e) (simp_all add: success_calls_def successes_def)
qed (simp_all add: success_calls_def)

lemma timeouts_successes: "successes (rq_reports (fold (\<lambda>_. handleTimeOut) us r)) = successes (rq_reports r)"
  by (induction us arbitrary: r) (simp_all add: handleTimeOut_def successes_def Let_def)

lemma request_session_step:
  assumes "request_exec bo r e = Some r'"
  shows "run (session_exec bo) (rq_session r) (client_steps r e) = Some (rq_session r')"
proof (cases e)
  case (RqConnected err opt)
  with assms show ?thesis by (auto simp: handleConnect_def Let_def split: if_splits sum.splits)
next
  case (RqSession e')
  with assms show ?thesis by (auto simp: effects_session split: if_splits option.splits)
next
  case (RqTimer e')
  with assms show ?thesis by (auto simp: cancel_run timeouts_session split: if_splits option.splits)
qed

lemma cancels_calls: "extCalls ((cancelAllPendingOperations ^^ n) s) = extCalls s"
  by (induction n) (simp_all add: cancelAllPendingOperations_def post_socket_def)

lemma request_successes_step:
  assumes "request_exec bo r e = Some r'" "successes (rq_reports r) = success_calls (extCalls (rq_session r))"
  shows "successes (rq_reports r') = success_calls (extCalls (rq_session r'))"
proof (cases e)
  case (RqConnected err opt)
  have "extCalls t = extCalls s" if "open_session ht opt s = Inr t" for ht s and t :: "client_effect session"
    using boundary_open [OF that] by (simp add: boundary_def)
  with assms RqConnected show ?thesis by (auto simp: handleConnect_def Let_def split: if_splits sum.splits)
next
  case (RqSession e')
  then obtain s where s: "internal e'" "session_step bo (rq_session r) e' s"
    "r' = fold client_effect_run (drop (length (extCalls (rq_session r))) (extCalls s)) (r\<lparr>rq_session := s\<rparr>)"
    using assms(1) by (auto simp: session_exec_step split: if_splits option.splits)
  have "extCalls s = extCalls (rq_session r) @ external (rq_session r) e'"
    using settled_session_step [OF s(2)] s(1) by (cases e') (simp_all add: settled_step_def)
  with s(3) assms(2) show ?thesis by (simp add: effects_session success_calls_def)
next
  case (RqTimer e')
  with assms show ?thesis
    by (auto simp: timeouts_successes timeouts_session cancels_calls split: if_splits option.splits)
qed

lemma left_run:
  assumes "run (connection_exec bo) c (map AtLeft es) = Some d"
  shows "run (session_exec bo) (ep_session (cn_left c)) es = Some (ep_session (cn_left d))"
  using assms
proof (induction es arbitrary: c)
  case (Cons e es)
  then obtain b where b: "connection_exec bo c (AtLeft e) = Some b" "run (connection_exec bo) b (map AtLeft es) = Some d"
    by (auto split: option.splits)
  then have "session_exec bo (ep_session (cn_left c)) e = Some (ep_session (cn_left b))"
    by (auto simp: endpoint_exec_def dest!: peer_execD split: option.splits if_splits)
  with Cons.IH [OF b(2)] show ?case by simp
qed simp

section \<open>The invariant\<close>

definition conversation_inv :: "(bytes \<Rightarrow> bytes \<times> bytes) \<Rightarrow> (bytes \<Rightarrow> bytes) \<Rightarrow> buffer \<Rightarrow> bool \<Rightarrow> byte_order \<Rightarrow> conversation \<Rightarrow> bool" where
  "conversation_inv parse ser payload hs bo v \<longleftrightarrow> conversing parse ser payload hs bo (cv_conn v) \<and>
     rq_session (cv_request v) = ep_session (cn_left (cv_conn v)) \<and>
     successes (rq_reports (cv_request v)) = success_calls (extCalls (rq_session (cv_request v)))"

lemma conversation_inv_start:
  assumes "fitting parse ser payload"
  shows "conversation_inv parse ser payload hs bo (conversation_start parse ser payload hs he)"
  using conversing_start [OF assms, of hs bo he]
  by (simp add: conversation_inv_def)
    (simp add: conversation_start_def client_endpoint_def endpoint_create_def Client_request_def successes_def
      success_calls_def configure_def Session_create_def)

lemma client_steps_spoken: "request_exec bo r e = Some r' \<Longrightarrow> \<forall>e'\<in>set (map AtLeft (client_steps r e)). spoken e'"
  by (cases e) (auto split: if_splits option.splits)

lemma conversation_inv_step:
  assumes inv: "conversation_inv parse ser payload hs bo v" and ex: "conversation_exec bo v e = Some w"
  shows "conversation_inv parse ser payload hs bo w"
proof (cases e)
  case (OfClient e')
  then obtain r c where r: "request_exec bo (cv_request v) e' = Some r"
    "run (connection_exec bo) (cv_conn v) (map AtLeft (client_steps (cv_request v) e')) = Some c"
    "w = \<lparr>cv_request = r, cv_conn = c\<rparr>"
    using ex by (auto split: option.splits)
  have "conversing parse ser payload hs bo c"
    using inv client_steps_spoken [OF r(1)]
    by (intro run_invariant [OF r(2), of "conversing parse ser payload hs bo"])
      (auto simp: conversation_inv_def intro: conversing_step)
  moreover have "rq_session r = ep_session (cn_left c)"
    using request_session_step [OF r(1)] left_run [OF r(2)] inv by (simp add: conversation_inv_def)
  ultimately show ?thesis using request_successes_step [OF r(1)] inv r(3) by (simp add: conversation_inv_def)
next
  case (OfServer e')
  then obtain c where c: "server_event e'" "connection_exec bo (cv_conn v) (AtRight e') = Some c" "w = v\<lparr>cv_conn := c\<rparr>"
    using ex by (auto split: if_splits)
  have "spoken (AtRight e' :: (client_effect, registration) connection_event)" using c(1) by auto
  from conversing_step [OF _ c(2) this] inv c(2,3) show ?thesis
    by (auto simp: conversation_inv_def split: option.splits)
next
  case (ToServer k)
  with ex inv conversing_step [where e = "SendOut k"] show ?thesis
    by (auto simp: conversation_inv_def split: if_splits)
next
  case (ToClient k)
  with ex inv conversing_step [where e = "SendBack k"] show ?thesis
    by (auto simp: conversation_inv_def split: if_splits)
qed

interpretation conversation:
  inductive_invariant "conversation_init parse ser payload hs he" "conversation_next bo"
    "conversation_inv parse ser payload hs bo"
  for parse ser payload hs he bo
  by unfold_locales (auto simp: conversation_init_def conversation_next_def
      intro: conversation_inv_start conversation_inv_step)

lemma success_calls_received:
  "success_calls (concat (map (\<lambda>q. exts (receivedHandle hs q)) ps)) = (if hs then ps else [])"
  by (induction ps) (simp_all add: success_calls_def receivedHandle_def)

lemma subseq_one: "subseq xs [a] \<Longrightarrow> xs = [] \<or> xs = [a]"
  by (cases xs) (auto split: if_splits)

section \<open>Properties\<close>

text \<open>C1. A request gets its own answer: in every interleaving of the request, its timer, the server's
  session and the bytes between them, as long as no frame has been torn, a request reports success at
  most once, and then with the serialised answer to the login and the password that it sent.\<close>

theorem request_gets_own_answer:
  assumes "reach (conversation_init parse ser payload hs he) (conversation_next bo) v"
    and "\<not> lk_torn (cn_out (cv_conn v))" "\<not> lk_torn (cn_back (cv_conn v))"
  shows "successes (rq_reports (cv_request v)) \<in>
    {[], [received_buffer (ser (answer_id (parse (Buffer_view payload))))]}"
proof -
  let ?c = "cv_conn v" and ?ans = "received_buffer (ser (answer_id (parse (Buffer_view payload))))"
  let ?seen = "map (\<lambda>p. received_buffer (Buffer_view p))"
  have inv: "conversation_inv parse ser payload hs bo v" by (rule conversation.reachable_inv [OF assms(1)])
  then have c: "connection_ok bo ?c" "client_ok payload hs (cn_left ?c)" "server_ok parse ser (cn_right ?c)"
    by (simp_all add: conversation_inv_def conversing_def)
  then obtain n where n: "wrote_given (ep_session (cn_left ?c)) (replicate n payload)" "n \<le> 1"
    by (force simp: client_ok_def connection_ok_def endpoint_ok_def reader_ok_def Let_def)
  have "subseq (ep_got (cn_right ?c)) (data_sent (ep_session (cn_left ?c)))"
    using c(1) assms(2) direction_delivers(2) by (auto simp: connection_ok_def)
  then have "subseq (ep_got (cn_right ?c)) (?seen (replicate n payload))"
    by (rule subseq_order.trans [OF _ wrote_given_sent [OF n(1)]])
  from subseq_map [OF this, of "\<lambda>p. received_buffer (Buffer_view (answer_buffer parse ser p))"]
  have "subseq (?seen (map (answer_buffer parse ser) (ep_got (cn_right ?c)))) (replicate n ?ans)"
    by (simp add: answer_buffer_def comp_def map_replicate_const Let_def)
  moreover have "wrote_given (ep_session (cn_right ?c)) (map (answer_buffer parse ser) (ep_got (cn_right ?c)))"
    using c(3) by (simp add: server_ok_def)
  note wrote_given_sent [OF this]
  moreover have "subseq (ep_got (cn_left ?c)) (data_sent (ep_session (cn_right ?c)))"
    using c(1) assms(3) direction_delivers(2) by (auto simp: connection_ok_def)
  ultimately have "subseq (ep_got (cn_left ?c)) (replicate n ?ans)"
    by (meson subseq_order.trans)
  moreover have "successes (rq_reports (cv_request v)) = (if hs then ep_got (cn_left ?c) else [])"
    using inv c(2) by (simp add: conversation_inv_def client_ok_def success_calls_received Let_def)
  ultimately show ?thesis using n(2) by (cases n) (auto dest: subseq_one)
qed

text \<open>A request without a login whose answer is one byte.\<close>

definition exchange_events :: "conversation_event list" where
  "exchange_events = map OfClient [RqConnected None None, RqSession SocketStrand, RqSession (Complete 0 None []),
       RqSession SocketStrand, RqSession SocketStrand] @ [ToServer 12] @
     map OfServer [Open ServerSide None, SocketStrand, Complete 0 None [], SocketStrand,
       Complete 0 None [0, 0, 0, 0, 0, 0, 0, 0, 0, 0, 1, 0], SocketStrand, ReadStrand, SocketStrand] @ [ToClient 13] @
     map OfClient [RqSession (Complete 0 None [0, 0, 0, 0, 0, 0, 1, 0, 0, 0, 1, 0]), RqSession SocketStrand,
       RqSession (Complete 1 None [42]), RqSession SocketStrand, RqSession ReadStrand]"

definition short_answer :: "bytes \<Rightarrow> bytes" where
  "short_answer bs = [42]"

lemmas conversation_eval = conversation_start_def client_endpoint_def server_endpoint_def exchange_events_def
  onReceived_def short_answer_def

lemma exchange_run:
  "\<exists>v. run (conversation_exec LittleEndian) (conversation_start (\<lambda>bs. (bs, [])) short_answer Buffer_default True True)
       exchange_events = Some v \<and>
     rq_reports (cv_request v) = [OnSuccess (received_buffer [42])] \<and>
     \<not> lk_torn (cn_out (cv_conn v)) \<and> \<not> lk_torn (cn_back (cv_conn v))"
  by (simp add: run_simps frame_eval conversation_eval)

lemma conversation_reachable_run:
  assumes "run (conversation_exec bo) (conversation_start parse ser payload hs he) es = Some v"
    and "fitting parse ser payload"
  shows "reach (conversation_init parse ser payload hs he) (conversation_next bo) v"
  using assms(1)
proof (rule run_invariant)
  show "reach (conversation_init parse ser payload hs he) (conversation_next bo)
      (conversation_start parse ser payload hs he)"
    using assms(2) by (intro reach.reach_init) (simp add: conversation_init_def)
qed (auto simp: conversation_next_def intro: reach.reach_step)

theorem request_gets_own_answer_witness:
  "\<exists>v. reach (conversation_init (\<lambda>bs. (bs, [])) short_answer Buffer_default True True) (conversation_next LittleEndian) v \<and>
     successes (rq_reports (cv_request v)) = [received_buffer [42]]"
proof -
  obtain v where v: "run (conversation_exec LittleEndian)
      (conversation_start (\<lambda>bs. (bs, [])) short_answer Buffer_default True True) exchange_events = Some v"
    "rq_reports (cv_request v) = [OnSuccess (received_buffer [42])]"
    "\<not> lk_torn (cn_out (cv_conn v))" "\<not> lk_torn (cn_back (cv_conn v))"
    using exchange_run by blast
  have "fitting (\<lambda>bs. (bs, [])) short_answer Buffer_default"
    by (simp add: fitting_def short_answer_def sendable_buffer_def well_sized_def buffer_defs)
  note r = conversation_reachable_run [OF v(1) this]
  have "successes (rq_reports (cv_request v)) \<noteq> []" by (simp add: v(2) successes_def)
  with request_gets_own_answer [OF r v(3,4)] r show ?thesis by (auto simp: short_answer_def)
qed

end
