(* ===== verification/Mains.thy ===== *)
theory Mains
  imports Programs Servers ThreadPools
begin

text \<open>
  The \<open>main\<close> functions of \<open>src/server/main.cpp\<close> and \<open>src/client/main.cpp\<close>: their arguments, their
  exit codes and the input loop of the client.  Strings of the command line and of the standard
  input are lists of characters; \<open>std::stoi\<close>, \<open>std::to_string\<close>, \<open>std::isspace\<close> (in the C locale) and
  the extraction of words from a stream are those of the standard library.  A program that does not
  return is \<open>None\<close>.
\<close>

section \<open>Numbers as text\<close>

definition isspace :: "char \<Rightarrow> bool" where
  "isspace c \<longleftrightarrow> of_char c = (32 :: nat) \<or> (9 \<le> (of_char c :: nat) \<and> (of_char c :: nat) \<le> 13)"

definition isdigit :: "char \<Rightarrow> bool" where
  "isdigit c \<longleftrightarrow> 48 \<le> (of_char c :: nat) \<and> (of_char c :: nat) \<le> 57"

definition digit_value :: "char \<Rightarrow> int" where
  "digit_value c = int (of_char c) - 48"

definition digit_char :: "nat \<Rightarrow> char" where
  "digit_char d = char_of (48 + d)"

datatype std_exception = InvalidArgument | OutOfRange

definition strtol_value :: "string \<Rightarrow> int" where
  "strtol_value ds = foldl (\<lambda>a c. 10 * a + digit_value c) 0 ds"

text \<open>\<open>std::stoi\<close>: white space, a sign, digits; what follows the digits is ignored.\<close>

definition stoi :: "string \<Rightarrow> std_exception + int" where
  "stoi str =
    (let cs = dropWhile isspace str;
         negative = (cs \<noteq> [] \<and> hd cs = CHR ''-'');
         ds = takeWhile isdigit (if cs \<noteq> [] \<and> (hd cs = CHR ''-'' \<or> hd cs = CHR ''+'') then tl cs else cs);
         n = (if negative then - strtol_value ds else strtol_value ds)
     in if ds = [] then Inl InvalidArgument
        else if n < - (2 ^ 31) \<or> 2 ^ 31 \<le> n then Inl OutOfRange
        else Inr n)"

fun nat_digits :: "nat \<Rightarrow> string" where
  "nat_digits n = (if n < 10 then [digit_char n] else nat_digits (n div 10) @ [digit_char (n mod 10)])"

declare nat_digits.simps [simp del]

text \<open>\<open>std::to_string\<close>.\<close>

definition to_string :: "int \<Rightarrow> string" where
  "to_string n = (if n < 0 then CHR ''-'' # nat_digits (nat (- n)) else nat_digits (nat n))"

lemma of_char_digit [simp]: "d < 10 \<Longrightarrow> of_char (digit_char d) = (48 + d :: nat)"
  by (simp add: digit_char_def)

lemma digit_char_props [simp]:
  "d < 10 \<Longrightarrow> isdigit (digit_char d)" "d < 10 \<Longrightarrow> \<not> isspace (digit_char d)"
  "d < 10 \<Longrightarrow> digit_value (digit_char d) = int d"
  by (simp_all add: isdigit_def isspace_def digit_value_def)

lemma isdigit_sign: "isdigit c \<Longrightarrow> c \<noteq> CHR ''-'' \<and> c \<noteq> CHR ''+'' \<and> \<not> isspace c"
  by (auto simp: isdigit_def isspace_def)

lemma nat_digits_all: "nat_digits n \<noteq> [] \<and> list_all isdigit (nat_digits n)"
proof (induction n rule: nat_digits.induct)
  case (1 n)
  show ?case
  proof (cases "n < 10")
    case True
    then show ?thesis by (simp add: nat_digits.simps [of n])
  next
    case False
    with 1 show ?thesis by (simp add: nat_digits.simps [of n])
  qed
qed

lemma strtol_nat_digits: "strtol_value (nat_digits n) = int n"
proof (induction n rule: nat_digits.induct)
  case (1 n)
  show ?case
  proof (cases "n < 10")
    case True
    then show ?thesis by (simp add: nat_digits.simps [of n] strtol_value_def)
  next
    case False
    with 1 have "strtol_value (nat_digits n) = 10 * int (n div 10) + int (n mod 10)"
      by (simp add: nat_digits.simps [of n] strtol_value_def)
    moreover have "10 * (n div 10) + n mod 10 = n" by simp
    ultimately show ?thesis by linarith
  qed
qed

lemma stoi_digits:
  assumes "ds \<noteq> []" "list_all isdigit ds" "\<not> isdigit c"
  shows "dropWhile isspace (ds @ r) = ds @ r" "takeWhile isdigit (ds @ c # r) = ds" "takeWhile isdigit ds = ds"
    "hd (ds @ r) \<noteq> CHR ''-''" "hd (ds @ r) \<noteq> CHR ''+''"
proof -
  obtain d es where ds: "ds = d # es" using assms(1) by (cases ds) auto
  with assms(2) isdigit_sign [of d]
  show "dropWhile isspace (ds @ r) = ds @ r" "hd (ds @ r) \<noteq> CHR ''-''" "hd (ds @ r) \<noteq> CHR ''+''" by auto
  show "takeWhile isdigit (ds @ c # r) = ds" "takeWhile isdigit ds = ds"
    using assms(2,3) by (simp_all add: list_all_iff takeWhile_append)
qed

text \<open>What \<open>to_string\<close> prints, \<open>stoi\<close> reads, whatever comes behind the number.\<close>

lemma stoi_to_string:
  assumes "- (2 ^ 31) \<le> n" "n < 2 ^ 31" "r = [] \<or> \<not> isdigit (hd r)"
  shows "stoi (to_string n @ r) = Inr n"
proof -
  let ?ds = "nat_digits (nat \<bar>n\<bar>)"
  have ds: "?ds \<noteq> []" "list_all isdigit ?ds" "strtol_value ?ds = \<bar>n\<bar>"
    using nat_digits_all [of "nat \<bar>n\<bar>"] strtol_nat_digits [of "nat \<bar>n\<bar>"] by simp_all
  have nd: "\<not> isdigit CHR '' ''" by (simp add: isdigit_def)
  have tw: "takeWhile isdigit (?ds @ r) = ?ds"
  proof (cases r)
    case Nil
    then show ?thesis using stoi_digits(3) [OF ds(1,2) nd] by simp
  next
    case (Cons c r')
    with assms(3) have "\<not> isdigit c" by simp
    from stoi_digits(2) [OF ds(1,2) this] Cons show ?thesis by simp
  qed
  show ?thesis
  proof (cases "n < 0")
    case True
    have "\<not> isspace CHR ''-''" by (simp add: isspace_def)
    with True tw ds assms(1,2) show ?thesis by (simp add: stoi_def to_string_def Let_def)
  next
    case False
    note S = stoi_digits(1,4,5) [OF ds(1,2) nd, of r]
    have t: "to_string n @ r = ?ds @ r" using False by (simp add: to_string_def)
    have "?ds @ r \<noteq> []" using ds(1) by simp
    with S tw ds assms(1,2) False show ?thesis unfolding t by (simp add: stoi_def Let_def)
  qed
qed

section \<open>The server\<close>

text \<open>The handler of the signals runs when a signal arrives and when the wait is cancelled; it looks
  at neither of its arguments, and ends the process.\<close>

definition signal_handler :: "error_code \<Rightarrow> int \<Rightarrow> int" where
  "signal_handler error signal_number = 0"

definition cpuCount :: nat where
  "cpuCount = 4"

definition main_pool :: thread_pool where
  "main_pool = setExceptionHandler (Some exceptionHandle) (ThreadPool_create cpuCount None)"

text \<open>The function given to the server makes a new \<open>BasicHandlerMapper\<close> for each session.\<close>

definition create_handler :: "(bytes \<Rightarrow> bytes \<times> bytes) \<Rightarrow> (bytes \<Rightarrow> bytes) \<Rightarrow> (nat \<Rightarrow> handler_mapper option) option" where
  "create_handler parse ser = Some (\<lambda>k. Some (\<lambda>payload.
     let request = parse (Buffer_view payload);
         response = ser (answer_id request);
         buffer = Buffer_create (length response)
     in [IfSend (Buffer_write response buffer)]))"

lemma create_handler_onReceived:
  "receive_handler_of (Server_create (create_handler parse ser)) = Some (onReceived parse ser)"
  by (simp add: receive_handler_of_def Server_create_def create_handler_def onReceived_def Let_def fun_eq_iff)

text \<open>\<open>start\<close> may throw; \<open>main\<close> then leaves its block, whose destructors cancel the wait for signals, and
  falls out of the handler of the exception.  Its result is ignored.  \<open>outs\<close> is what the calls of
  \<open>run()\<close> in the threads of the pool do.\<close>

definition server_main :: "(bytes \<Rightarrow> bytes \<times> bytes) \<Rightarrow> (bytes \<Rightarrow> bytes) \<Rightarrow> start_env \<Rightarrow>
    (nat \<Rightarrow> nat \<Rightarrow> run_outcome) \<Rightarrow> string list \<Rightarrow> int option \<times> server" where
  "server_main parse ser env outs argv =
    (let server = Server_create (create_handler parse ser)
     in if length argv < 3 then (Some 1, server)
        else (case stoi (argv ! 2) of
            Inl e \<Rightarrow> (Some 0, server)
          | Inr port \<Rightarrow> (case Server_start (argv ! 1) port env server of
              (Inl e, sv) \<Rightarrow> (Some (signal_handler (Some OperationAborted) 0), sv)
            | (Inr started, sv) \<Rightarrow> (map_option (\<lambda>_. 0) (ThreadPool_stop outs main_pool), sv))))"

section \<open>The client\<close>

text \<open>\<open>std::cin\<close>: what is left to read, and the fail bit.\<close>

record istream =
  is_chars :: string
  is_fail :: bool

text \<open>\<open>>>\<close> into an empty string: a stream that has failed is left alone; one with nothing but white
  space fails; otherwise the next word is taken.\<close>

definition read_word :: "istream \<Rightarrow> string \<times> istream" where
  "read_word s =
    (if is_fail s then ([], s)
     else let cs = dropWhile isspace (is_chars s)
          in if cs = [] then ([], s\<lparr>is_chars := [], is_fail := True\<rparr>)
             else (takeWhile (\<lambda>c. \<not> isspace c) cs, s\<lparr>is_chars := dropWhile (\<lambda>c. \<not> isspace c) cs\<rparr>))"

text \<open>One round of the loop: the login and the password are read into a new request, whether the
  stream has failed or not, and sent.\<close>

definition read_login :: "istream \<Rightarrow> (string \<times> string) \<times> istream" where
  "read_login s = (let (login, s1) = read_word s; (password, s2) = read_word s1 in ((login, password), s2))"

fun client_rounds :: "(bytes \<times> bytes \<Rightarrow> bytes) \<Rightarrow> nat \<Rightarrow> istream \<Rightarrow> buffer list" where
  "client_rounds ser_login 0 s = []"
| "client_rounds ser_login (Suc n) s = (let (login, s1) = read_login s
     in client_request ser_login (ascii (fst login), ascii (snd login)) # client_rounds ser_login n s1)"

text \<open>The loop never ends.\<close>

partial_function (option) client_loop :: "istream \<Rightarrow> int option" where
  "client_loop s = client_loop (snd (read_login s))"

definition client_main :: "istream \<Rightarrow> string list \<Rightarrow> int option" where
  "client_main cin argv =
    (if length argv < 4 then Some 1
     else (case stoi (argv ! 2) of
         Inl e \<Rightarrow> Some 0
       | Inr port \<Rightarrow> (case stoi (argv ! 3) of
           Inl e \<Rightarrow> Some 0
         | Inr rndDisconnectTime \<Rightarrow> client_loop cin)))"

lemmas main_ops [run_simps] = signal_handler_def cpuCount_def main_pool_def server_main_def read_word_def
  read_login_def client_main_def

lemma client_loop_None: "client_loop s = None"
proof -
  have "client_loop s \<noteq> Some n" for n
  proof
    assume "client_loop s = Some n"
    then show False
      by (rule client_loop.raw_induct [where P = "\<lambda>s n. False", rotated]) blast
  qed
  then show ?thesis by (cases "client_loop s") auto
qed

section \<open>The words of the input\<close>

text \<open>The words of a text, collected one character at a time, and their pairs.\<close>

fun words_after :: "string \<Rightarrow> string \<Rightarrow> string list" where
  "words_after w [] = (if w = [] then [] else [w])"
| "words_after w (c # cs) = (if isspace c then (if w = [] then words_after [] cs else w # words_after [] cs)
     else words_after (w @ [c]) cs)"

definition words :: "string \<Rightarrow> string list" where
  "words cs = words_after [] cs"

fun logins :: "string list \<Rightarrow> (string \<times> string) list" where
  "logins [] = []"
| "logins [w] = [(w, [])]"
| "logins (w # v # ws) = (w, v) # logins ws"

definition words_left :: "istream \<Rightarrow> string list" where
  "words_left s = (if is_fail s then [] else words (is_chars s))"

lemma words_skip: "words (dropWhile isspace cs) = words cs"
  by (induction cs) (simp_all add: words_def)

lemma words_after_word: "w \<noteq> [] \<Longrightarrow> words_after w cs =
    (w @ takeWhile (\<lambda>c. \<not> isspace c) cs) # words (dropWhile (\<lambda>c. \<not> isspace c) cs)"
proof (induction cs arbitrary: w)
  case (Cons c cs)
  then show ?case by (simp add: words_def)
qed (simp add: words_def)

lemma words_word: "cs \<noteq> [] \<Longrightarrow> \<not> isspace (hd cs) \<Longrightarrow> words cs =
    takeWhile (\<lambda>c. \<not> isspace c) cs # words (dropWhile (\<lambda>c. \<not> isspace c) cs)"
  by (cases cs) (simp_all add: words_def words_after_word)

lemma read_word_words:
  "(case words_left s of
      [] \<Rightarrow> fst (read_word s) = [] \<and> words_left (snd (read_word s)) = []
    | w # ws \<Rightarrow> fst (read_word s) = w \<and> words_left (snd (read_word s)) = ws)"
proof (cases "is_fail s \<or> dropWhile isspace (is_chars s) = []")
  case True
  have "words (is_chars s) = []" if "dropWhile isspace (is_chars s) = []"
    using words_skip [of "is_chars s"] unfolding that by (simp add: words_def)
  with True have "words_left s = []" by (auto simp: words_left_def)
  with True show ?thesis by (auto simp: read_word_def words_left_def)
next
  case False
  define cs where "cs = dropWhile isspace (is_chars s)"
  have cs: "cs \<noteq> []" "\<not> is_fail s" "\<not> isspace (hd cs)"
    using False hd_dropWhile [of isspace "is_chars s"] by (auto simp: cs_def)
  have "words_left s = words cs" using cs(2) by (simp only: words_left_def cs_def words_skip if_False)
  also have "\<dots> = takeWhile (\<lambda>c. \<not> isspace c) cs # words (dropWhile (\<lambda>c. \<not> isspace c) cs)"
    by (rule words_word [OF cs(1,3)])
  finally have w: "words_left s = takeWhile (\<lambda>c. \<not> isspace c) cs # words (dropWhile (\<lambda>c. \<not> isspace c) cs)" .
  have "read_word s = (takeWhile (\<lambda>c. \<not> isspace c) cs, s\<lparr>is_chars := dropWhile (\<lambda>c. \<not> isspace c) cs\<rparr>)"
    using cs(1,2) by (simp only: read_word_def cs_def [symmetric] Let_def if_False)
  with cs(2) show ?thesis unfolding w by (simp add: words_left_def)
qed

lemma read_login_words:
  "(case logins (words_left s) of
      [] \<Rightarrow> fst (read_login s) = ([], []) \<and> logins (words_left (snd (read_login s))) = []
    | l # ls \<Rightarrow> fst (read_login s) = l \<and> logins (words_left (snd (read_login s))) = ls)"
  using read_word_words [of s] read_word_words [of "snd (read_word s)"]
  by (auto simp: read_login_def split: list.splits prod.splits)

lemma client_rounds_words: "client_rounds ser_login n s = map (\<lambda>(l, p). client_request ser_login (ascii l, ascii p))
    (take n (logins (words_left s)) @ replicate (n - length (logins (words_left s))) ([], []))"
proof (induction n arbitrary: s)
  case (Suc n)
  from read_login_words [of s] Suc [of "snd (read_login s)"] show ?case
    by (cases "logins (words_left s)") (auto simp: split: prod.splits)
qed simp

section \<open>Properties\<close>

text \<open>C39. The client's input loop: in its rounds it sends one request for every pair of words of the
  standard input, login and password, in order, an odd last word with an empty password; after the
  end of the input it goes on for ever, sending requests with an empty login and an empty password.\<close>

theorem client_input_loop:
  "client_rounds ser_login n \<lparr>is_chars = input, is_fail = False\<rparr> =
     map (\<lambda>(l, p). client_request ser_login (ascii l, ascii p)) (take n (logins (words input)) @
       replicate (n - length (logins (words input))) ([], [])) \<and>
   (client_main \<lparr>is_chars = input, is_fail = False\<rparr> argv = None \<longleftrightarrow>
      4 \<le> length argv \<and> (\<exists>port. stoi (argv ! 2) = Inr port) \<and> (\<exists>time. stoi (argv ! 3) = Inr time))"
  by (auto simp: client_rounds_words words_left_def client_main_def client_loop_None split: sum.split)

text \<open>The outcomes of \<open>start\<close> where only \<open>bind\<close> may fail.\<close>

definition start_outcomes :: "error_code \<Rightarrow> start_env" where
  "start_outcomes bind = \<lparr>se_address = None, se_options = None, se_callback = None, se_chain = None,
     se_key = None, se_dh = None, se_open = None, se_bind = bind, se_listen = None\<rparr>"

lemma stop_returns: "ThreadPool_stop outs main_pool = None \<longleftrightarrow> \<not> (\<forall>k<4. \<exists>i. outs k i = Returned)"
  by (auto simp: ThreadPool_stop_def join_all_def main_pool_def setExceptionHandler_def ThreadPool_create_def
      cpuCount_def run_None list_all_iff Let_def)

lemma start_unparsable: "ip \<noteq> [] \<Longrightarrow> se_address env = Some e \<Longrightarrow> Server_start ip port env sv = (Inl e, sv)"
  by (simp add: Server_start_def)

lemma start_false_accepts:
  "fst (Server_start ip port env sv) = Inr False \<Longrightarrow> sv_accepts (snd (Server_start ip port env sv)) = sv_accepts sv"
  by (auto simp: Server_start_def Let_def split: if_splits option.splits)

lemma server_main_usage: "length argv < 3 \<Longrightarrow> server_main parse ser env outs argv = (Some 1, Server_create (create_handler parse ser))"
  and server_main_port: "\<not> length argv < 3 \<Longrightarrow> stoi (argv ! 2) = Inl e \<Longrightarrow>
    server_main parse ser env outs argv = (Some 0, Server_create (create_handler parse ser))"
  by (simp_all add: server_main_def Let_def)

lemma server_main_starts:
  assumes "\<not> length argv < 3" "stoi (argv ! 2) = Inr port"
  shows "fst (server_main parse ser env outs argv) = (case fst (Server_start (argv ! 1) port env (Server_create (create_handler parse ser))) of
      Inl e \<Rightarrow> Some 0 | Inr started \<Rightarrow> map_option (\<lambda>_. 0) (ThreadPool_stop outs main_pool))"
    and "snd (server_main parse ser env outs argv) = snd (Server_start (argv ! 1) port env (Server_create (create_handler parse ser)))"
  using assms by (simp_all add: server_main_def signal_handler_def Let_def split: sum.split prod.split)

text \<open>C38. The exit codes of the server: 1 exactly for missing arguments; 0 for a port that is no number,
  for an address that cannot be parsed and for every other exception of \<open>start\<close>.  If \<open>start\<close> returns,
  even with \<open>false\<close> because the port is taken, \<open>main\<close> returns, and then with 0, exactly if in each of the
  four threads some call of \<open>run()\<close> returns, which the pending wait for signals prevents; after \<open>false\<close>
  the server waits without having asked for a connection.\<close>

theorem server_main_exits:
  "(fst (server_main parse ser env outs argv) = Some 1 \<longleftrightarrow> length argv < 3) \<and>
   (fst (server_main parse ser env outs argv) \<in> {None, Some 0, Some 1}) \<and>
   (3 \<le> length argv \<and> stoi (argv ! 2) = Inl e \<longrightarrow> fst (server_main parse ser env outs argv) = Some 0) \<and>
   (3 \<le> length argv \<and> stoi (argv ! 2) = Inr port \<and> argv ! 1 \<noteq> [] \<and> se_address env \<noteq> None \<longrightarrow>
      fst (server_main parse ser env outs argv) = Some 0) \<and>
   (3 \<le> length argv \<and> stoi (argv ! 2) = Inr port \<and>
      fst (Server_start (argv ! 1) port env (Server_create (create_handler parse ser))) = Inl thrown \<longrightarrow>
      fst (server_main parse ser env outs argv) = Some 0) \<and>
   (3 \<le> length argv \<and> stoi (argv ! 2) = Inr port \<and>
      fst (Server_start (argv ! 1) port env (Server_create (create_handler parse ser))) = Inr started \<longrightarrow>
      fst (server_main parse ser env outs argv) = (if \<forall>k<4. \<exists>i. outs k i = Returned then Some 0 else None) \<and>
      (\<not> started \<longrightarrow> sv_accepts (snd (server_main parse ser env outs argv)) = []))"
proof (cases "length argv < 3")
  case True
  then show ?thesis by (simp add: server_main_usage)
next
  case args: False
  show ?thesis
  proof (cases "stoi (argv ! 2)")
    case (Inl x)
    with args show ?thesis by (simp add: server_main_port)
  next
    case (Inr p)
    let ?sv = "Server_create (create_handler parse ser)"
    note main = server_main_starts [OF args Inr, of parse ser env outs]
    have c: "sv_accepts ?sv = []" by (simp add: Server_create_def)
    have stop: "map_option (\<lambda>_. 0) (ThreadPool_stop outs main_pool) =
        (if \<forall>k<4. \<exists>i. outs k i = Returned then Some 0 else None)"
      using stop_returns [of outs] by (cases "ThreadPool_stop outs main_pool") auto
    show ?thesis
    proof (cases "fst (Server_start (argv ! 1) p env ?sv)")
      case (Inl x)
      with main args Inr show ?thesis by auto
    next
      case (Inr st)
      have "\<not> (argv ! 1 \<noteq> [] \<and> se_address env \<noteq> None)"
        using Inr start_unparsable [of "argv ! 1" env "the (se_address env)" p ?sv] by fastforce
      moreover have "\<not> st \<Longrightarrow> sv_accepts (snd (server_main parse ser env outs argv)) = []"
        using start_false_accepts [of "argv ! 1" p env ?sv] Inr main(2) c by simp
      ultimately show ?thesis using main(1) args \<open>stoi (argv ! 2) = Inr p\<close> Inr unfolding stop by auto
    qed
  qed
qed

theorem server_main_exits_witness:
  "fst (server_main (\<lambda>bs. (bs, [])) id (start_outcomes (Some (OtherError 98))) (\<lambda>k i. if k < 3 then Returned else RaisedOther)
     [''server'', ''127.0.0.1'', ''80'']) = None \<and>
   fst (server_main (\<lambda>bs. (bs, [])) id (start_outcomes (Some (OtherError 98))) (\<lambda>k i. Returned) [''server'', ''127.0.0.1'', ''80'']) = Some 0 \<and>
   fst (server_main (\<lambda>bs. (bs, [])) id (start_outcomes (Some (OtherError 98))) (\<lambda>k i. Returned) [''server'', ''127.0.0.1'', ''http'']) = Some 0 \<and>
   fst (server_main (\<lambda>bs. (bs, [])) id ((start_outcomes None)\<lparr>se_address := Some (OtherError 22)\<rparr>) (\<lambda>k i. RaisedOther)
     [''server'', ''localhost'', ''80'']) = Some 0"
proof -
  let ?env = "start_outcomes (Some (OtherError 98))"
  have "stoi ''80'' = Inr 80" "stoi ''http'' = Inl InvalidArgument"
    by (simp_all add: stoi_def isspace_def isdigit_def strtol_value_def digit_value_def)
  then have p: "stoi ([''server'', a, ''80''] ! 2) = Inr 80" "stoi ([''server'', a, ''http''] ! 2) = Inl InvalidArgument" for a
    by simp_all
  have s: "fst (Server_start ([''server'', ''127.0.0.1'', ''80''] ! 1) 80 ?env (Server_create (create_handler (\<lambda>bs. (bs, [])) id))) = Inr False"
    by (simp add: run_simps start_outcomes_def)
  have n: "\<not> (\<forall>k<4::nat. \<exists>i::nat. (if k < 3 then Returned else RaisedOther) = Returned)" "(3 :: nat) \<le> length [''server'', a, b]" for a b :: string
    by (auto intro!: exI [of _ "3 :: nat"])
  from server_main_exits [of "\<lambda>bs. (bs, [])" id ?env "\<lambda>k i. if k < 3 then Returned else RaisedOther" "[''server'', ''127.0.0.1'', ''80'']"] p(1) s n
  have 1: "fst (server_main (\<lambda>bs. (bs, [])) id ?env (\<lambda>k i. if k < 3 then Returned else RaisedOther) [''server'', ''127.0.0.1'', ''80'']) = None"
    by (metis (no_types, lifting))
  from server_main_exits [of "\<lambda>bs. (bs, [])" id ?env "\<lambda>k i. Returned" "[''server'', ''127.0.0.1'', ''80'']" _ 80 _ False] p(1) s n
  have 2: "fst (server_main (\<lambda>bs. (bs, [])) id ?env (\<lambda>k i. Returned) [''server'', ''127.0.0.1'', ''80'']) = Some 0" by simp
  from server_main_exits [of "\<lambda>bs. (bs, [])" id ?env "\<lambda>k i. Returned" "[''server'', ''127.0.0.1'', ''http'']" InvalidArgument] p(2) n
  have 3: "fst (server_main (\<lambda>bs. (bs, [])) id ?env (\<lambda>k i. Returned) [''server'', ''127.0.0.1'', ''http'']) = Some 0" by simp
  from server_main_exits [of "\<lambda>bs. (bs, [])" id "(start_outcomes None)\<lparr>se_address := Some (OtherError 22)\<rparr>" "\<lambda>k i. RaisedOther" "[''server'', ''localhost'', ''80'']" _ 80] p(1) n
  have 4: "fst (server_main (\<lambda>bs. (bs, [])) id ((start_outcomes None)\<lparr>se_address := Some (OtherError 22)\<rparr>) (\<lambda>k i. RaisedOther)
     [''server'', ''localhost'', ''80'']) = Some 0" by simp
  from 1 2 3 4 show ?thesis by simp
qed

text \<open>The port on the command line: every \<open>int\<close> printed in decimal is read back, and the server
  listens on it modulo \<open>2 ^ 16\<close>; no port number out of range is rejected.\<close>

lemma port_argument:
  assumes "- (2 ^ 31) \<le> n" "n < 2 ^ 31" "se_address env = None"
  shows "stoi (to_string n) = Inr n \<and>
    fst (sv_endpoint (snd (server_main parse ser env outs [prog, ip, to_string n]))) = ip \<and>
    int (unat (snd (sv_endpoint (snd (server_main parse ser env outs [prog, ip, to_string n]))))) = n mod 2 ^ 16"
proof -
  have st: "stoi (to_string n) = Inr n" using stoi_to_string [OF assms(1,2), of "[]"] by simp
  have "sv_endpoint (snd (Server_start ip n env (Server_create (create_handler parse ser)))) = (ip, word_of_int n)"
    using assms(3) by (auto simp: Server_start_def Server_accept_def Server_create_def tls_setup_def Let_def
        split: option.split)
  then have "sv_endpoint (snd (server_main parse ser env outs [prog, ip, to_string n])) = (ip, word_of_int n)"
    using server_main_starts(2) [of "[prog, ip, to_string n]" n parse ser env outs] st by simp
  with st show ?thesis by (simp add: uint_word_of_int flip: uint_nat)
qed

lemma port_argument_witness:
  "stoi (to_string 65616) = Inr 65616 \<and>
   snd (sv_endpoint (snd (server_main (\<lambda>bs. (bs, [])) id (start_outcomes None) (\<lambda>k i. Returned)
     [''server'', ''127.0.0.1'', to_string 65616]))) = 80"
proof -
  have "- (2 ^ 31) \<le> (65616 :: int)" "(65616 :: int) < 2 ^ 31" "se_address (start_outcomes None) = None"
    by (simp_all add: start_outcomes_def)
  from port_argument [OF this, of "\<lambda>bs. (bs, [])" id "\<lambda>k i. Returned" "''server''" "''127.0.0.1''"]
  have "stoi (to_string 65616) = Inr 65616"
    "int (unat (snd (sv_endpoint (snd (server_main (\<lambda>bs. (bs, [])) id (start_outcomes None) (\<lambda>k i. Returned)
      [''server'', ''127.0.0.1'', to_string 65616]))))) = 80" by simp_all
  then show ?thesis by (simp add: word_uint_eq_iff)
qed

end
