(* ===== verification/HTTPClients.thy ===== *)
theory HTTPClients
  imports HTTPLifecycle Programs
begin

text \<open>
  \<open>src/http_client/main.cpp\<close>: the program that resolves a name, opens one \<open>ClientHTTPSession\<close>, sends
  one request and prints what comes back.  Its session is reachable only through the handlers, so
  only its strands run and its operations complete; the program's own steps are the resolution of
  the name and the connection.  What the receive handler prints is recorded in the session's calls to
  the outside; \<open>ph_read\<close> is the history of the pieces its reads have taken from the stream.
\<close>

section \<open>State and handlers\<close>

datatype http_effect = Print bytes

definition crlf :: bytes where
  "crlf = [13, 10]"

definition http_request_text :: "bytes \<Rightarrow> bytes" where
  "http_request_text server = ascii ''GET /'' @ crlf @ ascii ''Host: '' @ server @ crlf @
     ascii ''Accept: */*'' @ crlf @ ascii ''Connection: close'' @ crlf @ crlf"

definition http_server_name :: bytes where
  "http_server_name = ascii ''www.google.com''"

definition http_openedHandle :: "bytes \<Rightarrow> http_effect http_call list" where
  "http_openedHandle server = [HCallSend (http_request_text server)]"

definition http_closedHandle :: "http_effect http_call list" where
  "http_closedHandle = []"

definition http_receivedHandle :: "http_effect http_receive_handler" where
  "http_receivedHandle message =
     HCallExt (Print message) # (if message = [] then [HCallDrop] else [])"

record http_program =
  ph_session :: "http_effect http_session"
  ph_connecting :: bool
  ph_read :: "bytes list"

text \<open>The handler of the resolver: an error is logged and nothing more happens.\<close>

definition http_resolved :: "error_code \<Rightarrow> http_program option" where
  "http_resolved error = (case error of
      Some e \<Rightarrow> None
    | None \<Rightarrow> Some \<lparr>ph_session = http_configure (Some (http_openedHandle http_server_name))
          (Some http_closedHandle) (Some http_receivedHandle) http_create,
        ph_connecting = True, ph_read = []\<rparr>)"

text \<open>The handler of the connection logs its error and opens the session in any case; \<open>open\<close> may
  throw, which ends the handler.\<close>

definition http_connected :: "error_code \<Rightarrow> error_code \<Rightarrow> http_program \<Rightarrow> http_program" where
  "http_connected error opt p = (case http_open opt (ph_session p) of
      Inl e \<Rightarrow> p
    | Inr s \<Rightarrow> p\<lparr>ph_session := s\<rparr>)"

text \<open>\<open>main\<close> itself: if nothing throws before it, the loop that never ends.\<close>

partial_function (option) http_spin :: "unit \<Rightarrow> int option" where
  "http_spin u = http_spin u"

definition http_main :: "bool \<Rightarrow> int option" where
  "http_main setup_throws = (if setup_throws then Some 0 else http_spin ())"

section \<open>Events\<close>

fun http_internal :: "'x http_event \<Rightarrow> bool" where
  "http_internal HSocketStrand = True"
| "http_internal HReadStrand = True"
| "http_internal (HComplete _ _ _) = True"
| "http_internal _ = False"

text \<open>The piece that a completed read has taken from the stream.\<close>

fun http_taken :: "'x http_session \<Rightarrow> 'x http_event \<Rightarrow> bytes list" where
  "http_taken s (HComplete i None bs) = (if i < length (hs_pendingOps s)
     then (case hs_pendingOps s ! i of HOpRead m \<Rightarrow> [take (length m) bs] | _ \<Rightarrow> []) else [])"
| "http_taken s _ = []"

datatype http_program_event = PhConnected error_code error_code | PhSession "http_effect http_event"

fun http_program_exec :: "http_program \<Rightarrow> http_program_event \<Rightarrow> http_program option" where
  "http_program_exec p (PhConnected error opt) = (if ph_connecting p
     then Some (http_connected error opt (p\<lparr>ph_connecting := False\<rparr>)) else None)"
| "http_program_exec p (PhSession e) = (if http_internal e
     then map_option (\<lambda>s. p\<lparr>ph_session := s, ph_read := ph_read p @ http_taken (ph_session p) e\<rparr>)
       (http_exec (ph_session p) e)
     else None)"

definition http_program_init :: "http_program \<Rightarrow> bool" where
  "http_program_init p \<longleftrightarrow> http_resolved None = Some p"

definition http_program_next :: "http_program \<Rightarrow> http_program \<Rightarrow> bool" where
  "http_program_next p q \<longleftrightarrow> (\<exists>e. http_program_exec p e = Some q)"

lemmas http_program_ops [run_simps] = http_openedHandle_def http_closedHandle_def http_receivedHandle_def
  http_resolved_def http_connected_def http_program_init_def

lemma http_main_spins: "http_main False = None"
proof -
  have "http_spin u \<noteq> Some n" for u n
  proof
    assume "http_spin u = Some n"
    then show False by (rule http_spin.raw_induct [where P = "\<lambda>u n. False", rotated]) blast
  qed
  then show ?thesis by (cases "http_spin ()") (auto simp: http_main_def)
qed

section \<open>What is printed\<close>

text \<open>The pieces on their way from the socket to the handler: printed, posted to the read strand, and
  read but not yet handled.\<close>

definition printed :: "http_effect http_session \<Rightarrow> bytes list" where
  "printed s = map (\<lambda>e. case e of Print m \<Rightarrow> m) (hs_extCalls s)"

fun chunk_of :: "http_task \<Rightarrow> bytes list" where
  "chunk_of (HOnRead m None n) = [vector_resize n m]"
| "chunk_of _ = []"

definition unhandled :: "'x http_session \<Rightarrow> bytes list" where
  "unhandled s = concat (map chunk_of (hs_socketStrand s))"

definition http_output :: "http_effect http_session \<Rightarrow> bytes list" where
  "http_output s = printed s @ map snd (hs_readStrand s)"

text \<open>A calm operation touches none of this and does not connect the session.\<close>

definition http_calm :: "http_effect http_session \<Rightarrow> http_effect http_session \<Rightarrow> bool" where
  "http_calm s t \<longleftrightarrow> hs_extCalls t = hs_extCalls s \<and> hs_readStrand t = hs_readStrand s \<and>
     unhandled t = unhandled s \<and> hs_openHandler t = hs_openHandler s \<and>
     hs_closeHandler t = hs_closeHandler s \<and> hs_receiveHandler t = hs_receiveHandler s \<and>
     (hs_isConnected t \<longrightarrow> hs_isConnected s)"

lemma http_calm_trans [trans]: "http_calm s t \<Longrightarrow> http_calm t u \<Longrightarrow> http_calm s u"
  by (simp add: http_calm_def)

lemma http_calm_frame [simp]:
  "http_calm s s" "http_calm s (t\<lparr>hs_writeQueue := q\<rparr>) = http_calm s t"
  "http_calm s (t\<lparr>hs_pendingOps := ops\<rparr>) = http_calm s t"
  "http_calm s (http_issue r t) = http_calm s t" "http_calm s (http_start_op op t) = http_calm s t"
  "chunk_of k = [] \<Longrightarrow> http_calm s (http_post k t) = http_calm s t"
  by (simp_all add: http_calm_def unhandled_def http_issue_def http_start_op_def http_post_def)

lemma http_calm_close: "http_calm s (http_close s)" "http_calm s (http_drop s)"
  by (simp_all add: http_drop_def http_close_def http_cancelAllPendingOperations_def Let_def)
    (simp_all add: http_calm_def unhandled_def http_post_def)

lemma http_calm_writes [simp]:
  "http_calm s (http_writeNext t) = http_calm s t" "http_calm s (http_send m t) = http_calm s t"
  "http_calm s (http_asyncWrite m t) = http_calm s t" "http_calm s (http_readNext t) = http_calm s t"
  "http_calm s (http_asyncHandshake t) = http_calm s t"
  by (simp_all add: http_writeNext_def http_send_def http_asyncWrite_def http_readNext_def
      http_asyncRead_def http_asyncHandshake_def Let_def split: list.split)

lemma http_calm_handleWrite: "http_calm s (http_handleWrite m err s)"
  using http_calm_trans [OF _ http_calm_close(1), of s "s\<lparr>hs_writeQueue := tl (hs_writeQueue s)\<rparr>"]
    http_calm_close(1) [of s] by (simp add: http_handleWrite_def Let_def)

definition program_handlers :: "http_effect http_session \<Rightarrow> bool" where
  "program_handlers s \<longleftrightarrow> hs_openHandler s = Some (http_openedHandle http_server_name) \<and>
     hs_closeHandler s = Some http_closedHandle \<and> hs_receiveHandler s = Some http_receivedHandle \<and>
     list_all (\<lambda>(h, m). h = http_receivedHandle) (hs_readStrand s)"

lemma handlers_calm: "program_handlers s \<Longrightarrow> http_calm s t \<Longrightarrow> program_handlers t"
  by (simp add: program_handlers_def http_calm_def)

lemma http_calm_task:
  assumes "program_handlers s" "\<forall>m err n. t \<noteq> HOnRead m err n"
  shows "http_calm s (http_run_task t s)"
proof (cases t)
  case HRunClose
  let ?s = "http_issue HSocketClose (http_issue HSocketShutdown (s\<lparr>hs_writeQueue := []\<rparr>))"
  have "hs_closeHandler ?s = Some []"
    using assms(1) by (simp add: program_handlers_def http_issue_def http_closedHandle_def)
  with HRunClose show ?thesis
    by (simp add: http_close_task_def http_run_handler_def http_run_calls_def Let_def)
next
  case (HOnHandshake err)
  have "hs_openHandler (http_readNext s) = Some [HCallSend (http_request_text http_server_name)]"
    using assms(1) by (simp add: program_handlers_def http_readNext_def http_asyncRead_def
        http_start_op_def http_issue_def http_openedHandle_def)
  with HOnHandshake show ?thesis
    by (simp add: http_handleHandshake_def http_run_handler_def http_run_calls_def http_calm_close Let_def)
qed (use assms(2) in \<open>simp_all add: http_calm_handleWrite\<close>)

section \<open>What is sent\<close>

fun htask_shake :: "http_task \<Rightarrow> nat" where
  "htask_shake HRunHandshake = 1"
| "htask_shake (HOnHandshake _) = 1"
| "htask_shake _ = 0"

fun hop_shake :: "http_op \<Rightarrow> nat" where
  "hop_shake HOpHandshake = 1"
| "hop_shake _ = 0"

record sending =
  sg_queue :: "bytes list"
  sg_posted :: "bytes list"
  sg_log :: "bytes list"
  sg_shakes :: nat
  sg_opens :: nat

definition sending_of :: "'x http_session \<Rightarrow> sending" where
  "sending_of s = \<lparr>sg_queue = hs_writeQueue s, sg_posted = concat (map htask_posted (hs_socketStrand s)),
     sg_log = concat (map hrequest_write (hs_issued s)),
     sg_shakes = sum_list (map htask_shake (hs_socketStrand s)) + sum_list (map hop_shake (hs_pendingOps s)),
     sg_opens = http_opens s\<rparr>"

lemma sending_frame [simp]:
  "sending_of (s\<lparr>hs_isConnected := b\<rparr>) = sending_of s" "sending_of (s\<lparr>hs_readStrand := rs\<rparr>) = sending_of s"
  "sending_of (s\<lparr>hs_extCalls := xs\<rparr>) = sending_of s"
  "sending_of (s\<lparr>hs_writeQueue := q\<rparr>) = (sending_of s)\<lparr>sg_queue := q\<rparr>"
  "htask_posted t = [] \<Longrightarrow> htask_shake t = 0 \<Longrightarrow> sending_of (http_post t s) = sending_of s"
  "hop_shake op = 0 \<Longrightarrow> sending_of (http_start_op op s) = sending_of s"
  "hrequest_write r = [] \<Longrightarrow> r \<noteq> HSetNoDelay \<Longrightarrow> sending_of (http_issue r s) = sending_of s"
  by (simp_all add: sending_of_def http_opens_def http_post_def http_start_op_def http_issue_def)

lemma sending_quiet [simp]:
  "sending_of (http_close s) = sending_of s" "sending_of (http_drop s) = sending_of s"
  "sending_of (http_readNext s) = sending_of s" "sending_of (http_handleMessage m s) = sending_of s"
  "sending_of (http_handleRead m err n s) = sending_of s"
  by (simp_all add: http_close_def http_drop_def http_cancelAllPendingOperations_def http_readNext_def
      http_asyncRead_def http_handleMessage_def http_handleRead_def Let_def split: option.split)

text \<open>Nothing but the request, at most once in the queue and at most once posted or issued, and not
  before the handshake.\<close>

definition sending_ok :: "http_effect http_session \<Rightarrow> bool" where
  "sending_ok s \<longleftrightarrow> (let g = sending_of s; k = sg_shakes g + (1 - sg_opens g) in
     set (sg_queue g) \<union> set (sg_posted g) \<union> set (sg_log g) \<subseteq> {http_request_text http_server_name} \<and>
     length (sg_queue g) + k \<le> 1 \<and> length (sg_posted g) + length (sg_log g) + k \<le> 1)"

lemma sending_ok_same: "sending_of t = sending_of s \<Longrightarrow> sending_ok s \<Longrightarrow> sending_ok t"
  by (simp add: sending_ok_def)

lemma sending_pop: "hs_socketStrand s = t # ts \<Longrightarrow> sending_of s = (sending_of (s\<lparr>hs_socketStrand := ts\<rparr>))
    \<lparr>sg_posted := htask_posted t @ sg_posted (sending_of (s\<lparr>hs_socketStrand := ts\<rparr>)),
     sg_shakes := htask_shake t + sg_shakes (sending_of (s\<lparr>hs_socketStrand := ts\<rparr>))\<rparr>"
  by (simp add: sending_of_def http_opens_def)

lemma sending_send: "hs_writeQueue s = [] \<Longrightarrow> sending_of (http_send m s) =
    (sending_of s)\<lparr>sg_queue := [m], sg_posted := sg_posted (sending_of s) @ [m]\<rparr>"
  by (simp add: http_send_def http_writeNext_def sending_of_def http_post_def http_opens_def)

text \<open>After the handshake the open handler queues the request, the first and only message.\<close>

lemma sending_handshake:
  assumes ok: "sending_ok s" and h: "program_handlers s"
    and first: "hs_writeQueue s = []" "sg_posted (sending_of s) = []" "sg_log (sending_of s) = []"
      "sg_shakes (sending_of s) + (1 - sg_opens (sending_of s)) = 0"
  shows "sending_ok (http_handleHandshake err s)"
proof (cases "err = None")
  case False
  with ok show ?thesis
    by (cases "err = Some OperationAborted") (auto simp: http_handleHandshake_def sending_ok_same)
next
  case True
  let ?v = "http_readNext s" and ?req = "http_request_text http_server_name"
  have "hs_openHandler ?v = Some [HCallSend ?req]"
    using h by (simp add: program_handlers_def http_readNext_def http_asyncRead_def
        http_start_op_def http_issue_def http_openedHandle_def)
  moreover have "hs_writeQueue ?v = []"
    using first(1) by (simp add: http_readNext_def http_asyncRead_def http_start_op_def http_issue_def)
  then have "sending_of (http_send ?req ?v) = (sending_of ?v)\<lparr>sg_queue := [?req], sg_posted := [?req]\<rparr>"
    using first(2) by (simp add: sending_send)
  ultimately show ?thesis using True ok first
    by (simp add: http_handleHandshake_def http_run_handler_def http_run_calls_def sending_ok_def Let_def)
qed

lemma sending_ok_task:
  assumes "sending_ok s" "program_handlers s" "hs_socketStrand s = t # ts"
  shows "sending_ok (http_run_task t (s\<lparr>hs_socketStrand := ts\<rparr>))"
proof -
  let ?u = "s\<lparr>hs_socketStrand := ts\<rparr>"
  note P = sending_pop [OF assms(3)]
  have ok: "sending_ok ?u" if "htask_posted t = []" "htask_shake t = 0"
    using assms(1) P that by (simp add: sending_ok_def)
  show ?thesis
  proof (cases t)
    case HRunHandshake
    have "sending_of (http_asyncHandshake ?u) = (sending_of ?u)\<lparr>sg_shakes := Suc (sg_shakes (sending_of ?u))\<rparr>"
      by (simp add: http_asyncHandshake_def) (simp add: sending_of_def http_start_op_def http_opens_def http_issue_def)
    with assms(1) P HRunHandshake show ?thesis by (simp add: sending_ok_def)
  next
    case HRunCancel
    with ok show ?thesis by (simp add: sending_ok_same)
  next
    case HRunClose
    let ?s = "http_issue HSocketClose (http_issue HSocketShutdown (?u\<lparr>hs_writeQueue := []\<rparr>))"
    have "hs_closeHandler ?s = Some []"
      using assms(2) by (simp add: program_handlers_def http_issue_def http_closedHandle_def)
    then have "sending_of (http_close_task ?u) = (sending_of ?u)\<lparr>sg_queue := []\<rparr>"
      by (simp add: http_close_task_def http_run_handler_def http_run_calls_def Let_def)
    with ok HRunClose show ?thesis by (auto simp: sending_ok_def Let_def)
  next
    case (HRunWrite m)
    have "sending_of (http_asyncWrite m ?u) = (sending_of ?u)\<lparr>sg_log := sg_log (sending_of ?u) @ [m]\<rparr>"
      by (simp add: http_asyncWrite_def) (simp add: sending_of_def http_issue_def http_opens_def)
    with assms(1) P HRunWrite show ?thesis by (auto simp: sending_ok_def Let_def)
  next
    case (HOnHandshake err)
    have "sending_ok ?u" using assms(1) P HOnHandshake by (auto simp: sending_ok_def Let_def)
    moreover have "hs_writeQueue ?u = []" "sg_posted (sending_of ?u) = []" "sg_log (sending_of ?u) = []"
      "sg_shakes (sending_of ?u) + (1 - sg_opens (sending_of ?u)) = 0"
      using assms(1) P HOnHandshake by (simp_all add: sending_ok_def Let_def) (simp_all add: sending_of_def)
    ultimately show ?thesis using sending_handshake [of ?u err] assms(2) HOnHandshake
      by (simp add: program_handlers_def)
  next
    case (HOnRead m err n)
    with ok show ?thesis by (simp add: sending_ok_same)
  next
    case (HOnWrite m err)
    have ok': "sending_ok ?u" using ok HOnWrite by simp
    have "length (hs_writeQueue ?u) \<le> 1" using ok' by (simp add: sending_ok_def sending_of_def Let_def)
    then have tl: "tl (hs_writeQueue ?u) = []" by (cases "hs_writeQueue ?u") auto
    then have "sending_of (http_handleWrite m err ?u) = (sending_of ?u)\<lparr>sg_queue := []\<rparr>"
      by (auto simp: http_handleWrite_def http_writeNext_def Let_def) (simp add: sending_of_def)+
    with ok' HOnWrite show ?thesis by (auto simp: sending_ok_def Let_def)
  qed
qed

lemma sending_open:
  assumes "sending_ok s" "http_opens s = 0" "http_open opt s = Inr t"
  shows "sending_ok t"
proof -
  have "t = s \<or> sending_of t = (sending_of s)\<lparr>sg_shakes := Suc (sg_shakes (sending_of s)),
      sg_opens := Suc (sg_opens (sending_of s))\<rparr>"
    using assms(3) by (auto simp: http_open_def http_configureSocket_def sending_of_def http_opens_def
        http_post_def http_issue_def split: if_splits option.splits)
  moreover have "sg_opens (sending_of s) = 0" using assms(2) by (simp add: sending_of_def)
  ultimately show ?thesis using assms(1) by (auto simp: sending_ok_def Let_def)
qed

lemma sending_complete:
  assumes "i < length (hs_pendingOps s)"
  shows "sending_of (http_post (http_completion (hs_pendingOps s ! i) err bs)
    (s\<lparr>hs_pendingOps := remove_at i (hs_pendingOps s)\<rparr>)) = sending_of s"
  using sum_list_remove_at [OF assms, of hop_shake]
  by (cases "hs_pendingOps s ! i") (simp_all add: sending_of_def http_opens_def http_post_def)

section \<open>What is received\<close>

definition receiving_ok :: "http_program \<Rightarrow> bool" where
  "receiving_ok p \<longleftrightarrow> (let s = ph_session p in
     prefix (http_output s) (ph_read p) \<and>
     (hs_isConnected s \<longrightarrow> http_output s @ unhandled s = ph_read p) \<and>
     (http_opens s = 0 \<longrightarrow> ph_read p = []))"

lemma output_calm: "http_calm s t \<Longrightarrow> http_output t = http_output s \<and> unhandled t = unhandled s"
  by (simp add: http_calm_def http_output_def printed_def)

lemma receiving_calm:
  assumes "receiving_ok p" "http_calm (ph_session p) t" "http_opens t = http_opens (ph_session p)"
  shows "receiving_ok (p\<lparr>ph_session := t\<rparr>)"
  using assms output_calm [OF assms(2)] by (auto simp: receiving_ok_def http_calm_def Let_def)

lemma opens_of_life: "fst (http_life s) = http_opens s"
  by (simp add: http_life_def)

lemma opens_drop: "http_opens (http_drop s) = http_opens s"
  by (simp flip: opens_of_life)

lemma opens_task: "http_opens (http_run_task t s) = http_opens s"
proof -
  have "fst (http_life (http_run_task t s)) = fst (http_life s)"
    by (cases t) (simp_all add: http_life_start http_life_handlers http_asyncWrite_def split: prod.splits)
  then show ?thesis by (simp add: opens_of_life)
qed

lemma idle_unhandled: "sum_list (map htask_busy ts) = 0 \<Longrightarrow> concat (map chunk_of ts) = []"
proof (induction ts)
  case (Cons t ts)
  then show ?case by (cases t) auto
qed simp

lemma chunk_handled:
  assumes "program_handlers s" "unhandled s = []"
  shows "hs_isConnected (http_handleRead m err n s) \<Longrightarrow> hs_isConnected s \<and>
      (err = None \<longrightarrow> n \<noteq> 0 \<and> http_output (http_handleRead m err n s) = http_output s @ [vector_resize n m]) \<and>
      (err \<noteq> None \<longrightarrow> http_output (http_handleRead m err n s) = http_output s) \<and>
      unhandled (http_handleRead m err n s) = []"
    and "http_output (http_handleRead m err n s) = http_output s \<or>
      (hs_isConnected s \<and> err = None \<and> http_output (http_handleRead m err n s) = http_output s @ [vector_resize n m])"
    and "program_handlers (http_handleRead m err n s)"
proof -
  have rh: "hs_receiveHandler s = Some http_receivedHandle" using assms(1) by (simp add: program_handlers_def)
  let ?m = "http_handleMessage (vector_resize n m) s"
  have msg: "http_output ?m = http_output s @ (if hs_isConnected s then [vector_resize n m] else [])"
    "unhandled ?m = []" "hs_isConnected ?m = hs_isConnected s" "program_handlers ?m"
    using assms by (auto simp: http_handleMessage_def rh http_output_def printed_def unhandled_def program_handlers_def)
  have next': "http_calm ?m (http_readNext ?m)" by simp
  have ni: "hs_isConnected (http_readNext ?m) = hs_isConnected s"
    using msg(3) by (simp add: http_readNext_def http_asyncRead_def http_start_op_def http_issue_def)
  note O = output_calm [OF next'] output_calm [OF http_calm_close(1) [of s]] and H = handlers_calm [OF msg(4) next']
    handlers_calm [OF assms(1) http_calm_close(1)]
  have nc: "\<not> hs_isConnected (http_close s)"
    by (simp add: http_close_def http_cancelAllPendingOperations_def http_post_def Let_def)
  show "hs_isConnected (http_handleRead m err n s) \<Longrightarrow> hs_isConnected s \<and>
      (err = None \<longrightarrow> n \<noteq> 0 \<and> http_output (http_handleRead m err n s) = http_output s @ [vector_resize n m]) \<and>
      (err \<noteq> None \<longrightarrow> http_output (http_handleRead m err n s) = http_output s) \<and>
      unhandled (http_handleRead m err n s) = []"
    using O msg nc ni assms(2) by (auto simp: http_handleRead_def split: if_splits)
  show "http_output (http_handleRead m err n s) = http_output s \<or>
      (hs_isConnected s \<and> err = None \<and> http_output (http_handleRead m err n s) = http_output s @ [vector_resize n m])"
    using O msg by (auto simp: http_handleRead_def)
  show "program_handlers (http_handleRead m err n s)" using H assms(1) by (auto simp: http_handleRead_def)
qed

section \<open>Every event\<close>

definition program_inv :: "http_program \<Rightarrow> bool" where
  "program_inv p \<longleftrightarrow> program_handlers (ph_session p) \<and> http_inv (ph_session p) \<and>
     http_opens (ph_session p) + of_bool (ph_connecting p) \<le> 1 \<and> sending_ok (ph_session p) \<and> receiving_ok p"

lemma program_inv_connected:
  assumes "program_inv p" "ph_connecting p"
  shows "program_inv (http_connected error opt (p\<lparr>ph_connecting := False\<rparr>))"
proof (cases "http_open opt (ph_session p)")
  case (Inl e)
  with assms show ?thesis by (simp add: http_connected_def program_inv_def receiving_ok_def)
next
  case (Inr t)
  let ?s = "ph_session p"
  have zero: "http_opens ?s = 0" using assms by (simp add: program_inv_def)
  then have idle: "\<not> hs_isConnected ?s" "http_busy ?s = 0"
    using assms(1) by (auto simp: program_inv_def http_inv_def http_life_def)
  then have un: "unhandled ?s = []" by (simp add: unhandled_def http_busy_def idle_unhandled)
  from Inr idle(1) have t: "hs_extCalls t = hs_extCalls ?s" "hs_readStrand t = hs_readStrand ?s"
    "unhandled t = unhandled ?s" "program_handlers t = program_handlers ?s" "http_opens t = Suc (http_opens ?s)"
    by (auto simp: http_open_def http_configureSocket_def unhandled_def program_handlers_def http_opens_def
        http_post_def http_issue_def split: option.splits)
  then have out: "http_output t = http_output ?s" by (simp add: http_output_def printed_def)
  have "receiving_ok (p\<lparr>ph_connecting := False, ph_session := t\<rparr>)"
    using assms(1) zero out t(3,5) un by (auto simp: program_inv_def receiving_ok_def Let_def)
  with assms Inr zero t(4,5) http_inv_open [OF Inr] sending_open [OF _ zero Inr] show ?thesis
    by (simp add: http_connected_def program_inv_def)
qed

lemma program_inv_task:
  assumes "program_inv p" "hs_socketStrand (ph_session p) = t # ts"
  shows "program_inv (p\<lparr>ph_session := http_run_task t ((ph_session p)\<lparr>hs_socketStrand := ts\<rparr>)\<rparr>)"
proof -
  let ?s = "ph_session p" and ?u = "(ph_session p)\<lparr>hs_socketStrand := ts\<rparr>"
  have inv: "program_handlers ?s" "http_inv ?s" "sending_ok ?s" "receiving_ok p" "http_opens ?s \<le> 1"
    "http_opens ?s + of_bool (ph_connecting p) \<le> 1"
    using assms(1) by (simp_all add: program_inv_def)
  have u: "program_handlers ?u" "http_output ?u = http_output ?s" "unhandled ?s = chunk_of t @ unhandled ?u"
    "http_opens ?u = http_opens ?s" "hs_isConnected ?u = hs_isConnected ?s"
    using inv(1) assms(2)
    by (simp_all add: program_handlers_def http_output_def printed_def unhandled_def http_opens_def)
  have opens: "http_opens (http_run_task t ?u) = http_opens ?s" by (simp add: opens_task u(4))
  have "program_handlers (http_run_task t ?u) \<and> receiving_ok (p\<lparr>ph_session := http_run_task t ?u\<rparr>)"
  proof (cases "\<exists>m err n. t = HOnRead m err n")
    case False
    then have c: "http_calm ?u (http_run_task t ?u)" using http_calm_task [OF u(1)] by blast
    have "chunk_of t = []" using False by (cases t) auto
    with inv(4) u output_calm [OF c] opens c handlers_calm [OF u(1) c] show ?thesis
      by (auto simp: receiving_ok_def http_calm_def Let_def)
  next
    case True
    then obtain m err n where t: "t = HOnRead m err n" by blast
    have "http_busy ?s \<le> 1" using inv(2,5) by (auto simp: http_inv_def http_life_def)
    then have "sum_list (map htask_busy ts) = 0" using assms(2) t by (simp add: http_busy_def)
    then have un: "unhandled ?u = []" by (simp add: unhandled_def idle_unhandled)
    note C = chunk_handled [OF u(1) un, of m err n]
    have chunk: "unhandled ?s = (if err = None then [vector_resize n m] else [])"
      using u(3) un t by (cases err) auto
    show ?thesis using C inv(4) u(2,4,5) opens chunk t
      by (cases err) (auto simp: receiving_ok_def Let_def)
  qed
  with inv(6) opens http_inv_task [OF assms(2) inv(2)] sending_ok_task [OF inv(3,1) assms(2)] show ?thesis
    by (simp add: program_inv_def)
qed

lemma program_inv_print:
  assumes "program_inv p" "hs_readStrand (ph_session p) = (h, m) # rs"
  shows "program_inv (p\<lparr>ph_session := http_run_calls (h m) ((ph_session p)\<lparr>hs_readStrand := rs\<rparr>)\<rparr>)"
proof -
  let ?s = "ph_session p"
  let ?v = "?s\<lparr>hs_readStrand := rs, hs_extCalls := hs_extCalls ?s @ [Print m]\<rparr>"
  have h: "h = http_receivedHandle" using assms by (simp add: program_inv_def program_handlers_def)
  have run: "http_run_calls (h m) (?s\<lparr>hs_readStrand := rs\<rparr>) = (if m = [] then http_drop ?v else ?v)"
    by (simp add: h http_receivedHandle_def http_run_calls_def)
  have v: "http_output ?v = http_output ?s" "unhandled ?v = unhandled ?s" "program_handlers ?v"
    "http_life ?v = http_life ?s" "sending_of ?v = sending_of ?s" "http_opens ?v = http_opens ?s"
    using assms by (simp_all add: http_output_def printed_def unhandled_def program_inv_def program_handlers_def
        http_opens_def)
  have ok: "program_inv (p\<lparr>ph_session := ?v\<rparr>)"
    using assms(1) v by (simp add: program_inv_def receiving_ok_def http_inv_same sending_ok_same Let_def)
  show ?thesis
  proof (cases "m = []")
    case False
    with ok run show ?thesis by simp
  next
    case True
    have o: "http_opens (http_drop ?v) = http_opens ?v" by (rule opens_drop)
    from receiving_calm [of "p\<lparr>ph_session := ?v\<rparr>" "http_drop ?v"] ok o http_calm_close(2) [of ?v]
      handlers_calm [OF v(3) http_calm_close(2)]
    have "program_inv (p\<lparr>ph_session := http_drop ?v\<rparr>)"
      by (simp add: program_inv_def http_inv_same [of "http_drop ?v" ?v] sending_ok_same [of "http_drop ?v" ?v])
    with True run show ?thesis by simp
  qed
qed

lemma program_inv_complete:
  assumes "program_inv p" "i < length (hs_pendingOps (ph_session p))"
  shows "program_inv (p\<lparr>ph_session := http_post (http_completion (hs_pendingOps (ph_session p) ! i) err bs)
      ((ph_session p)\<lparr>hs_pendingOps := remove_at i (hs_pendingOps (ph_session p))\<rparr>),
    ph_read := ph_read p @ http_taken (ph_session p) (HComplete i err bs)\<rparr>)"
proof -
  let ?s = "ph_session p"
  let ?t = "http_post (http_completion (hs_pendingOps ?s ! i) err bs)
      (?s\<lparr>hs_pendingOps := remove_at i (hs_pendingOps ?s)\<rparr>)"
  have same: "http_output ?t = http_output ?s" "hs_isConnected ?t = hs_isConnected ?s"
    "program_handlers ?t = program_handlers ?s"
    by (simp_all add: http_output_def printed_def program_handlers_def http_post_def)
  have "chunk_of (http_completion (hs_pendingOps ?s ! i) err bs) = http_taken ?s (HComplete i err bs)"
  proof (cases "hs_pendingOps ?s ! i")
    case (HOpRead m)
    have "vector_resize (min (length bs) (length m)) (overlay bs m) = take (length m) bs"
      by (simp add: take_vector_resize overlay_def min_def)
    with HOpRead assms(2) show ?thesis by (cases err) simp_all
  qed (cases err; simp)+
  then have un: "unhandled ?t = unhandled ?s @ http_taken ?s (HComplete i err bs)"
    by (simp add: unhandled_def http_post_def)
  note life = http_life_complete [OF assms(2), of err bs]
  have o: "http_opens ?t = http_opens ?s" using opens_of_life [of ?t] life by (simp add: opens_of_life)
  have "http_taken ?s (HComplete i err bs) = []" if "http_opens ?s = 0"
  proof -
    have "sum_list (map hop_busy (hs_pendingOps ?s)) = 0"
      using assms(1) that by (auto simp: program_inv_def http_inv_def http_life_def http_busy_def)
    with sum_list_remove_at [OF assms(2), of hop_busy] have "hop_busy (hs_pendingOps ?s ! i) = 0" by simp
    then show ?thesis by (cases "hs_pendingOps ?s ! i"; cases err) simp_all
  qed
  with assms(1) same un o have "receiving_ok (p\<lparr>ph_session := ?t, ph_read := ph_read p @ http_taken ?s (HComplete i err bs)\<rparr>)"
    by (auto simp: program_inv_def receiving_ok_def Let_def simp del: append_assoc simp flip: append_assoc)
  with assms(1) same o life sending_complete [OF assms(2), of err bs] show ?thesis
    by (simp add: program_inv_def http_inv_same [OF life] sending_ok_same [OF sending_complete [OF assms(2)]])
qed

lemma program_inv_exec: "http_program_exec p e = Some q \<Longrightarrow> program_inv p \<Longrightarrow> program_inv q"
proof (cases e)
  case (PhConnected error opt)
  assume "http_program_exec p e = Some q" "program_inv p"
  with PhConnected program_inv_connected show ?thesis by (auto split: if_splits)
next
  case (PhSession e')
  assume p: "http_program_exec p e = Some q" "program_inv p"
  show ?thesis
  proof (cases e')
    case HSocketStrand
    with p PhSession program_inv_task [OF p(2)] show ?thesis by (auto split: list.splits)
  next
    case HReadStrand
    with p PhSession program_inv_print [OF p(2)] show ?thesis by (auto split: list.splits)
  next
    case (HComplete i err bs)
    with p PhSession program_inv_complete [OF p(2), of i err bs] show ?thesis
      by (auto simp del: http_taken.simps split: if_splits)
  qed (use p PhSession in simp_all)
qed

interpretation http_client: inductive_invariant http_program_init http_program_next program_inv
proof unfold_locales
  show "program_inv p" if "http_program_init p" for p
    using that by (auto simp: http_program_init_def http_resolved_def program_inv_def program_handlers_def
        http_configure_def http_create_def http_inv_def http_life_defs sending_ok_def sending_of_def
        receiving_ok_def http_output_def printed_def Let_def)
  show "program_inv q" if "program_inv p" "http_program_next p q" for p q
    using that program_inv_exec by (auto simp: http_program_next_def)
qed

section \<open>Properties\<close>

text \<open>C27. The HTTP client: whatever the connection, the handshake and the session's operations do, it
  sends its request at most once and nothing else, it opens and closes its session at most once, and
  what it prints is a prefix of what it has read.  If the set-up in \<open>main\<close> does not throw, \<open>main\<close> never
  returns.\<close>

theorem http_client_prints_prefix:
  assumes "reach http_program_init http_program_next p"
  shows "prefix (concat (map hrequest_write (hs_issued (ph_session p)))) [http_request_text http_server_name] \<and>
    http_opens (ph_session p) \<le> 1 \<and> http_closes (ph_session p) \<le> 1 \<and>
    prefix (concat (printed (ph_session p))) (concat (ph_read p)) \<and> http_main False = None"
proof -
  let ?s = "ph_session p"
  have inv: "program_inv p" by (rule http_client.reachable_inv [OF assms])
  let ?log = "concat (map hrequest_write (hs_issued ?s))"
  have "set ?log \<subseteq> {http_request_text http_server_name}" "length ?log \<le> 1"
    using inv by (simp_all add: program_inv_def sending_ok_def sending_of_def Let_def)
  then have "?log = [] \<or> ?log = [http_request_text http_server_name]" by (cases ?log) auto
  then have "prefix ?log [http_request_text http_server_name]" by (metis Nil_prefix prefix_order.refl)
  moreover have "prefix (printed ?s) (ph_read p)"
    using inv prefix_order.order_trans [of "printed ?s" "http_output ?s" "ph_read p"]
    by (simp add: program_inv_def receiving_ok_def http_output_def Let_def)
  then have "prefix (concat (printed ?s)) (concat (ph_read p))" by (auto simp: prefix_def)
  moreover have "http_opens ?s \<le> 1" "http_closes ?s \<le> 1"
    using inv by (auto simp: program_inv_def http_inv_def http_life_def)
  ultimately show ?thesis using http_main_spins by blast
qed

text \<open>A run: the session is opened although the connection reported an error, sends its request and
  prints three bytes.\<close>

definition http_sample_events :: "http_program_event list" where
  "http_sample_events = PhConnected (Some (OtherError 1)) None # map PhSession [HSocketStrand, HComplete 0 None [],
     HSocketStrand, HSocketStrand, HComplete 0 None [1, 2, 3], HSocketStrand, HReadStrand]"

lemma http_program_reachable_run:
  assumes "run http_program_exec p es = Some q" "http_program_init p"
  shows "reach http_program_init http_program_next q"
  using assms(1) reach.reach_init [of http_program_init p, OF assms(2)]
  by (rule run_invariant) (auto simp: http_program_next_def intro: reach.reach_step)

lemma http_sample_run:
  "\<exists>p q. http_program_init p \<and> run http_program_exec p http_sample_events = Some q \<and>
     hs_issued (ph_session q) = [HSetNoDelay, HAsyncHandshake, HAsyncRead 10240,
       HAsyncWrite (http_request_text http_server_name), HAsyncRead 10240] \<and>
     concat (printed (ph_session q)) = [1, 2, 3]"
  by (simp add: run_simps http_sample_events_def printed_def overlay_def vector_resize_def)

theorem http_client_prints_prefix_witness:
  "\<exists>q. reach http_program_init http_program_next q \<and> concat (printed (ph_session q)) = [1, 2, 3] \<and>
     prefix [1, 2, 3] (concat (ph_read q)) \<and>
     concat (map hrequest_write (hs_issued (ph_session q))) = [http_request_text http_server_name]"
proof -
  obtain p q where q: "http_program_init p" "run http_program_exec p http_sample_events = Some q"
    "hs_issued (ph_session q) = [HSetNoDelay, HAsyncHandshake, HAsyncRead 10240,
       HAsyncWrite (http_request_text http_server_name), HAsyncRead 10240]"
    "concat (printed (ph_session q)) = [1, 2, 3]"
    using http_sample_run by blast
  note r = http_program_reachable_run [OF q(2,1)]
  from http_client_prints_prefix [OF r] q(3,4) r show ?thesis by (intro exI [of _ q]) simp
qed

end
