(* ===== verification/HTTPMains.thy ===== *)
theory HTTPMains
  imports HTTPClients ThreadPools
begin

text \<open>
  \<open>src/http_client/main.cpp\<close>, what \<open>main\<close> sets up around its session: the threads that run its handlers,
  the wait for a signal, the TLS context, and the query for the resolver, which is a function from the
  host and the service to an error.
\<close>

section \<open>Set-up\<close>

definition http_exceptionHandle :: "string \<Rightarrow> bool" where
  "http_exceptionHandle msg = False"

definition http_cpuCount :: nat where
  "http_cpuCount = 4"

definition http_pool :: thread_pool where
  "http_pool = setExceptionHandler (Some http_exceptionHandle) (ThreadPool_create http_cpuCount None)"

text \<open>The handler of the signals ends the process with code 0, whether its wait has failed or not.\<close>

definition http_signal_handler :: "error_code \<Rightarrow> int \<Rightarrow> int" where
  "http_signal_handler error signal_number = 0"

text \<open>The callback prints the subject of the certificate and does not use asio's verdict on it; the error
  of \<open>set_verify_mode\<close> is only logged, and then the context keeps its default, which verifies nothing.\<close>

record http_context =
  hx_verify :: "(bool \<Rightarrow> bool) option"
  hx_verifyPeer :: bool

definition http_verify_callback :: "bool \<Rightarrow> bool" where
  "http_verify_callback preverified = True"

definition http_sslContext :: "error_code \<Rightarrow> http_context" where
  "http_sslContext verr = \<lparr>hx_verify = Some http_verify_callback, hx_verifyPeer = (verr = None)\<rparr>"

definition http_query :: "bytes \<times> string" where
  "http_query = (http_server_name, ''https'')"

definition http_resolve :: "(bytes \<times> string \<Rightarrow> error_code) \<Rightarrow> http_program option" where
  "http_resolve resolver = http_resolved (resolver http_query)"

text \<open>The process: \<open>main\<close> and the wait for a signal, which is served by a thread of the pool;
  \<open>None\<close> for the signal is that the wait never completes, and \<open>None\<close> for the whole that the process
  never ends.\<close>

definition http_process :: "bool \<Rightarrow> (error_code \<times> int) option \<Rightarrow> int option" where
  "http_process setup_throws signal = (if setup_throws then http_main True
     else (case signal of Some (err, n) \<Rightarrow> Some (http_signal_handler err n) | None \<Rightarrow> http_main False))"

section \<open>Lemmas\<close>

text \<open>Nothing that happens to the request ends the program: it ends with code 0 when its set-up has
  thrown or a signal has come, and not otherwise.\<close>

lemma http_process_exits:
  "(http_process throws signal \<noteq> None \<longleftrightarrow> throws \<or> signal \<noteq> None) \<and> http_process throws signal \<in> {None, Some 0}"
  using http_main_spins by (auto simp: http_process_def http_main_def http_signal_handler_def split: option.split)

text \<open>A thread of the pool outlives every exception, so the wait for the signal is served as long as some
  call of \<open>run()\<close> has not returned.\<close>

lemma http_thread_lasts:
  "ThreadPool_run (tp_handler http_pool) outs = None \<longleftrightarrow> (\<forall>i. outs i \<noteq> Returned)" "tp_threads http_pool = 4"
proof -
  have "run_round (Some http_exceptionHandle) out \<longleftrightarrow> out = Returned" for out
    by (cases out) (simp_all add: http_exceptionHandle_def)
  then show "ThreadPool_run (tp_handler http_pool) outs = None \<longleftrightarrow> (\<forall>i. outs i \<noteq> Returned)"
    by (simp add: run_None http_pool_def setExceptionHandler_def)
qed (simp add: http_pool_def setExceptionHandler_def ThreadPool_create_def http_cpuCount_def)

text \<open>Whatever chain the peer shows, whatever asio thinks of its certificates, the handshake goes on; and
  the program talks to the peer exactly when the resolver knows the service of the fixed server.\<close>

lemma http_accepts_every_chain:
  "hx_verify (http_sslContext verr) = Some cb \<Longrightarrow> list_all cb verdicts"
  by (auto simp: http_sslContext_def http_verify_callback_def list_all_iff)

lemma http_resolve_starts:
  "(case http_resolve resolver of None \<Rightarrow> resolver (ascii ''www.google.com'', ''https'') \<noteq> None
    | Some p \<Rightarrow> resolver (ascii ''www.google.com'', ''https'') = None \<and> http_program_init p \<and> ph_connecting p)"
  by (auto simp: http_resolve_def http_query_def http_server_name_def http_resolved_def http_program_init_def
      split: option.split)

end
