(* ===== verification/ClientObjects.thy ===== *)
theory ClientObjects
  imports Clients Mains
begin

text \<open>
  \<open>src/utils/Net/src/Client.cpp\<close>, the \<open>Client\<close> object around its requests: its construction with a
  pool of three threads, \<open>configure\<close>, the query of \<open>request\<close>, and \<open>kill\<close>.  The port and the
  connect timeout are not initialised by the constructor, so their first values are parameters; the
  resolver is a function from the host and the service to an error.
\<close>

section \<open>State\<close>

record client =
  cl_ip :: string
  cl_port :: int
  cl_connectTimeOut :: int
  cl_verify :: "(bool \<Rightarrow> bool) option"
  cl_verifyPeer :: bool
  cl_pool :: thread_pool

definition DefaultTimeout :: int where
  "DefaultTimeout = 2 * 1000"

definition Threads :: nat where
  "Threads = 3"

section \<open>Operations\<close>

definition Client_create :: "int \<Rightarrow> int \<Rightarrow> client" where
  "Client_create port0 timeout0 =
     \<lparr>cl_ip = [], cl_port = port0, cl_connectTimeOut = timeout0, cl_verify = None, cl_verifyPeer = False,
      cl_pool = setExceptionHandler (Some (\<lambda>msg. False)) (ThreadPool_create Threads None)\<rparr>"

text \<open>The callback of the TLS context prints the subject of the certificate; it does not use asio's own
  verdict on it.\<close>

definition verify_callback :: "bool \<Rightarrow> bool" where
  "verify_callback preverified = True"

text \<open>\<open>verr\<close> is the error of \<open>set_verify_mode\<close>, which is only logged.\<close>

definition Client_configure :: "error_code \<Rightarrow> string \<Rightarrow> int \<Rightarrow> int \<Rightarrow> client \<Rightarrow> bool \<times> client" where
  "Client_configure verr ip port timeout c =
    (True, c\<lparr>cl_ip := ip, cl_port := port, cl_connectTimeOut := timeout,
       cl_verify := Some verify_callback, cl_verifyPeer := (verr = None \<or> cl_verifyPeer c)\<rparr>)"

definition resolve_query :: "client \<Rightarrow> string \<times> string" where
  "resolve_query c = (cl_ip c, to_string (cl_port c))"

definition Client_send_request ::
    "(string \<times> string \<Rightarrow> error_code) \<Rightarrow> buffer \<Rightarrow> bool \<Rightarrow> bool \<Rightarrow> client \<Rightarrow> request option" where
  "Client_send_request resolver payload hasSuccess hasError c =
     Client_request (resolver (resolve_query c)) payload hasSuccess hasError"

definition Client_kill :: "(nat \<Rightarrow> nat \<Rightarrow> run_outcome) \<Rightarrow> client \<Rightarrow> client option" where
  "Client_kill outs c = map_option (\<lambda>p. c\<lparr>cl_pool := p\<rparr>) (ThreadPool_stop outs (cl_pool c))"

section \<open>Lemmas\<close>

text \<open>Which certificates a handshake lets through: asio calls the callback for every certificate of the
  peer's chain with its own verdict, and goes on as long as it answers \<open>true\<close>.\<close>

definition chain_accepted :: "client \<Rightarrow> bool list \<Rightarrow> bool" where
  "chain_accepted c verdicts = (case cl_verify c of None \<Rightarrow> list_all id verdicts | Some cb \<Rightarrow> list_all cb verdicts)"

lemma configured_accepts_every_chain: "chain_accepted (snd (Client_configure verr ip port t c)) verdicts"
  by (simp add: chain_accepted_def Client_configure_def verify_callback_def list_all_iff)

text \<open>The stored timeout has no influence on a request.\<close>

lemma request_ignores_timeout:
  "Client_send_request resolver payload hs he (snd (Client_configure verr ip port t c)) =
   Client_send_request resolver payload hs he (snd (Client_configure verr ip port t' c'))"
  by (simp add: Client_send_request_def resolve_query_def Client_configure_def)

lemma kill_pool:
  "Client_kill outs (Client_create p t) \<noteq> None \<longleftrightarrow> (\<forall>k<Threads. \<exists>i. outs k i = Returned)"
proof -
  have "run_round (Some (\<lambda>msg. False)) out \<longleftrightarrow> out = Returned" for out by (cases out) simp_all
  then show ?thesis
    by (auto simp: Client_kill_def Client_create_def ThreadPool_stop_def join_all_def setExceptionHandler_def
        ThreadPool_create_def Let_def list_all_iff run_None)
qed

text \<open>A configured client asks the resolver for exactly the host and the decimal port it was given, however
  often it was configured before; if that resolves, the request waits for its connection with the
  payload to be sent by its open handler, and otherwise nothing is started and neither of the
  caller's functions will ever be called.\<close>

lemma resolves_configured_address:
  fixes ip ip' :: string and n n' t t' p0 t0 :: int and verr verr' :: error_code
  defines "c \<equiv> snd (Client_configure verr ip n t (snd (Client_configure verr' ip' n' t' (Client_create p0 t0))))"
  shows "Client_send_request resolver payload hs he c =
    (if resolver (ip, to_string n) = None then Client_request None payload hs he else None)"
  by (auto simp: c_def Client_send_request_def resolve_query_def Client_configure_def Client_request_def)

lemma started_request:
  "\<exists>r. Client_request None payload hs he = Some r \<and> rq_connecting r \<and> rq_reports r = [] \<and>
     openHandler (rq_session r) = Some [CallSend payload] \<and> request_inv r"
  by (simp add: Client_request_def configure_def openedHandle_def request_inv_def errors_def
      Timer_create_def potential_def)

end
