(* ===== verification/Spec2Isabelle.thy ===== *)
theory Spec2Isabelle
  imports BufferPool Programs HTTPCalls AcceptLoop StopMisses RequestReports ThreadPools
    SessionTwins SessionRaces SendLocks PingPeriods TornFrames Conversations Mains HTTPMains ClientObjects
begin

text \<open>
  Kylea: a C++ client and server that exchange framed messages over TLS, on \<open>boost::asio\<close>.  This
  development models its libraries (\<open>src/utils\<close>) and its three programs (\<open>src/server\<close>,
  \<open>src/client\<close>, \<open>src/http_client\<close>) and proves what makes them correct; where the code does not do
  what it means to, it proves in which states the deviation arises and what follows from it, and the
  witness of the theorem is a run that leads there.

  \<^bold>\<open>The program.\<close>  A \<open>Buffer\<close> is a byte vector with a logical size; a \<open>BufferProvider\<close> is a pool of
  buffers handed out through \<open>BufferLock\<close>s.  A \<open>Message\<close> is a packed header of 12 bytes with
  checksums, and a payload.  A \<open>Session\<close> writes the messages of its queue one after the other, reads
  headers and payloads in turn, answers pings, and watches its peer with a read timer; its state is
  changed by tasks of three strands and by callers of its public functions.  \<open>ClientHTTPSession\<close> is
  a copy of it for raw bytes.  A \<open>Server\<close> accepts connections, makes a \<open>Session\<close> of each and keeps the
  open ones in a \<open>SessionManager\<close>; a \<open>Client\<close> makes a \<open>Session\<close> and a \<open>Timer\<close> for each request.  A
  \<open>ThreadPool\<close> runs the posted work.  The programs construct these objects from their command lines.

  \<^bold>\<open>The theories\<close>, with the files they model:
  \<^item> \<open>Prelude\<close>: bytes, error codes, \<open>find_if_not\<close> and erase/remove, executable runs (\<open>run\<close>), reachability
    (\<open>reach\<close>), and the locales \<open>inductive_invariant\<close>, interpreted by every transition system below, and
    \<open>simulation\<close>, which extends it; and \<open>winding_down\<close>, systems with an invariant under
    which a potential bounds their runs, interpreted by a session and by a whole server.
  \<^item> \<open>Buffers\<close>, \<open>BufferPool\<close> (\<open>Buffer.h\<close>, \<open>Buffer.cpp\<close>, \<open>BufferLock.h\<close>, \<open>BufferProvider.cpp\<close>): buffers by
    value, then the pool over a heap, since locks alias its buffers; the destructor of a lock is two
    steps, because it holds no mutex.
  \<^item> \<open>Messages\<close> (\<open>MessageTypes.hpp\<close>, \<open>Message.hpp\<close>, \<open>Message.cpp\<close>, \<open>MetaMessage.cpp\<close>): header fields as
    machine words, their bytes in either byte order, construction and verification.
  \<^item> \<open>SessionModel\<close> (\<open>Session.hpp\<close>, \<open>Session.cpp\<close>): the record \<open>session\<close>, one definition for each function,
    posted task and completion handler, and the step relation \<open>session_step\<close> with its executable
    form \<open>session_exec\<close>, in which the events come in any order.
  \<^item> \<open>WriteQueue\<close>: the write discipline of both session classes as a small abstract protocol;
    \<open>SessionWriting\<close> and \<open>HTTPWriting\<close> show that the sessions simulate it.
  \<^item> \<open>SessionLifecycle\<close>, \<open>SessionCalls\<close>: how often a session is opened, closed and read from, and what it
    does to the rest of the program.
  \<^item> \<open>SessionStream\<close>: \<open>parse_frames\<close>, the specification of reading as a function on bytes, and that a
    session fed with bytes computes it, in whatever pieces they arrive.
  \<^item> \<open>SessionTyping\<close>: the well-typed states of a session; \<open>SessionReading\<close>, \<open>Endpoints\<close>: its read side
    refines \<open>parse_frames\<close> in every interleaving; \<open>SessionWatchdog\<close>: its read timer, and \<open>PingPeriods\<close>
    (\<open>RandomNumberGenerator.hpp\<close>) the generator that times it; \<open>SessionRaces\<close>: calls of \<open>close\<close>
    interleaved with a session statement by statement; \<open>SendLocks\<close>: calls of \<open>send\<close>
    and \<open>handleWrite\<close> likewise, under the mutex of the queue;
    \<open>SessionRest\<close>: how it runs out of work once its operations fail.
  \<^item> \<open>Connections\<close>: two sessions joined by two byte streams, with a record of the writes that failed, before
    a byte was sent or half-way; \<open>TornFrames\<close>: what the receiver makes of a write that failed half-way.
  \<^item> \<open>Senders\<close>, \<open>EndpointCalls\<close>: what a session is given to send, and that it writes nothing else;
    \<open>Conversations\<close>: a request of \<open>Client\<close> and the session of \<open>Server\<close> with the handler of its program,
    joined by a connection.
  \<^item> \<open>HTTPSession\<close>, \<open>HTTPWriting\<close>, \<open>HTTPLifecycle\<close> (\<open>ClientHTTPSession.hpp\<close>, \<open>ClientHTTPSession.cpp\<close>),
    \<open>HTTPCalls\<close>: what its handlers send and call, and \<open>SessionTwins\<close>: where the two classes agree.
  \<^item> \<open>Sessions\<close> (\<open>SessionManager.cpp\<close>); \<open>Servers\<close> (\<open>Server.cpp\<close>) with \<open>ServerSessions\<close>, \<open>ServerRegistry\<close> and
    \<open>ServerProperties\<close>, \<open>ServerRest\<close> and \<open>ServerStops\<close>: how a stopped server runs out of work,
    \<open>AcceptLoop\<close>: the accepts of a started one, before and after it is stopped, and \<open>StopMisses\<close>: the
    sessions that \<open>stop\<close> does not reach; \<open>Timers\<close> (\<open>Timer.cpp\<close>); \<open>ThreadPools\<close>
    (\<open>ThreadPool.h\<close>); \<open>Clients\<close> and \<open>ClientObjects\<close> (\<open>Client.cpp\<close>), \<open>RequestReports\<close>: that a request
    is never forgotten.
  \<^item> \<open>Programs\<close>, \<open>Mains\<close> (\<open>server/main.cpp\<close>, \<open>client/main.cpp\<close>): the conversions, the request handler, and
    \<open>main\<close> with \<open>stoi\<close> and the input loop; \<open>HTTPClients\<close> and \<open>HTTPMains\<close>
    (\<open>http_client/main.cpp\<close>): the handlers, and what \<open>main\<close> sets up.
  \<^item> This theory: a request and its answer across the two programs.

  \<^bold>\<open>How the code corresponds.\<close>  The fields of a record are the members of the class.  A strand is a
  list of tasks; \<open>post\<close> and the completion of an operation append to it, and one event runs its first
  task.  An asynchronous operation is an entry of \<open>pendingOps\<close> until an event completes it, with an
  error or not; \<open>issued\<close> is the history of what the code has asked of asio.  A handler given to
  \<open>configure\<close> is the list of calls it makes on the session, and \<open>CallExt\<close> stands for what it does
  elsewhere, which the clients of a session (\<open>Clients\<close>, \<open>Servers\<close>, \<open>HTTPClients\<close>) interpret.  Integers
  that the code keeps in a fixed width are words; exceptions and error codes are values of sums and
  options.

  \<^bold>\<open>What is shown.\<close>
  \<^item> End to end: what one side of a connection sends the other's handler gets, in order and unchanged, in
    every interleaving: a prefix of what was written while no write has failed or only the last one has, a
    part of it in order while no message was written behind one that was sent half-way; and such a one
    makes the receiver take the bytes of the next message for its payload.
  \<^item> A request gets its own answer: in every interleaving of the client's request, its timer, the streams
    and the server's session, success is reported at most once, with the answer computed from the
    request's login and password, as long as no write was cancelled half-way.
  \<^item> Writing: one write at a time, in the order of \<open>send\<close> but for pings and pongs, and no message stays
    behind unless a write was aborted, after which the session stalls for good.  Reading: one reader, the specification \<open>parse_frames\<close>, closing
    at the first bad message, and a peer that falls silent is found out.  Closing: how often the
    socket is closed and the close handler runs, counted by a call that only this handler makes;
    what an aborted handshake and unsynchronised callers change; and that a closed session comes to
    rest, so that nothing holds it any more.
  \<^item> The mutex makes \<open>send\<close> and \<open>handleWrite\<close> atomic: the model with statements refines the model with
    whole calls; only an event whose code takes the mutex waits for it.  The periods of the read timer are the numbers drawn, and their bounds.
  \<^item> Types: whatever is sent, the session keeps its messages well-formed.
  \<^item> The pool gives a buffer to one client at a time, and resets one it should not.  The manager
    implements the multiset of members.  A timer calls its function a bounded number of times.  A
    thread of the pool ends when it should.
  \<^item> The server's registry holds exactly the open sessions when nothing is posted; its accept loop
    keeps exactly one accept under way, is ended only by an exception out of \<open>open\<close>, and can survive
    \<open>stop\<close>.  \<open>stop\<close> closes every registered session, in every interleaving, and misses one whose
    handshake is under way; a stopped server whose accept was aborted runs out of work.
  \<^item> A request reports at most one error, can report twice, and reports at least once if its connection
    attempt completes.
  \<^item> The programs: exit codes, the port read from the command line, the input loop, and what the HTTP
    client prints.

  \<^bold>\<open>Termination and fuel.\<close>  No definition has fuel.  Loops of the code that may run for ever are partial
  functions into \<open>option\<close> (\<open>ThreadPool_loop\<close>, \<open>client_loop\<close>, \<open>http_spin\<close>), with lemmas that say when they
  return; everything else is total.

  \<^bold>\<open>The environment.\<close>  asio, OpenSSL and the kernel decide the order of events, the outcome of every
  operation and the bytes it reads.  Only where a property needs it does the model assume what asio
  documents: a read that succeeds has filled its buffer (\<open>admissible\<close>), a write passes its bytes on in
  order and completely unless it fails, and a failed one a prefix of them (\<open>Connections\<close>), a wait is aborted only by a cancellation
  (\<open>SessionWatchdog\<close>, \<open>RequestReports\<close>).  The serialisation of protobuf is a parameter, and so is the
  distribution of the standard library from which the timer's periods are drawn (\<open>PingPeriods\<close>;
  elsewhere they are any numbers).

  \<^bold>\<open>Not modelled.\<close>  Logging and printing, but for the HTTP client's output; the allocation of shared
  pointers and the lifetime of objects; data races other than that on \<open>isConnected_\<close> (\<open>send\<close> and
  \<open>handleWrite\<close> are proved to behave as one step; a call of another public function is one step);
  sharing of payload buffers between a message and its sender, who could still write to it;
  exceptions thrown by a user's handlers; the work of a handler mapper beyond the calls on its
  session; the rounding of \<open>float\<close>; files with aliases, interfaces or test drivers only.
\<close>

section \<open>Request and answer\<close>

text \<open>C9. Request and answer, across the components: when the bytes of a client's request reach a
  server session that waits for a header, its handler runs once and queues, behind all data
  messages, one message whose payload is the serialised id made of the login and the password; and
  when the bytes of this message reach a client session, its handler is given exactly this payload.\<close>

theorem request_is_answered:
  assumes "reading (onReceived parse ser) (OpReadHeader Message_default) server" "readStrand server = []"
    and "reading h (OpReadHeader Message_default) client" "readStrand client = []"
    and "length (ser_login login) < 2 ^ 32" "length (ser (answer_id login)) < 2 ^ 32"
    and "parse (ser_login login) = login"
  shows "\<exists>server1 server2 client1 answer.
    feed bo server (frame_bytes bo (Message_create Data (client_request ser_login login))) = (server1, []) \<and>
    session_exec bo server1 ReadStrand = Some server2 \<and>
    filter (\<lambda>m. \<not> is_control m) (writeQueue server2) = filter (\<lambda>m. \<not> is_control m) (writeQueue server) @ [answer] \<and>
    feed bo client (frame_bytes bo answer) = (client1, []) \<and>
    readStrand client1 = [(h, received_buffer (ser (answer_id login)))]"
proof -
  let ?q = "client_request ser_login login" and ?a = "Buffer_write (ser (answer_id login))
      (Buffer_create (length (ser (answer_id login))))"
  have q: "Buffer_view ?q = ser_login login" "well_sized ?q" "Buffer_size ?q < 2 ^ 32"
    using assms(5) by (simp_all add: client_request_def Let_def)
  obtain server1 where s1: "feed bo server (frame_bytes bo (Message_create Data ?q)) = (server1, [])"
    "readStrand server1 = [(onReceived parse ser, received_buffer (ser_login login))]"
    "filter (\<lambda>m. \<not> is_control m) (writeQueue server1) = filter (\<lambda>m. \<not> is_control m) (writeQueue server)"
    using receive_one [OF assms(1) sendable_data [OF q(2,3)], of bo] q(1) assms(2) by auto
  have calls: "onReceived parse ser (received_buffer (ser_login login)) = [CallSend ?a]"
    by (simp add: onReceived_def Let_def assms(7))
  have s2: "session_exec bo server1 ReadStrand = Some (send ?a (server1\<lparr>readStrand := []\<rparr>))"
    by (simp add: s1(2) calls)
  have "Buffer_size ?a < 2 ^ 32" using assms(6) by simp
  then obtain client1 where "feed bo client (frame_bytes bo (Message_create Data ?a)) = (client1, [])"
    "readStrand client1 = [(h, received_buffer (ser (answer_id login)))]"
    using receive_one [OF assms(3) sendable_data, of ?a bo] assms(4) by auto
  with s1(1) s2 send_queue [of ?a "server1\<lparr>readStrand := []\<rparr>"] s1(3) show ?thesis by auto
qed

theorem request_is_answered_witness:
  "\<exists>(server :: nat session) (client :: nat session). session_reachable LittleEndian server \<and> session_reachable LittleEndian client \<and>
    (\<exists>server1 server2 client1 answer.
      feed LittleEndian server (frame_bytes LittleEndian (Message_create Data
        (client_request (\<lambda>(l, p). word_of_nat (length l) # l @ p) ([1], [2])))) = (server1, []) \<and>
      session_exec LittleEndian server1 ReadStrand = Some server2 \<and>
      filter (\<lambda>m. \<not> is_control m) (writeQueue server2) = [answer] \<and>
      feed LittleEndian client (frame_bytes LittleEndian answer) = (client1, []) \<and>
      map snd (readStrand client1) = [received_buffer (answer_id ([1], [2]))])"
proof -
  let ?parse = "\<lambda>bs :: byte list. (take (unat (hd bs)) (tl bs), drop (unat (hd bs)) (tl bs))"
    and ?sl = "\<lambda>(l :: byte list, p). word_of_nat (length l) # l @ p"
  obtain server :: "nat session" where s: "run (session_exec LittleEndian) Session_create
      (Configure None None (Some (onReceived ?parse id)) # handshake_events ServerSide) = Some server"
    "reading (onReceived ?parse id) (OpReadHeader Message_default) server" "readStrand server = []"
    "writeQueue server = []" using reading_start by blast
  obtain client :: "nat session" where c: "run (session_exec LittleEndian) Session_create
      (Configure None None (Some (\<lambda>_. [CallDrop])) # handshake_events ServerSide) = Some client"
    "reading (\<lambda>_. [CallDrop]) (OpReadHeader Message_default) client" "readStrand client = []"
    using reading_start by blast
  have small: "length (?sl ([1], [2])) < 2 ^ 32" "length (id (answer_id ([1], [2]))) < 2 ^ 32"
    "?parse (?sl ([1], [2])) = ([1], [2])" by (simp_all add: answer_id_def ascii_def)
  obtain server1 server2 client1 answer where
    "feed LittleEndian server (frame_bytes LittleEndian (Message_create Data
        (client_request ?sl ([1], [2])))) = (server1, [])"
    "session_exec LittleEndian server1 ReadStrand = Some server2"
    "filter (\<lambda>m. \<not> is_control m) (writeQueue server2) = [answer]"
    "feed LittleEndian client (frame_bytes LittleEndian answer) = (client1, [])"
    "map snd (readStrand client1) = [received_buffer (answer_id ([1], [2]))]"
    using request_is_answered [where parse = ?parse and ser = id and ser_login = ?sl
      and login = "([1], [2])" and bo = LittleEndian, OF s(2,3) c(2,3) small] s(4) by auto
  with session_reachable_run [OF s(1)] session_reachable_run [OF c(1)] show ?thesis
    by (intro exI [of _ server] exI [of _ client] exI [of _ server1] exI [of _ server2]
        exI [of _ client1] exI [of _ answer] conjI)
qed

end
